(* ===== verification/Prelude.thy ===== *)
theory Prelude
  imports Main "HOL-Library.AList"
begin

section \<open>Prelude: exceptions, effects and dictionaries\<close>

text \<open>
  What every component shares.
  \<^item> \<open>exn\<close> is a raised Python exception: \<open>Exc\<close> an instance of \<open>Exception\<close> with the name of its
    class and its \<open>str()\<close>, \<open>Cancelled\<close> the \<open>asyncio.CancelledError\<close> that \<open>task.cancel()\<close>
    raises at an \<open>await\<close> and that \<open>except Exception\<close> does not catch.
  \<^item> \<open>('w, 'a) eff\<close> is a piece of \<open>async\<close> code over a state \<open>'w\<close>: it returns a value or
    raises, and in both cases leaves a new state. \<open>bind_eff\<close> is the sequencing of two
    statements, \<open>try_except\<close> is \<open>try: ... except Exception as exc: ...\<close> and
    \<open>try_finally\<close> is \<open>try: ... finally: ...\<close>; \<open>when_eff\<close> is an \<open>if\<close> without \<open>else\<close>.
  \<^item> \<open>('k, 'v) dict\<close> is a Python \<open>dict\<close>: the items in insertion order, read with
    \<open>map_of\<close>, written with \<open>AList.update\<close> (an existing key keeps its place) and shortened
    with \<open>AList.delete\<close>.
  The collection \<open>eff_simps\<close> unfolds the effect combinators, \<open>dict_simps\<close> reads updated
  dictionaries.
\<close>

named_theorems eff_simps "unfolding of the effect combinators"

named_theorems dict_simps "lookups in updated dictionaries"

subsection \<open>Exceptions and effects\<close>

datatype exn = Exc (exc_type: string) (exc_str: string) | Cancelled

type_synonym 'a res = "exn + 'a"

type_synonym ('w, 'a) eff = "'w \<Rightarrow> 'a res \<times> 'w"

definition ret :: "'a \<Rightarrow> ('w, 'a) eff" where
  "ret x w = (Inr x, w)"

definition raise :: "exn \<Rightarrow> ('w, 'a) eff" where
  "raise e w = (Inl e, w)"

definition bind_eff :: "('w, 'a) eff \<Rightarrow> ('a \<Rightarrow> ('w, 'b) eff) \<Rightarrow> ('w, 'b) eff" where
  "bind_eff m k w = (case m w of (Inl e, w') \<Rightarrow> (Inl e, w') | (Inr x, w') \<Rightarrow> k x w')"

definition modify :: "('w \<Rightarrow> 'w) \<Rightarrow> ('w, unit) eff" where
  "modify f w = (Inr (), f w)"

definition try_except :: "('w, 'a) eff \<Rightarrow> (exn \<Rightarrow> ('w, 'a) eff) \<Rightarrow> ('w, 'a) eff" where
  "try_except m h w = (case m w of
       (Inl (Exc t s), w') \<Rightarrow> h (Exc t s) w'
     | (Inl Cancelled, w') \<Rightarrow> (Inl Cancelled, w')
     | (Inr x, w') \<Rightarrow> (Inr x, w'))"

text \<open>\<open>try: x = m / except Exception as exc: ... continue\<close>, the exception handed on as a value.\<close>

definition catch_exc :: "('w, 'a) eff \<Rightarrow> ('w, exn + 'a) eff" where
  "catch_exc m w = (case m w of
       (Inl (Exc t s), w') \<Rightarrow> (Inr (Inl (Exc t s)), w')
     | (Inl Cancelled, w') \<Rightarrow> (Inl Cancelled, w')
     | (Inr x, w') \<Rightarrow> (Inr (Inr x), w'))"

definition try_finally :: "('w, 'a) eff \<Rightarrow> ('w \<Rightarrow> 'w) \<Rightarrow> ('w, 'a) eff" where
  "try_finally m f w = (case m w of (r, w') \<Rightarrow> (r, f w'))"

definition when_eff :: "bool \<Rightarrow> ('w, unit) eff \<Rightarrow> ('w, unit) eff" where
  "when_eff b m = (if b then m else ret ())"

lemmas [eff_simps] = ret_def raise_def bind_eff_def modify_def try_except_def catch_exc_def
  try_finally_def

lemma bind_eff_ret [simp]: "bind_eff (ret x) k = k x"
  by (simp add: fun_eq_iff bind_eff_def ret_def)

lemma bind_eff_raise [simp]: "bind_eff (raise e) k = raise e"
  by (simp add: fun_eq_iff bind_eff_def raise_def)

lemma bind_eff_assoc: "bind_eff (bind_eff m k) h = bind_eff m (\<lambda>x. bind_eff (k x) h)"
  by (auto simp: fun_eq_iff bind_eff_def split: prod.splits sum.splits)

lemma bind_eff_Inr:
  assumes "m w = (Inr x, w')"
  shows "bind_eff m k w = k x w'"
  using assms by (simp add: bind_eff_def)

lemma bind_eff_Inl:
  assumes "m w = (Inl e, w')"
  shows "bind_eff m k w = (Inl e, w')"
  using assms by (simp add: bind_eff_def)

lemma bind_eff_cases:
  assumes "bind_eff m k w = (r, w')"
  obtains (exn) e where "m w = (Inl e, w')" "r = Inl e"
    | (ok) x w1 where "m w = (Inr x, w1)" "k x w1 = (r, w')"
  using assms by (auto simp: bind_eff_def split: prod.splits sum.splits)

subsection \<open>Dictionaries\<close>

type_synonym ('k, 'v) dict = "('k \<times> 'v) list"

abbreviation dict_keys :: "('k, 'v) dict \<Rightarrow> 'k list" where
  "dict_keys d \<equiv> map fst d"

definition dict_ok :: "('k, 'v) dict \<Rightarrow> bool" where
  "dict_ok d \<longleftrightarrow> distinct (dict_keys d)"

lemma map_of_update [dict_simps]: "map_of (AList.update k v d) = (map_of d)(k \<mapsto> v)"
  by (rule update_conv')

lemma map_of_dict_delete [dict_simps]: "map_of (AList.delete k d) = (map_of d)(k := None)"
  by (simp add: delete_conv')

lemma dict_ok_Nil [simp]: "dict_ok []"
  by (simp add: dict_ok_def)

lemma dict_ok_update [simp, intro]: "dict_ok d \<Longrightarrow> dict_ok (AList.update k v d)"
  by (simp add: dict_ok_def distinct_update)

lemma dict_ok_delete [simp, intro]: "dict_ok d \<Longrightarrow> dict_ok (AList.delete k d)"
  by (simp add: dict_ok_def distinct_delete)

lemma dict_keys_update: "set (dict_keys (AList.update k v d)) = insert k (set (dict_keys d))"
  by (induction d) auto

lemma length_update:
  "length (AList.update k v d) = (if map_of d k = None then Suc (length d) else length d)"
  by (induction d) auto

lemma length_delete:
  assumes "dict_ok d"
  shows "length (AList.delete k d) = (if map_of d k = None then length d else length d - 1)"
proof -
  have keys: "dict_keys (AList.delete k d) = removeAll k (dict_keys d)"
    by (induction d) auto
  have "length (AList.delete k d) = length (dict_keys (AList.delete k d))" by simp
  also have "\<dots> = length (removeAll k (dict_keys d))" by (simp only: keys)
  also have "\<dots> = (if k \<in> set (dict_keys d) then length d - 1 else length d)"
    using assms by (simp add: dict_ok_def distinct_remove1_removeAll [symmetric] length_remove1)
  finally show ?thesis
    by (auto simp: map_of_eq_None_iff)
qed

end
