(* ===== verification/Py_Values.thy ===== *)
theory Py_Values
  imports Prelude
begin

section \<open>Python values\<close>

text \<open>
  The values that reach the program as \<open>Any\<close>: payloads, handler results, stored results.
  \<^item> A \<open>str\<close> is held as the bytes of its UTF-8 encoding, a \<open>string\<close> of HOL; \<open>encode()\<close>
    is then the identity and \<open>decode()\<close> is \<open>utf8_decode\<close>, which accepts or raises. With
    its first argument \<open>True\<close> it also lets lone surrogates through (\<open>surrogatepass\<close>,
    the error handler of \<open>json.loads\<close>).
  \<^item> An \<open>int\<close> is unbounded. A \<open>float\<close> is held as the decimal literal it was read from or
    is printed as; \<open>float_is_zero\<close> says when the nearest double is zero (the literal is
    zero, or below half the least subnormal \<open>2 ^ (-1074)\<close>).
  \<^item> A \<open>dict\<close> has string keys, as every decoded JSON object does.
  \<open>same_value\<close> is Python's \<open>==\<close> between values of one type: dictionaries are compared by
  their lookups, so their order does not matter.
\<close>

datatype pyval =
    PNone
  | PBool bool
  | PInt int
  | PFloat string
  | PStr string
  | PBytes string
  | PList "pyval list"
  | PDict "(string \<times> pyval) list"

subsection \<open>Decimal numerals\<close>

definition is_digit :: "char \<Rightarrow> bool" where
  "is_digit c \<longleftrightarrow> 48 \<le> (of_char c :: nat) \<and> (of_char c :: nat) \<le> 57"

definition digit_char :: "nat \<Rightarrow> char" where
  "digit_char d = char_of (48 + d)"

definition digit_val :: "char \<Rightarrow> nat" where
  "digit_val c = of_char c - 48"

fun show_nat :: "nat \<Rightarrow> string" where
  "show_nat n = (if n < 10 then [digit_char n] else show_nat (n div 10) @ [digit_char (n mod 10)])"

declare show_nat.simps [simp del]

definition show_int :: "int \<Rightarrow> string" where
  "show_int i = (if i < 0 then CHR ''-'' # show_nat (nat (- i)) else show_nat (nat i))"

definition read_nat :: "string \<Rightarrow> nat" where
  "read_nat s = foldl (\<lambda>n c. 10 * n + digit_val c) 0 s"

lemma is_digit_char [simp]: "d < 10 \<Longrightarrow> is_digit (digit_char d)"
  by (simp add: is_digit_def digit_char_def)

lemma digit_val_char [simp]: "d < 10 \<Longrightarrow> digit_val (digit_char d) = d"
  by (simp add: digit_val_def digit_char_def)

lemma show_nat_digits: "c \<in> set (show_nat n) \<Longrightarrow> is_digit c"
proof (induction n rule: show_nat.induct)
  case (1 n)
  then show ?case
    by (cases "n < 10") (auto simp: show_nat.simps [of n])
qed

lemma show_nat_nonempty [simp]: "show_nat n \<noteq> []"
  by (subst show_nat.simps) simp

lemma read_nat_snoc: "read_nat (s @ [c]) = 10 * read_nat s + digit_val c"
  by (simp add: read_nat_def)

lemma read_show_nat [simp]: "read_nat (show_nat n) = n"
proof (induction n rule: show_nat.induct)
  case (1 n)
  show ?case
  proof (cases "n < 10")
    case True
    then show ?thesis by (simp add: show_nat.simps [of n] read_nat_def)
  next
    case False
    with "1.IH" show ?thesis
      by (simp add: show_nat.simps [of n] read_nat_snoc)
  qed
qed

text \<open>The printed numeral has no leading zero, except for zero itself.\<close>

lemma show_nat_head: "show_nat n = CHR ''0'' # s \<Longrightarrow> n = 0"
proof (induction n arbitrary: s rule: show_nat.induct)
  case (1 n)
  show ?case
  proof (cases "n < 10")
    case True
    with "1.prems" have "digit_char n = CHR ''0''" by (simp add: show_nat.simps [of n])
    then have "digit_val (digit_char n) = digit_val (CHR ''0'')" by simp
    with True show ?thesis by (simp add: digit_val_def digit_char_def)
  next
    case False
    obtain c' s' where s': "show_nat (n div 10) = c' # s'"
      by (cases "show_nat (n div 10)") auto
    with False "1.prems" have "c' = CHR ''0''" by (simp add: show_nat.simps [of n])
    with "1.IH" [OF False] s' False show ?thesis by simp
  qed
qed

subsection \<open>UTF-8\<close>

definition cont_byte :: "nat \<Rightarrow> bool" where
  "cont_byte b \<longleftrightarrow> 128 \<le> b \<and> b \<le> 191"

text \<open>The least and the greatest second byte after the lead byte \<open>a\<close> of a longer sequence.\<close>

definition second_byte :: "bool \<Rightarrow> nat \<Rightarrow> nat \<Rightarrow> bool" where
  "second_byte pass a b \<longleftrightarrow> cont_byte b
     \<and> (a = 224 \<longrightarrow> 160 \<le> b)
     \<and> (a = 237 \<and> \<not> pass \<longrightarrow> b \<le> 159)
     \<and> (a = 240 \<longrightarrow> 144 \<le> b)
     \<and> (a = 244 \<longrightarrow> b \<le> 143)"

text \<open>The first code point of a byte string, and the bytes after it.\<close>

definition utf8_next :: "bool \<Rightarrow> string \<Rightarrow> (nat \<times> string) option" where
  "utf8_next pass s = (case map of_char s :: nat list of
       [] \<Rightarrow> None
     | a # as \<Rightarrow>
         if a < 128 then Some (a, drop 1 s)
         else if 194 \<le> a \<and> a \<le> 223 then (case as of
             b # _ \<Rightarrow> if cont_byte b then Some ((a - 192) * 64 + (b - 128), drop 2 s) else None
           | _ \<Rightarrow> None)
         else if 224 \<le> a \<and> a \<le> 239 then (case as of
             b # c # _ \<Rightarrow>
               if second_byte pass a b \<and> cont_byte c
               then Some (((a - 224) * 64 + (b - 128)) * 64 + (c - 128), drop 3 s) else None
           | _ \<Rightarrow> None)
         else if 240 \<le> a \<and> a \<le> 244 then (case as of
             b # c # d # _ \<Rightarrow>
               if second_byte pass a b \<and> cont_byte c \<and> cont_byte d
               then Some ((((a - 240) * 64 + (b - 128)) * 64 + (c - 128)) * 64 + (d - 128), drop 4 s)
               else None
           | _ \<Rightarrow> None)
         else None)"

lemma utf8_next_length: "utf8_next pass s = Some (p, r) \<Longrightarrow> length r < length s"
  by (cases s) (auto simp: utf8_next_def split: list.splits if_splits)

function utf8_decode :: "bool \<Rightarrow> string \<Rightarrow> nat list option" where
  "utf8_decode pass s =
     (if s = [] then Some []
      else case utf8_next pass s of
        None \<Rightarrow> None
      | Some (p, r) \<Rightarrow> map_option (Cons p) (utf8_decode pass r))"
  by pat_completeness auto
termination
  by (relation "measure (length \<circ> snd)") (auto dest: utf8_next_length)

declare utf8_decode.simps [simp del]

definition utf8_char :: "nat \<Rightarrow> string" where
  "utf8_char p =
     (if p < 128 then [char_of p]
      else if p < 2048 then [char_of (192 + p div 64), char_of (128 + p mod 64)]
      else if p < 65536 then
        [char_of (224 + p div 64 div 64), char_of (128 + p div 64 mod 64), char_of (128 + p mod 64)]
      else
        [char_of (240 + p div 64 div 64 div 64), char_of (128 + p div 64 div 64 mod 64),
         char_of (128 + p div 64 mod 64), char_of (128 + p mod 64)])"

definition utf8_ok :: "string \<Rightarrow> bool" where
  "utf8_ok s \<longleftrightarrow> utf8_decode False s \<noteq> None"

text \<open>
  \<open>decode(errors="replace")\<close>: each longest prefix of a well-formed sequence that is not
  completed, or else one byte, becomes U+FFFD.
\<close>

definition bad_length :: "string \<Rightarrow> nat" where
  "bad_length s = (case map of_char s :: nat list of
       a # b # c # _ \<Rightarrow>
         if 224 \<le> a \<and> a \<le> 239 \<and> second_byte False a b then 2
         else if 240 \<le> a \<and> a \<le> 244 \<and> second_byte False a b then (if cont_byte c then 3 else 2)
         else 1
     | a # b # _ \<Rightarrow> if 224 \<le> a \<and> a \<le> 244 \<and> second_byte False a b then 2 else 1
     | _ \<Rightarrow> 1)"

lemma bad_length_pos: "0 < bad_length s"
  by (auto simp: bad_length_def split: list.splits)

function utf8_replace :: "string \<Rightarrow> string" where
  "utf8_replace s =
     (if s = [] then []
      else case utf8_next False s of
        Some (p, r) \<Rightarrow> utf8_char p @ utf8_replace r
      | None \<Rightarrow> utf8_char 0xFFFD @ utf8_replace (drop (bad_length s) s))"
  by pat_completeness auto
termination
  using bad_length_pos by (relation "measure length") (auto dest: utf8_next_length)

declare utf8_replace.simps [simp del]

subsection \<open>Truth values\<close>

definition exponent_val :: "string \<Rightarrow> int" where
  "exponent_val s = (case s of
       [] \<Rightarrow> 0
     | c # r \<Rightarrow> if c = CHR ''-'' then - int (read_nat r)
               else if c = CHR ''+'' then int (read_nat r) else int (read_nat s))"

definition float_is_zero :: "string \<Rightarrow> bool" where
  "float_is_zero lit =
     (let s = (case lit of c # r \<Rightarrow> (if c = CHR ''-'' then r else lit) | [] \<Rightarrow> []);
          ip = takeWhile is_digit s; r1 = dropWhile is_digit s;
          fp = (case r1 of c # r \<Rightarrow> if c = CHR ''.'' then takeWhile is_digit r else [] | [] \<Rightarrow> []);
          r2 = (case r1 of c # r \<Rightarrow> if c = CHR ''.'' then dropWhile is_digit r else r1 | [] \<Rightarrow> []);
          k = exponent_val (drop 1 r2) - int (length fp);
          n = read_nat (ip @ fp)
      in ip \<noteq> [] \<and> (n = 0 \<or> k < 0 \<and> n * 2 ^ 1075 \<le> 10 ^ nat (- k)))"

definition truthy :: "pyval \<Rightarrow> bool" where
  "truthy v = (case v of
       PNone \<Rightarrow> False
     | PBool b \<Rightarrow> b
     | PInt i \<Rightarrow> i \<noteq> 0
     | PFloat s \<Rightarrow> \<not> float_is_zero s
     | PStr s \<Rightarrow> s \<noteq> []
     | PBytes s \<Rightarrow> s \<noteq> []
     | PList xs \<Rightarrow> xs \<noteq> []
     | PDict d \<Rightarrow> d \<noteq> [])"

text \<open>
  \<open>str(v)\<close>. The text of a float, a list or a dict is \<open>repr\<close>, which needs the shortest
  decimal of a double and Unicode's table of printable characters: it is the argument
  \<open>rp\<close>.
\<close>

definition py_str :: "(pyval \<Rightarrow> string) \<Rightarrow> pyval \<Rightarrow> string" where
  "py_str rp v = (case v of
       PNone \<Rightarrow> ''None''
     | PBool b \<Rightarrow> (if b then ''True'' else ''False'')
     | PInt i \<Rightarrow> show_int i
     | PStr s \<Rightarrow> s
     | _ \<Rightarrow> rp v)"

text \<open>\<open>d.get(k)\<close>, and \<open>d.pop(k, None)\<close> as far as its answer goes.\<close>

definition dict_get :: "string \<Rightarrow> (string, pyval) dict \<Rightarrow> pyval" where
  "dict_get k d = (case map_of d k of Some v \<Rightarrow> v | None \<Rightarrow> PNone)"

subsection \<open>Equality of values\<close>

inductive same_value :: "pyval \<Rightarrow> pyval \<Rightarrow> bool" where
  same_None: "same_value PNone PNone"
| same_Bool: "same_value (PBool b) (PBool b)"
| same_Int: "same_value (PInt i) (PInt i)"
| same_Float: "same_value (PFloat s) (PFloat s)"
| same_Str: "same_value (PStr s) (PStr s)"
| same_Bytes: "same_value (PBytes s) (PBytes s)"
| same_List: "list_all2 same_value xs ys \<Longrightarrow> same_value (PList xs) (PList ys)"
| same_Dict: "(\<And>k. rel_option same_value (map_of d k) (map_of d' k)) \<Longrightarrow>
     same_value (PDict d) (PDict d')"

inductive_simps same_value_simps [simp]:
  "same_value PNone v" "same_value (PBool b) v" "same_value (PInt i) v" "same_value (PFloat s) v"
  "same_value (PStr s) v" "same_value (PBytes s) v"
  "same_value v PNone" "same_value v (PBool b)" "same_value v (PInt i)" "same_value v (PFloat s)"
  "same_value v (PStr s)" "same_value v (PBytes s)"

inductive_simps same_List_iff: "same_value (PList xs) (PList ys)"
inductive_simps same_Dict_iff: "same_value (PDict d) (PDict d')"
inductive_cases same_DictE: "same_value (PDict d) v"
inductive_cases same_ListE: "same_value (PList xs) v"

lemma same_value_refl [simp]: "same_value v v"
proof (induction v)
  case (PList xs)
  then show ?case
    by (auto intro!: same_List simp: list.rel_refl_strong)
next
  case (PDict d)
  have "rel_option same_value (map_of d k) (map_of d k)" for k
    using PDict by (cases "map_of d k") (auto dest: map_of_SomeD)
  then show ?case by (rule same_Dict)
qed (auto intro: same_value.intros)

lemma same_value_trans: "same_value u v \<Longrightarrow> same_value v w \<Longrightarrow> same_value u w"
proof (induction arbitrary: w rule: same_value.induct)
  case (same_List xs ys)
  from same_List.prems obtain zs where w: "w = PList zs" "list_all2 same_value ys zs"
    by (auto elim: same_ListE)
  from same_List.IH w(2) have "list_all2 same_value xs zs"
    by (auto simp: list_all2_conv_all_nth)
  with w(1) show ?case by (simp add: same_value.same_List)
next
  case (same_Dict d d')
  from same_Dict.prems obtain e where w: "w = PDict e"
    and e: "\<And>k. rel_option same_value (map_of d' k) (map_of e k)"
    by (auto elim: same_DictE)
  have "rel_option same_value (map_of d k) (map_of e k)" for k
    using same_Dict.IH [of k] e [of k]
    by (cases "map_of d k"; cases "map_of d' k"; cases "map_of e k") auto
  with w show ?case by (simp add: same_value.same_Dict)
qed auto

end
