(* ===== verification/Dedup_Store.thy ===== *)
theory Dedup_Store
  imports Models
begin

section \<open>The store interface and its contract\<close>

text \<open>
  \<open>src/dedup/store.py\<close>: the abstract class \<open>DeduplicationStore\<close>.
  \<^item> \<open>store_ops\<close> is the class's method table; a backend is a value of this record over its
    own state \<open>'s\<close>. Every method takes the instant of the call and may raise.
    \<open>op_connect\<close> is optional: \<open>DedupConsumer.start\<close> calls it only if the store has it.
  \<^item> The abstract machine (\<open>astate\<close>, \<open>a_claim\<close>, \<open>a_complete\<close>, \<open>a_fail\<close>, \<open>a_delete\<close>,
    \<open>a_age\<close>) is the status state machine of the documentation, one cell per message id: what
    is recorded for it, and until when the record is kept (\<open>None\<close>: forever).
  \<^item> The locale \<open>dedup_store\<close> is the contract: the methods of a backend act on the cells as
    the abstract machine does. A method that raises has either not acted or acted as if it
    had returned. \<open>in_range\<close>, \<open>storable\<close> and \<open>reportable\<close> say for which attempt counters, results and
    failure reports a backend promises this. \<open>guarded_store\<close> adds that \<open>mark_failed\<close> leaves a record alone that is
    no longer \<open>PROCESSING\<close>.
\<close>

record 's store_ops =
  op_claim :: "string \<Rightarrow> int \<Rightarrow> ('s, bool) eff"
  op_is_duplicate :: "string \<Rightarrow> int \<Rightarrow> ('s, bool) eff"
  op_mark_completed :: "string \<Rightarrow> pyval \<Rightarrow> int \<Rightarrow> ('s, unit) eff"
  op_mark_failed :: "string \<Rightarrow> string \<Rightarrow> int \<Rightarrow> int \<Rightarrow> ('s, unit) eff"
  op_get_status :: "string \<Rightarrow> int \<Rightarrow> ('s, ProcessingStatus option) eff"
  op_delete :: "string \<Rightarrow> int \<Rightarrow> ('s, unit) eff"
  op_close :: "int \<Rightarrow> ('s, unit) eff"
  op_connect :: "(int \<Rightarrow> ('s, unit) eff) option"

subsection \<open>The abstract machine\<close>

datatype entry =
    Absent
  | Processing int "int option"
  | Completed pyval
  | Failed int
  | Skipped

definition entry_of :: "ProcessingStatus option \<Rightarrow> entry" where
  "entry_of r = (case r of
       None \<Rightarrow> Absent
     | Some p \<Rightarrow> (case ps_status p of
           PROCESSING \<Rightarrow> Processing (ps_attempts p) (ps_lease_expires_at p)
         | COMPLETED \<Rightarrow> Completed (ps_result p)
         | FAILED \<Rightarrow> Failed (ps_attempts p)
         | SKIPPED \<Rightarrow> Skipped))"

type_synonym cell = "entry \<times> int option"

type_synonym astate = "string \<Rightarrow> cell"

text \<open>Who may claim: nobody has, the last attempt failed with retries left, or the lease ran out.\<close>

fun may_claim :: "DeduplicationConfig \<Rightarrow> int \<Rightarrow> entry \<Rightarrow> bool" where
  "may_claim cfg now Absent = True"
| "may_claim cfg now (Failed n) = (retry_failed cfg \<and> n < max_retries cfg)"
| "may_claim cfg now (Processing n (Some l)) = (l \<le> now)"
| "may_claim cfg now (Processing n None) = False"
| "may_claim cfg now (Completed v) = False"
| "may_claim cfg now Skipped = False"

fun next_attempt :: "entry \<Rightarrow> int" where
  "next_attempt (Processing n l) = n + 1"
| "next_attempt (Failed n) = n + 1"
| "next_attempt _ = 1"

definition a_claim ::
    "DeduplicationConfig \<Rightarrow> (int \<Rightarrow> int option) \<Rightarrow> int \<Rightarrow> int \<Rightarrow> string \<Rightarrow> astate \<Rightarrow> bool \<times> astate" where
  "a_claim cfg fresh now lease m A =
     (let (e, u) = A m in
      if may_claim cfg now e
      then (True, A(m := (Processing (next_attempt e) (Some lease),
                          if e = Absent then fresh now else u)))
      else (False, A))"

definition a_complete :: "pyval \<Rightarrow> string \<Rightarrow> astate \<Rightarrow> astate" where
  "a_complete v m A = (case A m of (Processing n l, u) \<Rightarrow> A(m := (Completed v, u)) | _ \<Rightarrow> A)"

definition a_fail :: "int \<Rightarrow> string \<Rightarrow> astate \<Rightarrow> astate" where
  "a_fail n m A = (case A m of (Processing k l, u) \<Rightarrow> A(m := (Failed n, u)) | _ \<Rightarrow> A)"

definition a_delete :: "string \<Rightarrow> astate \<Rightarrow> astate" where
  "a_delete m A = A(m := (Absent, None))"

definition alive :: "int \<Rightarrow> int option \<Rightarrow> bool" where
  "alive now u = (case u of None \<Rightarrow> True | Some t \<Rightarrow> now < t)"

definition a_age :: "int \<Rightarrow> astate \<Rightarrow> astate" where
  "a_age now A = (\<lambda>k. if alive now (snd (A k)) then A k else (Absent, None))"

text \<open>
  The lease of a claim made at \<open>now\<close>, in microseconds. A backend may keep it in whole
  milliseconds and so end it up to one millisecond early.
\<close>

definition lease_at :: "DeduplicationConfig \<Rightarrow> int \<Rightarrow> int \<Rightarrow> bool" where
  "lease_at cfg now l \<longleftrightarrow>
     now + processing_timeout_seconds cfg * 1000000 - 1000 < l
     \<and> l \<le> now + processing_timeout_seconds cfg * 1000000"

subsection \<open>Laws of the abstract machine\<close>

lemma alive_None [simp]: "alive now None"
  by (simp add: alive_def)

lemma alive_mono: "alive t u \<Longrightarrow> now \<le> t \<Longrightarrow> alive now u"
  by (auto simp: alive_def split: option.splits)

lemma a_claim_other [simp]: "k \<noteq> m \<Longrightarrow> snd (a_claim cfg fresh now l m A) k = A k"
  by (simp add: a_claim_def split: prod.splits)

lemma a_complete_other [simp]: "k \<noteq> m \<Longrightarrow> a_complete v m A k = A k"
  by (auto simp: a_complete_def split: prod.splits entry.splits)

lemma a_fail_other [simp]: "k \<noteq> m \<Longrightarrow> a_fail n m A k = A k"
  by (auto simp: a_fail_def split: prod.splits entry.splits)

lemma a_delete_other [simp]: "k \<noteq> m \<Longrightarrow> a_delete m A k = A k"
  by (simp add: a_delete_def)

lemma a_complete_simps:
  "fst (A m) = Completed w \<Longrightarrow> a_complete v m A = A"
  "fst (A m) = Processing n l \<Longrightarrow> a_complete v m A = A(m := (Completed v, snd (A m)))"
  by (cases "A m"; simp add: a_complete_def)+

lemma a_fail_simps:
  "fst (A m) = Completed w \<Longrightarrow> a_fail k m A = A"
  "fst (A m) = Processing n l \<Longrightarrow> a_fail k m A = A(m := (Failed k, snd (A m)))"
  by (cases "A m"; simp add: a_fail_def)+

text \<open>A message that is not being processed is not touched.\<close>

lemma a_idle:
  assumes "\<nexists>n l. fst (A m) = Processing n l"
  shows "a_complete v m A = A" "a_fail k m A = A"
proof -
  obtain e u where A: "A m = (e, u)" by (cases "A m")
  show "a_complete v m A = A"
    using assms A by (cases e) (simp_all add: a_complete_def)
  show "a_fail k m A = A"
    using assms A by (cases e) (simp_all add: a_fail_def)
qed

lemma a_claim_won: "fst (a_claim cfg fresh now l m A) = may_claim cfg now (fst (A m))"
  by (simp add: a_claim_def split: prod.splits)

lemma a_claim_lost_same: "\<not> may_claim cfg now (fst (A m)) \<Longrightarrow> a_claim cfg fresh now l m A = (False, A)"
  by (auto simp: a_claim_def split: prod.splits)

lemma a_claim_won_entry:
  "may_claim cfg now (fst (A m)) \<Longrightarrow>
   fst (snd (a_claim cfg fresh now l m A) m) = Processing (next_attempt (fst (A m))) (Some l)"
  by (auto simp: a_claim_def split: prod.splits)

subsection \<open>The contract\<close>

locale dedup_store =
  fixes ops :: "'s store_ops"
    and cfg :: DeduplicationConfig
    and cells :: "int \<Rightarrow> 's \<Rightarrow> astate"
    and fresh :: "int \<Rightarrow> int option"
    and invar :: "'s \<Rightarrow> bool"
    and in_range :: "int \<Rightarrow> 's \<Rightarrow> string \<Rightarrow> bool"
    and storable :: "pyval \<Rightarrow> bool"
    and reportable :: "string \<Rightarrow> int \<Rightarrow> bool"
  assumes cells_age: "invar s \<Longrightarrow> now \<le> t \<Longrightarrow> cells t s = a_age t (cells now s)"
    and claim_law: "invar s \<Longrightarrow> in_range now s m \<Longrightarrow> op_claim ops m now s = (r, s') \<Longrightarrow>
      invar s' \<and> (\<exists>l. lease_at cfg now l \<and>
        (case r of Inr b \<Rightarrow> (b, cells now s') = a_claim cfg fresh now l m (cells now s)
         | Inl e \<Rightarrow> cells now s' = cells now s
               \<or> cells now s' = snd (a_claim cfg fresh now l m (cells now s))))"
    and complete_law: "invar s \<Longrightarrow> in_range now s m \<Longrightarrow> storable v \<Longrightarrow>
      op_mark_completed ops m v now s = (ru, s') \<Longrightarrow>
      invar s' \<and> (\<exists>v'. same_value v v' \<and>
        (case ru of Inr u \<Rightarrow> cells now s' = a_complete v' m (cells now s)
         | Inl e \<Rightarrow> cells now s' = cells now s \<or> cells now s' = a_complete v' m (cells now s)))"
    and fail_law: "invar s \<Longrightarrow> in_range now s m \<Longrightarrow> fst (cells now s m) = Processing n0 l0 \<Longrightarrow>
      reportable err n \<Longrightarrow> op_mark_failed ops m err n now s = (ru, s') \<Longrightarrow>
      invar s' \<and>
        (case ru of Inr u \<Rightarrow> cells now s' = a_fail n m (cells now s)
         | Inl e \<Rightarrow> cells now s' = cells now s \<or> cells now s' = a_fail n m (cells now s))"
    and fail_frame: "invar s \<Longrightarrow> in_range now s m \<Longrightarrow> reportable err n \<Longrightarrow>
      op_mark_failed ops m err n now s = (ru, s') \<Longrightarrow>
      invar s' \<and> (\<forall>k. k \<noteq> m \<longrightarrow> cells now s' k = cells now s k)"
    and status_law: "invar s \<Longrightarrow> op_get_status ops m now s = (rs, s') \<Longrightarrow>
      s' = s \<and> (case rs of Inr p \<Rightarrow> entry_of p = fst (cells now s m) | Inl e \<Rightarrow> True)"
    and duplicate_law: "invar s \<Longrightarrow> op_is_duplicate ops m now s = (r, s') \<Longrightarrow>
      s' = s \<and> (case r of Inr b \<Rightarrow> b = (fst (cells now s m) \<noteq> Absent) | Inl e \<Rightarrow> True)"
    and delete_law: "invar s \<Longrightarrow> op_delete ops m now s = (ru, s') \<Longrightarrow>
      invar s' \<and>
        (case ru of Inr u \<Rightarrow> cells now s' = a_delete m (cells now s)
         | Inl e \<Rightarrow> cells now s' = cells now s \<or> cells now s' = a_delete m (cells now s))"
begin

text \<open>The claim of a message that may be claimed wins, and records a lease.\<close>

lemma claim_wins:
  assumes "invar s" "in_range now s m" "op_claim ops m now s = (Inr b, s')"
    and "may_claim cfg now (fst (cells now s m))"
  shows "b \<and> (\<exists>l. lease_at cfg now l
    \<and> fst (cells now s' m) = Processing (next_attempt (fst (cells now s m))) (Some l))"
proof -
  from claim_law [OF assms(1-3)] obtain l where l: "lease_at cfg now l"
    and eq: "(b, cells now s') = a_claim cfg fresh now l m (cells now s)" by auto
  from eq have "b = fst (a_claim cfg fresh now l m (cells now s))"
    and "cells now s' = snd (a_claim cfg fresh now l m (cells now s))"
    by (metis fst_conv, metis snd_conv)
  with assms(4) l show ?thesis
    by (auto simp: a_claim_won a_claim_won_entry)
qed

text \<open>Any other claim loses and changes nothing.\<close>

lemma claim_loses:
  assumes "invar s" "in_range now s m" "op_claim ops m now s = (Inr b, s')"
    and "\<not> may_claim cfg now (fst (cells now s m))"
  shows "\<not> b \<and> cells now s' = cells now s"
proof -
  from claim_law [OF assms(1-3)] obtain l
    where "(b, cells now s') = a_claim cfg fresh now l m (cells now s)" by auto
  with assms(4) show ?thesis by (simp add: a_claim_lost_same)
qed

text \<open>
  A won claim is exclusive: until its lease has run out or its record has expired, no other
  claim of the message wins.
\<close>

lemma claim_exclusive:
  assumes "invar s" "in_range now s m" "op_claim ops m now s = (Inr True, s1)"
    and "now \<le> t" "t \<le> now + processing_timeout_seconds cfg * 1000000 - 1000"
    and "alive t (snd (cells now s1 m))"
    and "in_range t s1 m" "op_claim ops m t s1 = (Inr b, s2)"
  shows "\<not> b \<and> cells t s2 = cells t s1"
proof -
  from claim_law [OF assms(1-3)] obtain l where i1: "invar s1" and l: "lease_at cfg now l"
    and eq: "(True, cells now s1) = a_claim cfg fresh now l m (cells now s)" by auto
  then have won: "may_claim cfg now (fst (cells now s m))"
    by (metis a_claim_won fst_conv)
  from eq have "cells now s1 = snd (a_claim cfg fresh now l m (cells now s))"
    by (metis snd_conv)
  with won have "fst (cells now s1 m) = Processing (next_attempt (fst (cells now s m))) (Some l)"
    by (simp add: a_claim_won_entry)
  with assms(4,6) have "fst (cells t s1 m) = Processing (next_attempt (fst (cells now s m))) (Some l)"
    by (simp add: cells_age [OF i1 assms(4)] a_age_def)
  moreover from l assms(5) have "\<not> l \<le> t" by (simp add: lease_at_def)
  ultimately have "\<not> may_claim cfg t (fst (cells t s1 m))" by simp
  from claim_loses [OF i1 assms(7,8) this] show ?thesis .
qed

text \<open>A completed message is never claimed again while its record is kept.\<close>

lemma completed_not_claimed:
  assumes "invar s" "fst (cells now s m) = Completed v" "now \<le> t" "alive t (snd (cells now s m))"
    and "in_range t s m" "op_claim ops m t s = (Inr b, s')"
  shows "\<not> b \<and> fst (cells t s' m) = Completed v"
proof -
  from assms(2-4) have c: "fst (cells t s m) = Completed v"
    by (simp add: cells_age [OF assms(1,3)] a_age_def)
  then have "\<not> may_claim cfg t (fst (cells t s m))" by simp
  from claim_loses [OF assms(1,5,6) this] c show ?thesis by simp
qed

end

locale guarded_store = dedup_store +
  assumes fail_guard: "invar s \<Longrightarrow> in_range now s m \<Longrightarrow> reportable err n \<Longrightarrow>
      (\<And>n0 l0. fst (cells now s m) \<noteq> Processing n0 l0) \<Longrightarrow>
      op_mark_failed ops m err n now s = (r, s') \<Longrightarrow> invar s' \<and> cells now s' = cells now s"
begin

lemma fail_run:
  assumes "invar s" "in_range now s m" "reportable err n"
    and "op_mark_failed ops m err n now s = (Inr u, s')"
  shows "invar s' \<and> cells now s' = a_fail n m (cells now s)"
proof (cases "\<exists>n0 l0. fst (cells now s m) = Processing n0 l0")
  case True
  then show ?thesis using fail_law [OF assms(1,2) _ assms(3-4)] by auto
next
  case False
  then have "a_fail n m (cells now s) = cells now s" by (simp add: a_idle)
  with False show ?thesis using fail_guard [OF assms(1-3) _ assms(4)] by auto
qed

end

end
