(* ===== verification/Memory_Store.thy ===== *)
theory Memory_Store
  imports Dedup_Store
begin

section \<open>The in-memory store\<close>

text \<open>
  \<open>src/dedup/memory_store.py\<close>, class \<open>InMemoryDeduplicationStore\<close>. The state is its dictionary
  \<open>_store\<close>; the configuration is an argument, and \<open>_now()\<close> is the instant of the call. The
  bodies under \<open>async with self._lock\<close> contain no \<open>await\<close>, and the unlocked ones are single
  expressions, so on one event loop each method is one atomic step.
  The methods keep the well-formedness of the records (\<open>mem_ok\<close>), and \<open>mem_ops\<close> is an
  instance of the contract \<open>dedup_store\<close>. It is no instance of \<open>guarded_store\<close>: its
  \<open>mark_failed\<close> does not look at the status it overwrites.
\<close>

type_synonym mem_state = "(string, ProcessingStatus) dict"

definition lease_end :: "DeduplicationConfig \<Rightarrow> int \<Rightarrow> int" where
  "lease_end cfg now = now + processing_timeout_seconds cfg * 1000000"

definition mem_claim :: "DeduplicationConfig \<Rightarrow> string \<Rightarrow> int \<Rightarrow> (mem_state, bool) eff" where
  "mem_claim cfg message_id now st =
     (let lease_expires_at = lease_end cfg now in
      case map_of st message_id of
        Some existing \<Rightarrow>
          (let retryable = is_failed existing \<and> retry_failed cfg
                             \<and> ps_attempts existing < max_retries cfg;
               orphaned = ps_status existing = PROCESSING
                            \<and> (case ps_lease_expires_at existing of
                                 None \<Rightarrow> False | Some l \<Rightarrow> l \<le> now)
           in if retryable \<or> orphaned
              then (Inr True, AList.update message_id
                     \<lparr>ps_message_id = message_id, ps_status = PROCESSING,
                      ps_attempts = ps_attempts existing + 1, ps_result = PNone, ps_error = None,
                      ps_lease_expires_at = Some lease_expires_at,
                      ps_created_at = ps_created_at existing, ps_updated_at = now\<rparr> st)
              else (Inr False, st))
      | None \<Rightarrow>
          (Inr True, AList.update message_id
             \<lparr>ps_message_id = message_id, ps_status = PROCESSING, ps_attempts = 1,
              ps_result = PNone, ps_error = None, ps_lease_expires_at = Some lease_expires_at,
              ps_created_at = now, ps_updated_at = now\<rparr> st))"

definition mem_is_duplicate :: "string \<Rightarrow> int \<Rightarrow> (mem_state, bool) eff" where
  "mem_is_duplicate message_id now st = (Inr (map_of st message_id \<noteq> None), st)"

definition mem_mark_completed :: "string \<Rightarrow> pyval \<Rightarrow> int \<Rightarrow> (mem_state, unit) eff" where
  "mem_mark_completed message_id result now st =
     (case map_of st message_id of
        None \<Rightarrow> (Inr (), st)
      | Some record \<Rightarrow>
          if ps_status record \<noteq> PROCESSING then (Inr (), st)
          else (Inr (), AList.update message_id
                  (record\<lparr>ps_status := COMPLETED, ps_result := result,
                     ps_lease_expires_at := None, ps_updated_at := now\<rparr>) st))"

definition mem_mark_failed :: "string \<Rightarrow> string \<Rightarrow> int \<Rightarrow> int \<Rightarrow> (mem_state, unit) eff" where
  "mem_mark_failed message_id error attempts now st =
     (case map_of st message_id of
        None \<Rightarrow> (Inr (), st)
      | Some record \<Rightarrow>
          (Inr (), AList.update message_id
             (record\<lparr>ps_status := FAILED, ps_error := Some error, ps_attempts := attempts,
                ps_lease_expires_at := None, ps_updated_at := now\<rparr>) st))"

definition mem_get_status :: "string \<Rightarrow> int \<Rightarrow> (mem_state, ProcessingStatus option) eff" where
  "mem_get_status message_id now st = (Inr (map_of st message_id), st)"

definition mem_delete :: "string \<Rightarrow> int \<Rightarrow> (mem_state, unit) eff" where
  "mem_delete message_id now st = (Inr (), AList.delete message_id st)"

definition mem_size :: "mem_state \<Rightarrow> nat" where
  "mem_size st = length st"

definition mem_clear :: "mem_state \<Rightarrow> mem_state" where
  "mem_clear st = []"

definition mem_close :: "int \<Rightarrow> (mem_state, unit) eff" where
  "mem_close now st = (Inr (), st)"

definition mem_init :: mem_state where
  "mem_init = []"

definition mem_ops :: "DeduplicationConfig \<Rightarrow> mem_state store_ops" where
  "mem_ops cfg = \<lparr>op_claim = mem_claim cfg, op_is_duplicate = mem_is_duplicate,
     op_mark_completed = mem_mark_completed, op_mark_failed = mem_mark_failed,
     op_get_status = mem_get_status, op_delete = mem_delete, op_close = mem_close,
     op_connect = None\<rparr>"

lemmas mem_defs = mem_claim_def mem_is_duplicate_def mem_mark_completed_def mem_mark_failed_def
  mem_get_status_def mem_delete_def mem_close_def

lemma mem_ops_simps [simp]:
  "op_claim (mem_ops cfg) = mem_claim cfg"
  "op_is_duplicate (mem_ops cfg) = mem_is_duplicate"
  "op_mark_completed (mem_ops cfg) = mem_mark_completed"
  "op_mark_failed (mem_ops cfg) = mem_mark_failed"
  "op_get_status (mem_ops cfg) = mem_get_status"
  "op_delete (mem_ops cfg) = mem_delete"
  "op_close (mem_ops cfg) = mem_close"
  "op_connect (mem_ops cfg) = None"
  by (simp_all add: mem_ops_def)

subsection \<open>Well-formed records\<close>

text \<open>
  A record is filed under its own message id; it has a lease exactly while it is being
  processed, and a record being processed carries no result and no error of an earlier run.
\<close>

definition rec_ok :: "string \<Rightarrow> ProcessingStatus \<Rightarrow> bool" where
  "rec_ok m p \<longleftrightarrow> ps_message_id p = m
     \<and> (ps_status p = PROCESSING \<longleftrightarrow> ps_lease_expires_at p \<noteq> None)
     \<and> (ps_status p = PROCESSING \<longrightarrow> ps_result p = PNone \<and> ps_error p = None)
     \<and> (ps_status p = FAILED \<longrightarrow> ps_error p \<noteq> None)"

definition mem_ok :: "mem_state \<Rightarrow> bool" where
  "mem_ok st \<longleftrightarrow> dict_ok st \<and> (\<forall>m p. map_of st m = Some p \<longrightarrow> rec_ok m p)"

lemma mem_ok_init [simp]: "mem_ok mem_init"
  by (simp add: mem_ok_def mem_init_def)

lemma mem_okD: "mem_ok st \<Longrightarrow> map_of st m = Some p \<Longrightarrow> rec_ok m p"
  by (simp add: mem_ok_def)

lemma mem_ok_update [intro]: "mem_ok st \<Longrightarrow> rec_ok m p \<Longrightarrow> mem_ok (AList.update m p st)"
  by (auto simp: mem_ok_def dict_simps)

lemma mem_ok_delete [intro]: "mem_ok st \<Longrightarrow> mem_ok (AList.delete m st)"
  by (auto simp: mem_ok_def dict_simps split: if_splits)

lemma mem_ok_claim: "mem_ok st \<Longrightarrow> mem_ok (snd (mem_claim cfg m now st))"
  by (auto simp: mem_claim_def Let_def rec_ok_def split: option.splits intro!: mem_ok_update)

lemma mem_ok_mark_completed: "mem_ok st \<Longrightarrow> mem_ok (snd (mem_mark_completed m v now st))"
  by (auto simp: mem_mark_completed_def rec_ok_def split: option.splits
      intro!: mem_ok_update dest: mem_okD)

lemma mem_ok_mark_failed: "mem_ok st \<Longrightarrow> mem_ok (snd (mem_mark_failed m e n now st))"
  by (auto simp: mem_mark_failed_def rec_ok_def split: option.splits
      intro!: mem_ok_update dest: mem_okD)

lemma mem_ok_mem_delete: "mem_ok st \<Longrightarrow> mem_ok (snd (mem_delete m now st))"
  by (auto simp: mem_delete_def)

lemmas mem_ok_ops = mem_ok_claim mem_ok_mark_completed mem_ok_mark_failed mem_ok_mem_delete

subsection \<open>The methods act as the abstract machine\<close>

definition mem_cells :: "int \<Rightarrow> mem_state \<Rightarrow> astate" where
  "mem_cells now st = (\<lambda>k. (entry_of (map_of st k), None))"

lemma lease_at_end [simp]: "lease_at cfg now (lease_end cfg now)"
  by (simp add: lease_at_def lease_end_def)

lemma mem_cells_at: "mem_cells now st k = (entry_of (map_of st k), None)"
  by (simp add: mem_cells_def)

lemma mem_cells_update:
  "mem_cells now (AList.update m p st) = (mem_cells now st)(m := (entry_of (Some p), None))"
  by (simp add: mem_cells_def dict_simps fun_eq_iff)

lemma mem_cells_delete: "mem_cells now (AList.delete m st) = (mem_cells now st)(m := (Absent, None))"
  by (simp add: mem_cells_def dict_simps fun_eq_iff entry_of_def)

text \<open>The record a won claim writes, from the record that was there.\<close>

definition claimed_rec ::
    "DeduplicationConfig \<Rightarrow> string \<Rightarrow> int \<Rightarrow> ProcessingStatus option \<Rightarrow> ProcessingStatus" where
  "claimed_rec cfg m now old =
     \<lparr>ps_message_id = m, ps_status = PROCESSING,
      ps_attempts = (case old of None \<Rightarrow> 1 | Some p \<Rightarrow> ps_attempts p + 1),
      ps_result = PNone, ps_error = None, ps_lease_expires_at = Some (lease_end cfg now),
      ps_created_at = (case old of None \<Rightarrow> now | Some p \<Rightarrow> ps_created_at p),
      ps_updated_at = now\<rparr>"

lemma may_claim_entry_of:
  "may_claim cfg now (entry_of (Some p)) \<longleftrightarrow>
     is_failed p \<and> retry_failed cfg \<and> ps_attempts p < max_retries cfg
     \<or> ps_status p = PROCESSING
        \<and> (case ps_lease_expires_at p of None \<Rightarrow> False | Some l \<Rightarrow> l \<le> now)"
  by (cases "ps_status p"; cases "ps_lease_expires_at p") (simp_all add: entry_of_def is_failed_def)

lemma mem_claim_eq:
  "mem_claim cfg m now st =
     (if may_claim cfg now (entry_of (map_of st m))
      then (Inr True, AList.update m (claimed_rec cfg m now (map_of st m)) st)
      else (Inr False, st))"
proof (cases "map_of st m")
  case None
  then show ?thesis by (simp add: mem_claim_def claimed_rec_def entry_of_def)
next
  case (Some p)
  then show ?thesis
    by (simp only: mem_claim_def Let_def option.case may_claim_entry_of claimed_rec_def)
qed

lemma next_attempt_claimed:
  "may_claim cfg now (entry_of old) \<Longrightarrow>
   entry_of (Some (claimed_rec cfg m now old)) =
     Processing (next_attempt (entry_of old)) (Some (lease_end cfg now))"
  by (auto simp: entry_of_def claimed_rec_def split: option.splits StatusValue.splits)

lemma mem_claim_refines:
  "mem_claim cfg m now st = (Inr b, st') \<Longrightarrow>
   (b, mem_cells now st') = a_claim cfg (\<lambda>_. None) now (lease_end cfg now) m (mem_cells now st)"
  by (auto simp: mem_claim_eq a_claim_def mem_cells_update next_attempt_claimed mem_cells_at
      split: if_splits)

lemma mem_mark_completed_refines:
  "mem_cells now (snd (mem_mark_completed m v now st)) = a_complete v m (mem_cells now st)"
  by (auto simp: mem_mark_completed_def a_complete_def mem_cells_update mem_cells_at
      entry_of_def split: option.splits StatusValue.splits)

lemma mem_mark_failed_refines:
  "fst (mem_cells now st m) = Processing n0 l0 \<Longrightarrow>
   mem_cells now (snd (mem_mark_failed m e n now st)) = a_fail n m (mem_cells now st)"
  by (auto simp: mem_mark_failed_def a_fail_def mem_cells_update mem_cells_at
      entry_of_def split: option.splits StatusValue.splits)

lemma mem_delete_refines:
  "mem_cells now (snd (mem_delete m now st)) = a_delete m (mem_cells now st)"
  by (simp add: mem_delete_def a_delete_def mem_cells_delete)

lemma mem_never_raises:
  "fst (mem_claim cfg m now st) \<noteq> Inl e"
  "fst (mem_mark_completed m v now st) \<noteq> Inl e"
  "fst (mem_mark_failed m err n now st) \<noteq> Inl e"
  by (auto simp: mem_defs Let_def split: option.splits)

text \<open>The claim, as the contract states it.\<close>

lemma mem_claim_law:
  assumes "mem_ok s" "mem_claim cfg m now s = (r, s')"
  shows "mem_ok s' \<and> (\<exists>l. lease_at cfg now l \<and>
    (case r of Inr b \<Rightarrow> (b, mem_cells now s') = a_claim cfg (\<lambda>_. None) now l m (mem_cells now s)
     | Inl e \<Rightarrow> mem_cells now s' = mem_cells now s
        \<or> mem_cells now s' = snd (a_claim cfg (\<lambda>_. None) now l m (mem_cells now s))))"
proof -
  from assms(2) obtain b where b: "r = Inr b"
    by (cases r) (metis mem_never_raises(1) fst_conv, blast)
  with assms(2) have "(b, mem_cells now s') = a_claim cfg (\<lambda>_. None) now (lease_end cfg now) m (mem_cells now s)"
    by (simp add: mem_claim_refines)
  moreover from assms have "mem_ok s'" by (metis mem_ok_claim snd_conv)
  ultimately show ?thesis using b by (auto intro!: exI [of _ "lease_end cfg now"])
qed

interpretation mem: dedup_store "mem_ops cfg" cfg mem_cells "\<lambda>_. None" mem_ok "\<lambda>_ _ _. True"
  "\<lambda>_. True" "\<lambda>_ _. True" for cfg
proof unfold_locales
  fix s :: mem_state and now t :: int
  show "mem_cells t s = a_age t (mem_cells now s)"
    by (simp add: a_age_def mem_cells_def)
next
  fix s s' m now r
  assume "mem_ok s" "op_claim (mem_ops cfg) m now s = (r, s')"
  then show "mem_ok s' \<and> (\<exists>l. lease_at cfg now l \<and>
      (case r of Inr b \<Rightarrow> (b, mem_cells now s') = a_claim cfg (\<lambda>_. None) now l m (mem_cells now s)
       | Inl e \<Rightarrow> mem_cells now s' = mem_cells now s
          \<or> mem_cells now s' = snd (a_claim cfg (\<lambda>_. None) now l m (mem_cells now s))))"
    unfolding mem_ops_simps by (rule mem_claim_law)
next
  fix s s' m now v ru
  assume "mem_ok s" "op_mark_completed (mem_ops cfg) m v now s = (ru, s')"
  then show "mem_ok s' \<and> (\<exists>v'. same_value v v' \<and>
      (case ru of Inr u \<Rightarrow> mem_cells now s' = a_complete v' m (mem_cells now s)
       | Inl e \<Rightarrow> mem_cells now s' = mem_cells now s
           \<or> mem_cells now s' = a_complete v' m (mem_cells now s)))"
    using mem_ok_mark_completed [of s m v now] mem_mark_completed_refines [of now m v s]
    by (auto split: sum.splits intro!: exI [of _ v])
next
  fix s s' m now n0 l0 n err ru
  assume "mem_ok s" "fst (mem_cells now s m) = Processing n0 l0"
    "op_mark_failed (mem_ops cfg) m err n now s = (ru, s')"
  then show "mem_ok s' \<and> (case ru of Inr u \<Rightarrow> mem_cells now s' = a_fail n m (mem_cells now s)
       | Inl e \<Rightarrow> mem_cells now s' = mem_cells now s
           \<or> mem_cells now s' = a_fail n m (mem_cells now s))"
    using mem_ok_mark_failed [of s m err n now] mem_mark_failed_refines [of now s m n0 l0 err n]
    by (auto split: sum.splits)
next
  fix s s' m now n err ru
  assume "mem_ok s" "op_mark_failed (mem_ops cfg) m err n now s = (ru, s')"
  then show "mem_ok s' \<and> (\<forall>k. k \<noteq> m \<longrightarrow> mem_cells now s' k = mem_cells now s k)"
    using mem_ok_mark_failed [of s m err n now]
    by (auto simp: mem_mark_failed_def mem_cells_def dict_simps split: option.splits)
next
  fix s s' m now ru
  assume "mem_ok s" "op_delete (mem_ops cfg) m now s = (ru, s')"
  then show "mem_ok s' \<and> (case ru of Inr u \<Rightarrow> mem_cells now s' = a_delete m (mem_cells now s)
       | Inl e \<Rightarrow> mem_cells now s' = mem_cells now s
           \<or> mem_cells now s' = a_delete m (mem_cells now s))"
    using mem_ok_mem_delete [of s m now] mem_delete_refines [of now m s]
    by (auto split: sum.splits)
qed (auto simp: mem_get_status_def mem_is_duplicate_def mem_cells_def entry_of_def
      split: option.splits StatusValue.splits)

end
