(* ===== verification/Protocol.thy ===== *)
theory Protocol
  imports Memory_Store
begin

section \<open>Histories of a shared store\<close>

text \<open>
  Any number of consumers, guards and administrators act on one store. Each method call is one
  atomic step at a later or equal instant; \<open>history\<close> is the step relation closed over sequences, with
  the calls and their answers as labels. The results are proved from the contract
  \<open>dedup_store\<close>: between two won claims of a message something must have ended the first.
\<close>

datatype call =
    CClaim string int "bool res"
  | CCompleted string pyval int "unit res"
  | CFailed string string int int "unit res"
  | CDelete string int "unit res"
  | CStatus string int "ProcessingStatus option res"
  | CDuplicate string int "bool res"

text \<open>What a backend may require of a call (\<open>in_range\<close>, \<open>storable\<close>, \<open>reportable\<close>).\<close>

fun call_ok ::
    "(int \<Rightarrow> 's \<Rightarrow> string \<Rightarrow> bool) \<Rightarrow> (pyval \<Rightarrow> bool) \<Rightarrow> (string \<Rightarrow> int \<Rightarrow> bool) \<Rightarrow> 's \<Rightarrow> call \<Rightarrow> bool" where
  "call_ok R S P s (CClaim m t r) = R t s m"
| "call_ok R S P s (CCompleted m v t u) = (R t s m \<and> S v)"
| "call_ok R S P s (CFailed m err n t u) = (R t s m \<and> P err n)"
| "call_ok R S P s _ = True"

inductive step ::
    "'s store_ops \<Rightarrow> ('s \<Rightarrow> call \<Rightarrow> bool) \<Rightarrow> int \<times> 's \<Rightarrow> call \<Rightarrow> int \<times> 's \<Rightarrow> bool" for ops ok where
  claim: "t \<le> t' \<Longrightarrow> op_claim ops m t' s = (r, s') \<Longrightarrow> ok s (CClaim m t' r) \<Longrightarrow>
    step ops ok (t, s) (CClaim m t' r) (t', s')"
| completed: "t \<le> t' \<Longrightarrow> op_mark_completed ops m v t' s = (u, s') \<Longrightarrow> ok s (CCompleted m v t' u) \<Longrightarrow>
    step ops ok (t, s) (CCompleted m v t' u) (t', s')"
| failed: "t \<le> t' \<Longrightarrow> op_mark_failed ops m err n t' s = (u, s') \<Longrightarrow> ok s (CFailed m err n t' u) \<Longrightarrow>
    step ops ok (t, s) (CFailed m err n t' u) (t', s')"
| deleted: "t \<le> t' \<Longrightarrow> op_delete ops m t' s = (u, s') \<Longrightarrow> ok s (CDelete m t' u) \<Longrightarrow>
    step ops ok (t, s) (CDelete m t' u) (t', s')"
| status: "t \<le> t' \<Longrightarrow> op_get_status ops m t' s = (p, s') \<Longrightarrow> ok s (CStatus m t' p) \<Longrightarrow>
    step ops ok (t, s) (CStatus m t' p) (t', s')"
| duplicate: "t \<le> t' \<Longrightarrow> op_is_duplicate ops m t' s = (r, s') \<Longrightarrow> ok s (CDuplicate m t' r) \<Longrightarrow>
    step ops ok (t, s) (CDuplicate m t' r) (t', s')"

inductive history ::
    "'s store_ops \<Rightarrow> ('s \<Rightarrow> call \<Rightarrow> bool) \<Rightarrow> int \<times> 's \<Rightarrow> call list \<Rightarrow> int \<times> 's \<Rightarrow> bool" for ops ok where
  none: "history ops ok c [] c"
| more: "history ops ok c as c' \<Longrightarrow> step ops ok c' a c'' \<Longrightarrow> history ops ok c (as @ [a]) c''"

inductive_cases step_claimE: "step ops ok (t, s) (CClaim m t1 r) (t', s')"
inductive_cases stepE: "step ops ok (t, s) a (t', s')"

lemma step_time: "step ops ok c a c' \<Longrightarrow> fst c \<le> fst c'"
  by (induction rule: step.induct) simp_all

lemma history_time: "history ops ok c as c' \<Longrightarrow> fst c \<le> fst c'"
  by (induction rule: history.induct) (auto dest: step_time)

text \<open>The calls about a message, those that may end a claim of it, and the claims of it that won.\<close>

fun about :: "string \<Rightarrow> call \<Rightarrow> bool" where
  "about m (CClaim k t r) = (k = m)"
| "about m (CCompleted k v t u) = (k = m)"
| "about m (CFailed k err n t u) = (k = m)"
| "about m (CDelete k t u) = (k = m)"
| "about m (CStatus k t p) = (k = m)"
| "about m (CDuplicate k t r) = (k = m)"

fun releases :: "string \<Rightarrow> call \<Rightarrow> bool" where
  "releases m (CFailed k err n t u) = (k = m)"
| "releases m (CDelete k t u) = (k = m)"
| "releases m _ = False"

fun wins :: "string \<Rightarrow> call \<Rightarrow> bool" where
  "wins m (CClaim k t r) = (k = m \<and> r = Inr True)"
| "wins m _ = False"

definition won :: "string \<Rightarrow> call list \<Rightarrow> nat" where
  "won m as = length (filter (wins m) as)"

lemma wins_about: "wins m a \<Longrightarrow> about m a"
  by (cases a) auto

subsection \<open>Consequences of the contract\<close>

context dedup_store
begin

text \<open>\<open>taken m t1 u (t, s)\<close>: at \<open>t\<close> the claim of \<open>m\<close> made at \<open>t1\<close> still stands, in a record kept until \<open>u\<close>.\<close>

definition taken :: "string \<Rightarrow> int \<Rightarrow> int option \<Rightarrow> int \<times> 's \<Rightarrow> bool" where
  "taken m t1 u c \<longleftrightarrow> invar (snd c) \<and> snd (cells (fst c) (snd c) m) = u \<and>
     (\<exists>v. fst (cells (fst c) (snd c) m) = Completed v) \<or>
     invar (snd c) \<and> snd (cells (fst c) (snd c) m) = u \<and>
     (\<exists>n l. fst (cells (fst c) (snd c) m) = Processing n (Some l)
       \<and> t1 + processing_timeout_seconds cfg * 1000000 - 1000 < l)"

abbreviation ok_call :: "'s \<Rightarrow> call \<Rightarrow> bool" where
  "ok_call \<equiv> call_ok in_range storable reportable"

lemma aged_alive:
  assumes "invar s" "t \<le> t'" "alive t' (snd (cells t s m))"
  shows "cells t' s m = cells t s m"
  using assms by (simp add: cells_age [OF assms(1,2)] a_age_def)

text \<open>What a call does to the other messages, and what a lookup does.\<close>

lemma claim_frame:
  assumes "invar s" "in_range now s m" "op_claim ops m now s = (r, s')"
  shows "invar s' \<and> (\<forall>k. k \<noteq> m \<longrightarrow> cells now s' k = cells now s k)"
proof -
  from claim_law [OF assms] obtain l where "invar s'" and r: "case r of
      Inr b \<Rightarrow> (b, cells now s') = a_claim cfg fresh now l m (cells now s)
    | Inl e \<Rightarrow> cells now s' = cells now s \<or> cells now s' = snd (a_claim cfg fresh now l m (cells now s))"
    by blast
  have "cells now s' = cells now s \<or> cells now s' = snd (a_claim cfg fresh now l m (cells now s))"
  proof (cases r)
    case (Inr b)
    with r have "(b, cells now s') = a_claim cfg fresh now l m (cells now s)" by simp
    from arg_cong [OF this, of snd] show ?thesis by simp
  qed (use r in simp)
  with \<open>invar s'\<close> show ?thesis by auto
qed

lemma complete_frame:
  assumes "invar s" "in_range now s m" "storable v" "op_mark_completed ops m v now s = (u, s')"
  shows "invar s' \<and> (\<forall>k. k \<noteq> m \<longrightarrow> cells now s' k = cells now s k)"
  using complete_law [OF assms] by (cases u) auto

lemma delete_frame:
  assumes "invar s" "op_delete ops m now s = (u, s')"
  shows "invar s' \<and> (\<forall>k. k \<noteq> m \<longrightarrow> cells now s' k = cells now s k)"
  using delete_law [OF assms] by (cases u) auto

lemmas frames = claim_frame complete_frame delete_frame fail_frame

lemma step_invar: "step ops ok_call c a c' \<Longrightarrow> invar (snd c) \<Longrightarrow> invar (snd c')"
  by (induction rule: step.induct) (auto dest: frames status_law duplicate_law)

lemma step_other:
  "step ops ok_call c a c' \<Longrightarrow> invar (snd c) \<Longrightarrow> \<not> about m a \<Longrightarrow>
     cells (fst c') (snd c') m = cells (fst c') (snd c) m"
  by (induction rule: step.induct) (auto dest: frames status_law duplicate_law)

lemma history_invar: "history ops ok_call c as c' \<Longrightarrow> invar (snd c) \<Longrightarrow> invar (snd c')"
  by (induction rule: history.induct) (auto dest: step_invar)

text \<open>A claim that loses or completes.\<close>

lemma taken_not_claimable:
  assumes "taken m t1 u (t, s)" "t \<le> t1 + processing_timeout_seconds cfg * 1000000 - 1000"
  shows "invar s" "\<not> may_claim cfg t (fst (cells t s m))"
  using assms by (auto simp: taken_def)

lemma taken_aged:
  assumes "taken m t1 u (t, s)" "t \<le> t'" "alive t' u"
  shows "taken m t1 u (t', s)"
  using assms aged_alive [of s t t' m] by (auto simp: taken_def)

lemma taken_step:
  assumes taken: "taken m t1 u c" and step: "step ops ok_call c a c'"
    and "\<not> releases m a" "alive (fst c') u"
    and "fst c' \<le> t1 + processing_timeout_seconds cfg * 1000000 - 1000"
  shows "taken m t1 u c' \<and> \<not> wins m a"
proof -
  obtain t s t' s' where c: "c = (t, s)" "c' = (t', s')" by (cases c; cases c')
  have inv: "invar s" "invar s'" using taken step step_invar [OF step] by (auto simp: taken_def c)
  have aged: "taken m t1 u (t', s)"
    using taken_aged [of m t1 u t s t'] taken assms(4) step_time [OF step] by (simp add: c)
  have keep: "taken m t1 u (t', s')" if "cells t' s' m = cells t' s m"
    using aged inv(2) unfolding taken_def fst_conv snd_conv that by blast
  have lost: "\<not> may_claim cfg t' (fst (cells t' s m))"
    using taken_not_claimable(2) [OF aged] assms(5) by (simp add: c)
  show ?thesis
  proof (cases "about m a")
    case False
    then show ?thesis using keep step_other [OF step _ False] inv by (cases a) (auto simp: c)
  next
    case True
    consider (claim) r where "a = CClaim m t' r" "op_claim ops m t' s = (r, s')" "in_range t' s m"
      | (completed) v x where "a = CCompleted m v t' x" "op_mark_completed ops m v t' s = (x, s')"
          "in_range t' s m" "storable v"
      | (read) "s' = s" "\<not> wins m a"
      using step True assms(3) inv(1) unfolding c
      by (cases rule: step.cases) (auto dest: status_law duplicate_law)
    then show ?thesis
    proof cases
      case claim
      then show ?thesis
      proof (cases r)
        case (Inl e)
        with claim_law [OF inv(1) claim(3,2)] lost keep claim(1) show ?thesis
          by (auto simp: a_claim_lost_same c)
      next
        case (Inr b)
        with claim_loses [OF inv(1) claim(3) _ lost, of b s'] claim keep show ?thesis by (simp add: c)
      qed
    next
      case completed
      from complete_law [OF inv(1) completed(3,4,2)] obtain v' where
        "cells t' s' = cells t' s \<or> cells t' s' = a_complete v' m (cells t' s)"
        by (cases x) auto
      then show ?thesis
      proof
        assume "cells t' s' = a_complete v' m (cells t' s)"
        with aged inv(2) completed(1) show ?thesis by (auto simp: taken_def a_complete_simps c)
      qed (use keep completed(1) in \<open>simp add: c\<close>)
    next
      case read
      with keep show ?thesis by (simp add: c)
    qed
  qed
qed

text \<open>A won claim takes the message.\<close>

lemma claim_takes:
  assumes "step ops ok_call (t, s) (CClaim m t1 (Inr True)) (t', s')" "invar s"
  shows "taken m t1 (snd (cells t1 s' m)) (t', s')"
proof -
  from assms(1) have step: "op_claim ops m t1 s = (Inr True, s')" "t' = t1" "in_range t1 s m"
    by (auto elim: step_claimE)
  from claim_law [OF assms(2) step(3,1)] obtain l where l: "invar s'" "lease_at cfg t1 l"
    "(True, cells t1 s') = a_claim cfg fresh t1 l m (cells t1 s)" by auto
  then have "may_claim cfg t1 (fst (cells t1 s m))" by (metis a_claim_won fst_conv)
  moreover have "cells t1 s' = snd (a_claim cfg fresh t1 l m (cells t1 s))"
    using arg_cong [OF l(3), of snd] by simp
  ultimately have "fst (cells t1 s' m) = Processing (next_attempt (fst (cells t1 s m))) (Some l)"
    by (simp add: a_claim_won_entry)
  with l step(2) show ?thesis by (auto simp: taken_def lease_at_def)
qed

text \<open>Until its lease runs out, a claim stands through any history that does not release it.\<close>

lemma taken_history:
  "history ops ok_call c as c' \<Longrightarrow> taken m t1 u c \<Longrightarrow> \<forall>a \<in> set as. \<not> releases m a \<Longrightarrow> alive (fst c') u \<Longrightarrow>
     fst c' \<le> t1 + processing_timeout_seconds cfg * 1000000 - 1000 \<Longrightarrow>
     taken m t1 u c' \<and> (\<forall>a \<in> set as. \<not> wins m a)"
proof (induction rule: history.induct)
  case (more c as c' a c'')
  have le: "fst c' \<le> fst c''" using more.hyps(2) by (rule step_time)
  with more.prems(3,4) have "alive (fst c') u" "fst c' \<le> t1 + processing_timeout_seconds cfg * 1000000 - 1000"
    using alive_mono by auto
  with more.IH more.prems have "taken m t1 u c'" "\<forall>a \<in> set as. \<not> wins m a" by auto
  with taken_step [OF this(1) more.hyps(2)] more.prems show ?case by auto
qed simp

lemma no_second_claim:
  assumes "step ops ok_call (t, s) (CClaim m t1 (Inr True)) c1" "invar s"
    and "history ops ok_call c1 as c2" "\<forall>a \<in> set as. \<not> releases m a"
    and "fst c2 \<le> t1 + processing_timeout_seconds cfg * 1000000 - 1000"
    and "alive (fst c2) (snd (cells t1 (snd c1) m))"
  shows "\<forall>a \<in> set as. \<not> wins m a"
proof -
  obtain t' s' where c1: "c1 = (t', s')" by (cases c1)
  from taken_history [OF assms(3) claim_takes [OF assms(1) [unfolded c1] assms(2), folded c1]] assms(4-6)
  show ?thesis by (simp add: c1)
qed

text \<open>
  The first of several competing claims of a new message wins, and it is the only one.
\<close>

lemma absent_aged:
  assumes "invar s" "t \<le> t'" "fst (cells t s m) = Absent"
  shows "fst (cells t' s m) = Absent"
  using assms(3) by (simp add: cells_age [OF assms(1,2)] a_age_def)

lemma first_claim:
  assumes "step ops ok_call (t, s) (CClaim m t1 (Inr b)) (t', s')" "invar s"
    and "fst (cells t s m) = Absent"
  shows "b \<and> t' = t1 \<and> taken m t1 (fresh t1) (t', s')"
proof -
  from assms(1) have step: "op_claim ops m t1 s = (Inr b, s')" "t' = t1" "in_range t1 s m" "t \<le> t1"
    by (auto elim: step_claimE)
  have absent: "fst (cells t1 s m) = Absent" by (rule absent_aged [OF assms(2) step(4) assms(3)])
  then have may: "may_claim cfg t1 (fst (cells t1 s m))" by simp
  from claim_law [OF assms(2) step(3,1)] obtain l where
    "(b, cells t1 s') = a_claim cfg fresh t1 l m (cells t1 s)" by auto
  then have "b" "cells t1 s' m = (Processing 1 (Some l), fresh t1)"
    using absent by (cases "cells t1 s m"; simp add: a_claim_def)+
  with claim_takes [of t s m t1 t' s'] assms(1,2) step(2) show ?thesis by simp
qed

lemma one_winner_step:
  assumes "history ops ok_call c0 as c" "invar (snd c0)" "fst (cells (fst c0) (snd c0) m) = Absent"
    and "\<forall>a \<in> set as. about m a \<longrightarrow> (\<exists>t b. a = CClaim m t (Inr b))"
    and "fst c \<le> fst c0 + processing_timeout_seconds cfg * 1000000 - 1000"
    and "\<forall>t1. fst c0 \<le> t1 \<longrightarrow> alive (fst c) (fresh t1)"
  shows "(\<forall>a \<in> set as. \<not> about m a) \<and> fst (cells (fst c) (snd c) m) = Absent \<or>
     won m as = 1 \<and> (\<exists>a \<in> set as. about m a) \<and> (\<exists>t1 \<ge> fst c0. taken m t1 (fresh t1) c)"
  using assms
proof (induction rule: history.induct)
  case (more c0 as c' a c)
  obtain t s t' s' where c: "c' = (t, s)" "c = (t', s')" by (cases c'; cases c)
  have le: "fst c0 \<le> t" "t \<le> t'" and inv: "invar s"
    using step_time [OF more.hyps(2)] history_time [OF more.hyps(1)]
      history_invar [OF more.hyps(1)] more.prems(1) by (simp_all add: c)
  from more.IH more.prems le alive_mono consider
      (free) "\<forall>a \<in> set as. \<not> about m a" "fst (cells t s m) = Absent"
    | (held) t1 where "won m as = 1" "\<exists>a \<in> set as. about m a" "fst c0 \<le> t1" "taken m t1 (fresh t1) c'"
    by (fastforce simp: c)
  then show ?case
  proof cases
    case free
    show ?thesis
    proof (cases "about m a")
      case True
      with more.prems(3) obtain t1 b where a: "a = CClaim m t1 (Inr b)" by auto
      from more.hyps(2) have "step ops ok_call (t, s) (CClaim m t1 (Inr b)) (t', s')" by (simp add: a c)
      from first_claim [OF this inv free(2)] have "b" "t1 = t'" "taken m t1 (fresh t1) c"
        unfolding c by blast+
      moreover have "won m as = 0"
        using free(1) by (auto simp: won_def filter_empty_conv dest: wins_about)
      moreover have "fst c0 \<le> t1" using le \<open>t1 = t'\<close> by simp
      ultimately show ?thesis using a by (auto simp: won_def)
    next
      case False
      then have "fst (cells t' s' m) = Absent"
        using step_other [OF more.hyps(2) _ False] inv absent_aged [OF inv le(2) free(2)] by (simp add: c)
      with free(1) False show ?thesis by (simp add: c)
    qed
  next
    case held
    have "\<not> releases m a" using more.prems(3) by (cases a) auto
    from taken_step [OF held(4) more.hyps(2) this] more.prems(4,5) held(3)
    have "taken m t1 (fresh t1) c \<and> \<not> wins m a" by simp
    with held show ?thesis by (auto simp: won_def)
  qed
qed simp

lemma one_winner:
  assumes "history ops ok_call c0 as c" "invar (snd c0)" "fst (cells (fst c0) (snd c0) m) = Absent"
    and "\<forall>a \<in> set as. about m a \<longrightarrow> (\<exists>t b. a = CClaim m t (Inr b))"
    and "fst c \<le> fst c0 + processing_timeout_seconds cfg * 1000000 - 1000"
    and "\<forall>t1. fst c0 \<le> t1 \<longrightarrow> alive (fst c) (fresh t1)"
  shows "won m as = (if \<exists>a \<in> set as. about m a then 1 else 0)"
  using one_winner_step [OF assms]
proof
  assume free: "(\<forall>a \<in> set as. \<not> about m a) \<and> fst (cells (fst c) (snd c) m) = Absent"
  then have "won m as = 0" by (auto simp: won_def filter_empty_conv dest: wins_about)
  with free show ?thesis by simp
qed simp

end

subsection \<open>Completed messages\<close>

fun deletes :: "string \<Rightarrow> call \<Rightarrow> bool" where
  "deletes m (CDelete k t u) = (k = m)"
| "deletes m _ = False"

context guarded_store
begin

lemma completed_step:
  assumes step: "step ops ok_call c a c'" and inv: "invar (snd c)"
    and compl: "cells (fst c) (snd c) m = (Completed v, u)" and "\<not> deletes m a" and live: "alive (fst c') u"
  shows "cells (fst c') (snd c') m = (Completed v, u) \<and> \<not> wins m a"
proof -
  obtain t s t' s' where c: "c = (t, s)" "c' = (t', s')" by (cases c; cases c')
  have here: "cells t' s m = (Completed v, u)"
    using aged_alive [of s t t' m] inv compl live step_time [OF step] by (simp add: c)
  then have idle: "\<nexists>n l. fst (cells t' s m) = Processing n l" and lost: "\<not> may_claim cfg t' (fst (cells t' s m))"
    by simp_all
  have inv: "invar s" using inv by (simp add: c)
  show ?thesis
  proof (cases "about m a")
    case False
    then show ?thesis using step_other [OF step _ False] here inv by (cases a) (auto simp: c)
  next
    case True
    consider (claim) r where "a = CClaim m t' r" "op_claim ops m t' s = (r, s')" "in_range t' s m"
      | (completed) w x where "a = CCompleted m w t' x" "op_mark_completed ops m w t' s = (x, s')"
          "in_range t' s m" "storable w"
      | (failed) err n x where "a = CFailed m err n t' x" "op_mark_failed ops m err n t' s = (x, s')"
          "in_range t' s m" "reportable err n"
      | (read) "s' = s" "\<not> wins m a"
      using step True assms(4) inv unfolding c
      by (cases rule: step.cases) (auto dest: status_law duplicate_law)
    then show ?thesis
    proof cases
      case claim
      from claim_law [OF inv claim(3,2)] lost here claim(1) show ?thesis
        by (cases r) (auto simp: a_claim_lost_same c)
    next
      case completed
      from complete_law [OF inv completed(3,4,2)] here completed(1) show ?thesis
        by (cases x) (auto simp: a_complete_simps c)
    next
      case failed
      from fail_guard [OF inv failed(3,4) _ failed(2)] idle here failed(1) show ?thesis
        by (simp add: c)
    next
      case read
      with here show ?thesis by (simp add: c)
    qed
  qed
qed

text \<open>A completed message stays completed, with its result, while its record is kept and nobody deletes it.\<close>

lemma completed_stays:
  "history ops ok_call c as c' \<Longrightarrow> invar (snd c) \<Longrightarrow> cells (fst c) (snd c) m = (Completed v, u) \<Longrightarrow>
     \<forall>a \<in> set as. \<not> deletes m a \<Longrightarrow> alive (fst c') u \<Longrightarrow>
     cells (fst c') (snd c') m = (Completed v, u) \<and> (\<forall>a \<in> set as. \<not> wins m a)"
proof (induction rule: history.induct)
  case (more c as c' a c'')
  have "fst c' \<le> fst c''" using more.hyps(2) by (rule step_time)
  with more.prems(4) have "alive (fst c') u" using alive_mono by blast
  with more.IH more.prems have "cells (fst c') (snd c') m = (Completed v, u)" "\<forall>a \<in> set as. \<not> wins m a" by auto
  moreover have "invar (snd c')" using history_invar [OF more.hyps(1)] more.prems(1) .
  ultimately show ?case using completed_step [OF more.hyps(2)] more.prems by auto
qed simp

end

end
