(* ===== verification/Memory_Props.thy ===== *)
theory Memory_Props
  imports Protocol
begin

section \<open>What the in-memory store guarantees\<close>

text \<open>
  The properties of \<open>src/dedup/memory_store.py\<close>: each method refines the abstract machine, the records stay well
  formed, and the results of \<open>Protocol\<close> hold for every history of calls on one instance.
\<close>

abbreviation any_call :: "mem_state \<Rightarrow> call \<Rightarrow> bool" where
  "any_call \<equiv> \<lambda>_ _. True"

lemma call_ok_any: "call_ok (\<lambda>_ _ _. True) (\<lambda>_. True) (\<lambda>_ _. True) = (\<lambda>_ _. True)"
proof (intro ext)
  show "call_ok (\<lambda>_ _ _. True) (\<lambda>_. True) (\<lambda>_ _. True) s a = True" for s :: 'a and a
    by (cases a) simp_all
qed

lemmas mem_history_lemmas = mem.no_second_claim [unfolded call_ok_any] mem.one_winner [unfolded call_ok_any]

text \<open>
  C15. The in-memory store and the status machine. No method raises. A claim answers and acts as the machine's claim, completion and
  deletion act as the machine's, \<open>get_status\<close> and \<open>is_duplicate\<close> read the cell of the message. \<open>mark_failed\<close> acts as the machine
  while the message is being processed, and differs from it otherwise: it makes a failed record of any record there is, also of a
  completed one, which the machine would keep.
\<close>

theorem mem_refines_machine:
  "(let (r, st') = mem_claim cfg m now st
    in (r, mem_cells now st') =
       (case a_claim cfg (\<lambda>_. None) now (lease_end cfg now) m (mem_cells now st) of (b, A) \<Rightarrow> (Inr b, A)))
   \<and> fst (mem_mark_completed m v now st) = Inr ()
   \<and> mem_cells now (snd (mem_mark_completed m v now st)) = a_complete v m (mem_cells now st)
   \<and> fst (mem_mark_failed m e n now st) = Inr ()
   \<and> mem_cells now (snd (mem_mark_failed m e n now st)) =
       (case fst (mem_cells now st m) of
          Absent \<Rightarrow> mem_cells now st
        | Processing k l \<Rightarrow> a_fail n m (mem_cells now st)
        | _ \<Rightarrow> (mem_cells now st)(m := (Failed n, None)))
   \<and> fst (mem_delete m now st) = Inr ()
   \<and> mem_cells now (snd (mem_delete m now st)) = a_delete m (mem_cells now st)
   \<and> (\<exists>p. mem_get_status m now st = (Inr p, st) \<and> entry_of p = fst (mem_cells now st m))
   \<and> mem_is_duplicate m now st = (Inr (fst (mem_cells now st m) \<noteq> Absent), st)"
proof (intro conjI)
  show "let (r, st') = mem_claim cfg m now st
    in (r, mem_cells now st') =
       (case a_claim cfg (\<lambda>_. None) now (lease_end cfg now) m (mem_cells now st) of (b, A) \<Rightarrow> (Inr b, A))"
    by (auto simp: mem_claim_eq a_claim_def mem_cells_update next_attempt_claimed mem_cells_at)
  show "mem_cells now (snd (mem_mark_failed m e n now st)) =
       (case fst (mem_cells now st m) of
          Absent \<Rightarrow> mem_cells now st
        | Processing k l \<Rightarrow> a_fail n m (mem_cells now st)
        | _ \<Rightarrow> (mem_cells now st)(m := (Failed n, None)))"
    by (auto simp: mem_mark_failed_def mem_cells_update mem_cells_at entry_of_def a_fail_def
        split: option.splits StatusValue.splits)
  show "\<exists>p. mem_get_status m now st = (Inr p, st) \<and> entry_of p = fst (mem_cells now st m)"
    by (simp add: mem_get_status_def mem_cells_at)
  show "mem_is_duplicate m now st = (Inr (fst (mem_cells now st m) \<noteq> Absent), st)"
    by (auto simp: mem_is_duplicate_def mem_cells_at entry_of_def split: option.splits StatusValue.splits)
  show "fst (mem_mark_completed m v now st) = Inr ()" "fst (mem_mark_failed m e n now st) = Inr ()" "fst (mem_delete m now st) = Inr ()"
    by (auto simp: mem_mark_completed_def mem_mark_failed_def mem_delete_def split: option.splits)
qed (rule mem_mark_completed_refines mem_delete_refines)+

text \<open>A small history on which the theorems are instantiated: two claims of one message.\<close>

definition example_claimed :: mem_state where
  "example_claimed = [(''m'', claimed_rec default_config ''m'' 0 None)]"

lemma example_step_won:
  "step (mem_ops default_config) any_call (0, mem_init) (CClaim ''m'' 0 (Inr True)) (0, example_claimed)"
  by (rule step.claim) (simp_all add: mem_claim_eq entry_of_def mem_init_def example_claimed_def)

lemma example_step_lost:
  "step (mem_ops default_config) any_call (0, example_claimed) (CClaim ''m'' 5 (Inr False)) (5, example_claimed)"
  by (rule step.claim)
     (simp_all add: mem_claim_eq entry_of_def example_claimed_def claimed_rec_def lease_end_def default_config_def)

lemma example_history_lost:
  "history (mem_ops default_config) any_call (0, example_claimed) [CClaim ''m'' 5 (Inr False)] (5, example_claimed)"
  using history.more [OF history.none example_step_lost] by simp

lemma example_history:
  "history (mem_ops default_config) any_call (0, mem_init)
     [CClaim ''m'' 0 (Inr True), CClaim ''m'' 5 (Inr False)] (5, example_claimed)"
  using history.more [OF history.more [OF history.none example_step_won] example_step_lost] by simp

lemma mem_step_ok: "step (mem_ops cfg) ok c a c' \<Longrightarrow> mem_ok (snd c) \<Longrightarrow> mem_ok (snd c')"
proof (induction rule: step.induct)
  case (claim t t' m s r s')
  then show ?case using mem_ok_claim [of s cfg m t'] by simp
next
  case (completed t t' m v s u s')
  then show ?case using mem_ok_mark_completed [of s m v t'] by simp
next
  case (failed t t' m err n s u s')
  then show ?case using mem_ok_mark_failed [of s m err n t'] by simp
next
  case (deleted t t' m s u s')
  then show ?case using mem_ok_mem_delete [of s m t'] by simp
qed (auto simp: mem_get_status_def mem_is_duplicate_def)

lemma mem_history_ok: "history (mem_ops cfg) ok c as c' \<Longrightarrow> mem_ok (snd c) \<Longrightarrow> mem_ok (snd c')"
  by (induction rule: history.induct) (auto dest: mem_step_ok)

text \<open>
  C16. Every history of calls on a fresh in-memory store leaves its records well formed: each filed under its own
  id, with a lease exactly while it is being processed, and without a stale result or error then.
\<close>

theorem mem_records_well_formed:
  assumes "history (mem_ops cfg) any_call (t, mem_init) as (t', st)"
  shows "dict_ok st \<and> (\<forall>m p. map_of st m = Some p \<longrightarrow>
     ps_message_id p = m \<and> (ps_status p = PROCESSING \<longleftrightarrow> ps_lease_expires_at p \<noteq> None)
     \<and> (ps_status p = PROCESSING \<longrightarrow> ps_result p = PNone \<and> ps_error p = None))"
proof -
  have "mem_ok st" using mem_history_ok [OF assms] by simp
  then show ?thesis unfolding mem_ok_def rec_ok_def by blast
qed

theorem mem_records_well_formed_witness: "dict_ok example_claimed"
  using mem_records_well_formed [OF example_history] by blast

text \<open>
  C14. Mutual exclusion on the in-memory store: after a won claim, no other claim of the message wins until its
  lease ends, unless a call marks the message failed or deletes its record. Whoever completes it
  keeps all later claims out in this time.
\<close>

theorem mem_claim_excludes:
  assumes "step (mem_ops cfg) any_call (t, s) (CClaim m t1 (Inr True)) (t1, s1)" "mem_ok s"
    and "history (mem_ops cfg) any_call (t1, s1) as (t2, s2)" "\<forall>a \<in> set as. \<not> releases m a"
    and "t2 \<le> t1 + processing_timeout_seconds cfg * 1000000 - 1000"
  shows "\<forall>a \<in> set as. \<not> wins m a"
  by (rule mem_history_lemmas(1) [OF assms(1-4)]) (use assms(5) in \<open>simp_all add: mem_cells_def\<close>)

theorem mem_claim_excludes_witness: "\<not> wins ''m'' (CClaim ''m'' 5 (Inr False))"
  using mem_claim_excludes [OF example_step_won _ example_history_lost]
  by (simp add: default_config_def)

text \<open>
  Among any number of competing claims of a new message, whoever makes them and in whatever order they reach
  the in-memory store, exactly one wins while the lease lasts.
\<close>

theorem mem_one_winner:
  assumes "history (mem_ops cfg) any_call (t0, s0) as (t, s)" "mem_ok s0" "map_of s0 m = None"
    and "\<forall>a \<in> set as. about m a \<longrightarrow> (\<exists>t b. a = CClaim m t (Inr b))" "\<exists>a \<in> set as. about m a"
    and "t \<le> t0 + processing_timeout_seconds cfg * 1000000 - 1000"
  shows "won m as = 1"
  using mem_history_lemmas(2) [OF assms(1), of m] assms(2-6) by (simp add: mem_cells_def entry_of_def)

theorem mem_one_winner_witness: "won ''m'' [CClaim ''m'' 0 (Inr True), CClaim ''m'' 5 (Inr False)] = 1"
  by (rule mem_one_winner [OF example_history]) (auto simp: mem_init_def default_config_def mem_ok_def)

text \<open>
  C26. The in-memory \<open>mark_failed\<close> does not look at the status it overwrites: a completed message turns into a failed
  one, loses its guard, and is claimed again while retries are left.
\<close>

theorem mem_completed_lost:
  assumes "map_of st m = Some p" "ps_status p = COMPLETED" "retry_failed cfg" "n < max_retries cfg"
  shows "\<exists>st' p'. mem_mark_failed m err n now st = (Inr (), st') \<and> map_of st' m = Some p'
     \<and> ps_status p' = FAILED \<and> fst (mem_claim cfg m later st') = Inr True"
  using assms
  by (auto simp: mem_mark_failed_def mem_claim_eq dict_simps entry_of_def)

theorem mem_completed_lost_witness:
  "\<exists>st'. fst (mem_claim default_config ''m'' 9 st') = Inr True \<and>
     st' = snd (mem_mark_failed ''m'' ''late'' 1 8
       (snd (mem_mark_completed ''m'' (PInt 7) 7 example_claimed)))"
proof -
  let ?st = "snd (mem_mark_completed ''m'' (PInt 7) 7 example_claimed)"
  obtain p where "map_of ?st ''m'' = Some p" "ps_status p = COMPLETED"
    by (simp add: mem_mark_completed_def example_claimed_def claimed_rec_def)
  from mem_completed_lost [OF this, of default_config 1 "''late''" 8 9]
  show ?thesis by (auto simp: default_config_def)
qed

end
