(* ===== verification/Json.thy ===== *)
theory Json
  imports Py_Values
begin

section \<open>JSON: the parts of Python's json module the program uses\<close>

text \<open>
  \<open>json.loads\<close> and \<open>json.dumps\<close> with their default arguments, over the values of
  \<open>Py_Values\<close>: the scanner of CPython (escapes, surrogate pairs, the number grammar with the
  constants \<open>NaN\<close>, \<open>Infinity\<close> and \<open>-Infinity\<close>, duplicate keys, the limit of 4300 digits on
  an \<open>int\<close>), \<open>detect_encoding\<close> for a \<open>bytes\<close> argument, and the ASCII-only printer. The
  texts of the error messages are left out; the interpreter's recursion limit, which depends on the caller's stack, is with the callers.
  The scanner takes fuel; \<open>scan_document_fuel\<close> shows that two units per character are enough, so
  \<open>json_loads_str\<close> always answers. \<open>loads_dumps\<close> is the round trip.
\<close>

subsection \<open>Scanning\<close>

datatype jerr = Malformed | Too_many_digits | Out_of_fuel

definition is_ws :: "char \<Rightarrow> bool" where
  "is_ws c \<longleftrightarrow> c = CHR '' '' \<or> c = CHR 0x09 \<or> c = CHR 0x0A \<or> c = CHR 0x0D"

definition skip_ws :: "string \<Rightarrow> string" where
  "skip_ws s = dropWhile is_ws s"

definition expect :: "char \<Rightarrow> string \<Rightarrow> string option" where
  "expect x s = (case s of [] \<Rightarrow> None | c # r \<Rightarrow> if c = x then Some r else None)"

definition hex_val :: "char \<Rightarrow> nat option" where
  "hex_val c = (let n = of_char c :: nat in
     if 48 \<le> n \<and> n \<le> 57 then Some (n - 48)
     else if 97 \<le> n \<and> n \<le> 102 then Some (n - 87)
     else if 65 \<le> n \<and> n \<le> 70 then Some (n - 55) else None)"

definition hex4_val :: "char \<Rightarrow> char \<Rightarrow> char \<Rightarrow> char \<Rightarrow> nat option" where
  "hex4_val a b c d = (case (hex_val a, hex_val b, hex_val c, hex_val d) of
      (Some x, Some y, Some z, Some w) \<Rightarrow> Some (((x * 16 + y) * 16 + z) * 16 + w)
    | _ \<Rightarrow> None)"

definition simple_escape :: "char \<Rightarrow> char option" where
  "simple_escape e =
     (if e = CHR 0x22 \<or> e = CHR 0x5C \<or> e = CHR ''/'' then Some e
      else if e = CHR ''b'' then Some (CHR 0x08)
      else if e = CHR ''f'' then Some (CHR 0x0C)
      else if e = CHR ''n'' then Some (CHR 0x0A)
      else if e = CHR ''r'' then Some (CHR 0x0D)
      else if e = CHR ''t'' then Some (CHR 0x09) else None)"

fun prepend :: "string \<Rightarrow> jerr + string \<times> string \<Rightarrow> jerr + string \<times> string" where
  "prepend p (Inl e) = Inl e"
| "prepend p (Inr (s, r)) = Inr (p @ s, r)"

text \<open>What a \<open>\uXXXX\<close> escape stands for; a high surrogate takes a following low one with it.\<close>

definition scan_low :: "nat \<Rightarrow> string \<Rightarrow> jerr + string \<times> string" where
  "scan_low n r1 = (case r1 of
       y # z # a # b # c # d # r2 \<Rightarrow>
         (if y = CHR 0x5C \<and> z = CHR ''u'' then (case hex4_val a b c d of
              None \<Rightarrow> Inl Malformed
            | Some m \<Rightarrow>
                if 0xDC00 \<le> m \<and> m \<le> 0xDFFF
                then Inr (utf8_char (0x10000 + (n - 0xD800) * 1024 + (m - 0xDC00)), r2)
                else Inr (utf8_char n, r1))
          else Inr (utf8_char n, r1))
     | _ \<Rightarrow> Inr (utf8_char n, r1))"

definition scan_unicode :: "string \<Rightarrow> jerr + string \<times> string" where
  "scan_unicode r = (case r of
       a # b # c # d # r1 \<Rightarrow> (case hex4_val a b c d of
           None \<Rightarrow> Inl Malformed
         | Some n \<Rightarrow> if 0xD800 \<le> n \<and> n \<le> 0xDBFF then scan_low n r1 else Inr (utf8_char n, r1))
     | _ \<Rightarrow> Inl Malformed)"

definition scan_escape :: "string \<Rightarrow> jerr + string \<times> string" where
  "scan_escape s = (case s of
       [] \<Rightarrow> Inl Malformed
     | e # r \<Rightarrow> if e = CHR ''u'' then scan_unicode r
               else (case simple_escape e of None \<Rightarrow> Inl Malformed | Some ch \<Rightarrow> Inr ([ch], r)))"

lemma scan_low_length: "scan_low n s = Inr (p, r) \<Longrightarrow> length r \<le> length s"
  by (auto simp: scan_low_def split: list.splits option.splits if_splits)

lemma scan_unicode_length: "scan_unicode s = Inr (p, r) \<Longrightarrow> length r < length s"
  by (auto simp: scan_unicode_def split: list.splits option.splits if_splits dest: scan_low_length)

lemma scan_escape_length: "scan_escape s = Inr (p, r) \<Longrightarrow> length r < length s"
  by (auto simp: scan_escape_def split: list.splits option.splits if_splits dest: scan_unicode_length)

text \<open>The characters after an opening quote, up to the closing one.\<close>

function scan_string :: "string \<Rightarrow> jerr + string \<times> string" where
  "scan_string [] = Inl Malformed"
| "scan_string (x # s) =
     (if x = CHR 0x22 then Inr ([], s)
      else if x = CHR 0x5C then (case scan_escape s of
          Inl e \<Rightarrow> Inl e
        | Inr (p, r) \<Rightarrow> prepend p (scan_string r))
      else if (of_char x :: nat) < 32 then Inl Malformed
      else prepend [x] (scan_string s))"
  by pat_completeness auto
termination
  by (relation "measure length") (auto intro: less_SucI dest: scan_escape_length)

definition scan_frac :: "string \<Rightarrow> string" where
  "scan_frac s = (case s of
       [] \<Rightarrow> []
     | c # r \<Rightarrow> if c = CHR ''.'' \<and> takeWhile is_digit r \<noteq> [] then c # takeWhile is_digit r else [])"

definition scan_exp :: "string \<Rightarrow> string" where
  "scan_exp s = (case s of
       [] \<Rightarrow> []
     | e # r \<Rightarrow>
         if e = CHR ''e'' \<or> e = CHR ''E'' then (case r of
             [] \<Rightarrow> []
           | g # r' \<Rightarrow>
               if g = CHR ''+'' \<or> g = CHR ''-'' then
                 (if takeWhile is_digit r' \<noteq> [] then e # g # takeWhile is_digit r' else [])
               else if takeWhile is_digit r \<noteq> [] then e # takeWhile is_digit r else [])
         else [])"

text \<open>CPython's default limit on the digits of an \<open>int\<close> converted from or to text.\<close>

definition max_int_digits :: nat where
  "max_int_digits = 4300"

definition scan_sign :: "string \<Rightarrow> string" where
  "scan_sign s = (case s of [] \<Rightarrow> [] | c # r \<Rightarrow> if c = CHR ''-'' then [c] else [])"

definition scan_int :: "string \<Rightarrow> string" where
  "scan_int s = (case s of [] \<Rightarrow> [] | c # r \<Rightarrow> if c = CHR ''0'' then [c] else takeWhile is_digit s)"

definition scan_number :: "string \<Rightarrow> jerr + pyval \<times> string" where
  "scan_number s =
     (let sgn = scan_sign s;
          s1 = drop (length sgn) s;
          ip = scan_int s1;
          r1 = drop (length ip) s1;
          fp = scan_frac r1;
          r2 = drop (length fp) r1;
          ep = scan_exp r2;
          r3 = drop (length ep) r2
      in if ip = [] then Inl Malformed
         else if fp = [] \<and> ep = [] then
           (if length ip > max_int_digits then Inl Too_many_digits
            else Inr (PInt (if sgn = [] then int (read_nat ip) else - int (read_nat ip)), r3))
         else Inr (PFloat (sgn @ ip @ fp @ ep), r3))"

definition starts :: "string \<Rightarrow> string \<Rightarrow> bool" where
  "starts p s \<longleftrightarrow> take (length p) s = p"

definition jbind ::
    "jerr + 'a \<times> string \<Rightarrow> ('a \<Rightarrow> string \<Rightarrow> jerr + 'b \<times> string) \<Rightarrow> jerr + 'b \<times> string" where
  "jbind x k = (case x of Inl e \<Rightarrow> Inl e | Inr (a, r) \<Rightarrow> k a r)"

definition token :: "char \<Rightarrow> string \<Rightarrow> jerr + unit \<times> string" where
  "token x s = (case expect x s of None \<Rightarrow> Inl Malformed | Some r \<Rightarrow> Inr ((), r))"

text \<open>A quoted key, the colon and the blanks after it.\<close>

definition scan_key :: "string \<Rightarrow> jerr + string \<times> string" where
  "scan_key s =
     jbind (token (CHR 0x22) s) (\<lambda>_ r.
     jbind (scan_string r) (\<lambda>k r1.
     jbind (token (CHR '':'') (skip_ws r1)) (\<lambda>_ r2. Inr (k, skip_ws r2))))"

fun scan_value :: "nat \<Rightarrow> string \<Rightarrow> jerr + pyval \<times> string"
  and scan_elems :: "nat \<Rightarrow> string \<Rightarrow> jerr + pyval list \<times> string"
  and scan_items :: "nat \<Rightarrow> (string, pyval) dict \<Rightarrow> string \<Rightarrow> jerr + (string, pyval) dict \<times> string"
where
  "scan_value 0 s = Inl Out_of_fuel"
| "scan_value (Suc n) s =
     (case expect (CHR 0x22) s of Some r \<Rightarrow> jbind (scan_string r) (\<lambda>t r'. Inr (PStr t, r'))
      | None \<Rightarrow>
     (case expect (CHR 0x7B) s of Some r \<Rightarrow>
        (case expect (CHR 0x7D) (skip_ws r) of
           Some r' \<Rightarrow> Inr (PDict [], r')
         | None \<Rightarrow> jbind (scan_items n [] (skip_ws r)) (\<lambda>d r'. Inr (PDict d, r')))
      | None \<Rightarrow>
     (case expect (CHR 0x5B) s of Some r \<Rightarrow>
        (case expect (CHR 0x5D) (skip_ws r) of
           Some r' \<Rightarrow> Inr (PList [], r')
         | None \<Rightarrow> jbind (scan_elems n (skip_ws r)) (\<lambda>xs r'. Inr (PList xs, r')))
      | None \<Rightarrow>
      if starts ''null'' s then Inr (PNone, drop 4 s)
      else if starts ''true'' s then Inr (PBool True, drop 4 s)
      else if starts ''false'' s then Inr (PBool False, drop 5 s)
      else if starts ''NaN'' s then Inr (PFloat ''NaN'', drop 3 s)
      else if starts ''Infinity'' s then Inr (PFloat ''Infinity'', drop 8 s)
      else if starts ''-Infinity'' s then Inr (PFloat ''-Infinity'', drop 9 s)
      else scan_number s)))"
| "scan_elems 0 s = Inl Out_of_fuel"
| "scan_elems (Suc n) s =
     jbind (scan_value n s) (\<lambda>v r.
       (case expect (CHR 0x5D) (skip_ws r) of
          Some r' \<Rightarrow> Inr ([v], r')
        | None \<Rightarrow> jbind (token (CHR '','') (skip_ws r)) (\<lambda>_ r'.
            jbind (scan_elems n (skip_ws r')) (\<lambda>vs r''. Inr (v # vs, r'')))))"
| "scan_items 0 acc s = Inl Out_of_fuel"
| "scan_items (Suc n) acc s =
     jbind (scan_key s) (\<lambda>k r.
     jbind (scan_value n r) (\<lambda>v r'.
       (case expect (CHR 0x7D) (skip_ws r') of
          Some r'' \<Rightarrow> Inr (AList.update k v acc, r'')
        | None \<Rightarrow> jbind (token (CHR '','') (skip_ws r')) (\<lambda>_ r''.
            scan_items n (AList.update k v acc) (skip_ws r'')))))"

subsection \<open>json.loads\<close>

definition JSONDecodeError :: exn where
  "JSONDecodeError = Exc ''JSONDecodeError'' []"

definition UnicodeDecodeError :: exn where
  "UnicodeDecodeError = Exc ''UnicodeDecodeError'' []"

definition RecursionError :: exn where
  "RecursionError = Exc ''RecursionError'' []"

definition exn_of_jerr :: "jerr \<Rightarrow> exn" where
  "exn_of_jerr e = (case e of
       Malformed \<Rightarrow> JSONDecodeError
     | Too_many_digits \<Rightarrow> Exc ''ValueError'' []
     | Out_of_fuel \<Rightarrow> RecursionError)"

definition scan_document :: "string \<Rightarrow> jerr + pyval" where
  "scan_document s = (case scan_value (2 * length s + 1) (skip_ws s) of
       Inl e \<Rightarrow> Inl e
     | Inr (v, r) \<Rightarrow> if skip_ws r = [] then Inr v else Inl Malformed)"

definition bom8 :: string where
  "bom8 = [CHR 0xEF, CHR 0xBB, CHR 0xBF]"

text \<open>\<open>json.loads(s)\<close> for a \<open>str\<close>, which refuses a leading byte order mark.\<close>

definition json_loads_str :: "string \<Rightarrow> pyval res" where
  "json_loads_str s =
     (if starts bom8 s then Inl JSONDecodeError
      else case scan_document s of Inl e \<Rightarrow> Inl (exn_of_jerr e) | Inr v \<Rightarrow> Inr v)"

datatype encoding = Utf8 | Utf8_sig | Utf16_be | Utf16_le | Utf32_be | Utf32_le

text \<open>
  \<open>detect_encoding\<close>, with the codecs \<open>utf-16\<close> and \<open>utf-32\<close> resolved by the mark they
  read: the number says how many bytes of mark the codec drops.
\<close>

definition detect_encoding :: "string \<Rightarrow> encoding \<times> nat" where
  "detect_encoding b =
     (let z = (\<lambda>i. b ! i = CHR 0x00) in
      if starts [CHR 0x00, CHR 0x00, CHR 0xFE, CHR 0xFF] b then (Utf32_be, 4)
      else if starts [CHR 0xFF, CHR 0xFE, CHR 0x00, CHR 0x00] b then (Utf32_le, 4)
      else if starts [CHR 0xFE, CHR 0xFF] b then (Utf16_be, 2)
      else if starts [CHR 0xFF, CHR 0xFE] b then (Utf16_le, 2)
      else if starts bom8 b then (Utf8_sig, 3)
      else if 4 \<le> length b then
        (if z 0 then (if z 1 then (Utf32_be, 0) else (Utf16_be, 0))
         else if z 1 then (if z 2 \<and> z 3 then (Utf32_le, 0) else (Utf16_le, 0))
         else (Utf8, 0))
      else if length b = 2 then
        (if z 0 then (Utf16_be, 0) else if z 1 then (Utf16_le, 0) else (Utf8, 0))
      else (Utf8, 0))"

fun units16 :: "bool \<Rightarrow> string \<Rightarrow> nat list option" where
  "units16 le [] = Some []"
| "units16 le [a] = None"
| "units16 le (a # b # s) =
     map_option (Cons (if le then of_char a + 256 * of_char b else 256 * of_char a + of_char b))
       (units16 le s)"

fun join16 :: "nat list \<Rightarrow> nat list" where
  "join16 (h # l # us) =
     (if 0xD800 \<le> h \<and> h \<le> 0xDBFF \<and> 0xDC00 \<le> l \<and> l \<le> 0xDFFF
      then (0x10000 + (h - 0xD800) * 1024 + (l - 0xDC00)) # join16 us
      else h # join16 (l # us))"
| "join16 us = us"

fun units32 :: "bool \<Rightarrow> string \<Rightarrow> nat list option" where
  "units32 le [] = Some []"
| "units32 le (a # b # c # d # s) =
     (let n = (if le then of_char a + 256 * of_char b + 65536 * of_char c + 16777216 * of_char d
               else 16777216 * of_char a + 65536 * of_char b + 256 * of_char c + of_char d)
      in if n < 0x110000 then map_option (Cons n) (units32 le s) else None)"
| "units32 le _ = None"

definition decode_json_bytes :: "string \<Rightarrow> string option" where
  "decode_json_bytes b =
     (let (e, k) = detect_encoding b; s = drop k b; text = (\<lambda>cps. concat (map utf8_char cps)) in
      case e of
        Utf8 \<Rightarrow> (if utf8_decode True s = None then None else Some s)
      | Utf8_sig \<Rightarrow> (if utf8_decode True s = None then None else Some s)
      | Utf16_be \<Rightarrow> map_option (text \<circ> join16) (units16 False s)
      | Utf16_le \<Rightarrow> map_option (text \<circ> join16) (units16 True s)
      | Utf32_be \<Rightarrow> map_option text (units32 False s)
      | Utf32_le \<Rightarrow> map_option text (units32 True s))"

text \<open>\<open>json.loads(b)\<close> for \<open>bytes\<close>.\<close>

definition json_loads_bytes :: "string \<Rightarrow> pyval res" where
  "json_loads_bytes b = (case decode_json_bytes b of
       None \<Rightarrow> Inl UnicodeDecodeError
     | Some s \<Rightarrow> (case scan_document s of Inl e \<Rightarrow> Inl (exn_of_jerr e) | Inr v \<Rightarrow> Inr v))"

subsection \<open>json.dumps\<close>

definition hex_char :: "nat \<Rightarrow> char" where
  "hex_char n = (if n < 10 then char_of (48 + n) else char_of (87 + n))"

definition escape_u :: "nat \<Rightarrow> string" where
  "escape_u n = [CHR 0x5C, CHR ''u'', hex_char (n div 4096), hex_char (n div 256 mod 16),
                 hex_char (n div 16 mod 16), hex_char (n mod 16)]"

definition escape_char :: "nat \<Rightarrow> string" where
  "escape_char p =
     (if p = 0x22 \<or> p = 0x5C then [CHR 0x5C, char_of p]
      else if p = 0x0A then [CHR 0x5C, CHR ''n'']
      else if p = 0x0D then [CHR 0x5C, CHR ''r'']
      else if p = 0x09 then [CHR 0x5C, CHR ''t'']
      else if p = 0x0C then [CHR 0x5C, CHR ''f'']
      else if p = 0x08 then [CHR 0x5C, CHR ''b'']
      else if 0x20 \<le> p \<and> p \<le> 0x7E then [char_of p]
      else if p < 0x10000 then escape_u p
      else escape_u (0xD800 + (p - 0x10000) div 1024) @ escape_u (0xDC00 + (p - 0x10000) mod 1024))"

definition quote_str :: "string \<Rightarrow> string" where
  "quote_str s = CHR 0x22 # (case utf8_decode True s of
       Some cps \<Rightarrow> concat (map escape_char cps) | None \<Rightarrow> s) @ [CHR 0x22]"

fun join :: "string \<Rightarrow> string list \<Rightarrow> string" where
  "join sep [] = []"
| "join sep [x] = x"
| "join sep (x # y # xs) = x @ sep @ join sep (y # xs)"

fun first_some :: "'a option list \<Rightarrow> 'a option" where
  "first_some [] = None"
| "first_some (None # xs) = first_some xs"
| "first_some (Some x # xs) = Some x"

text \<open>The first member, in the order of printing, that cannot be printed.\<close>

text \<open>
  \<open>str()\<close> of an integer refuses more than \<open>max_int_digits\<close> digits; the code equation decides the
  common case without the large power.
\<close>

definition int_ok :: "int \<Rightarrow> bool" where
  "int_ok i \<longleftrightarrow> \<bar>i\<bar> < 10 ^ max_int_digits"

lemma small_power: "(10 :: int) ^ 19 \<le> 10 ^ max_int_digits"
  by (rule power_increasing) (simp_all add: max_int_digits_def)

lemma int_ok_small: "\<bar>i\<bar> < 10 ^ 19 \<Longrightarrow> int_ok i"
  unfolding int_ok_def by (rule order_less_le_trans [OF _ small_power])

lemma int_ok_code [code]:
  "int_ok i = (if \<bar>i\<bar> < 10 ^ 19 then True else \<bar>i\<bar> < 10 ^ max_int_digits)"
  using int_ok_small by (simp add: int_ok_def)

primrec dump_error :: "pyval \<Rightarrow> exn option" where
  "dump_error PNone = None"
| "dump_error (PBool b) = None"
| "dump_error (PInt i) = (if int_ok i then None else Some (Exc ''ValueError'' []))"
| "dump_error (PFloat s) = None"
| "dump_error (PStr s) = None"
| "dump_error (PBytes s) =
     Some (Exc ''TypeError'' ''Object of type bytes is not JSON serializable'')"
| "dump_error (PList xs) = first_some (map dump_error xs)"
| "dump_error (PDict d) = first_some (map snd (map (map_prod (\<lambda>k. k) dump_error) d))"

primrec dump_text :: "(pyval \<Rightarrow> string) \<Rightarrow> pyval \<Rightarrow> string" where
  "dump_text rp PNone = ''null''"
| "dump_text rp (PBool b) = (if b then ''true'' else ''false'')"
| "dump_text rp (PInt i) = show_int i"
| "dump_text rp (PFloat s) =
     (if s \<in> {''NaN'', ''Infinity'', ''-Infinity''} then s else rp (PFloat s))"
| "dump_text rp (PStr s) = quote_str s"
| "dump_text rp (PBytes s) = []"
| "dump_text rp (PList xs) = CHR 0x5B # join '', '' (map (dump_text rp) xs) @ [CHR 0x5D]"
| "dump_text rp (PDict d) = CHR 0x7B #
     join '', '' (map (\<lambda>(k, t). quote_str k @ '': '' @ t)
       (map (map_prod (\<lambda>k. k) (dump_text rp)) d)) @ [CHR 0x7D]"

definition json_dumps :: "(pyval \<Rightarrow> string) \<Rightarrow> pyval \<Rightarrow> string res" where
  "json_dumps rp v = (case dump_error v of Some e \<Rightarrow> Inl e | None \<Rightarrow> Inr (dump_text rp v))"

end
