(* ===== verification/Json_Roundtrip.thy ===== *)
theory Json_Roundtrip
  imports Json
begin

section \<open>JSON: totality of the scanner and the round trip\<close>

text \<open>
  The scanner consumes what it reads, so the fuel that \<open>scan_document\<close> gives it is never
  used up (\<open>scan_document_fuel\<close>); and what \<open>json.dumps\<close> prints, \<open>json.loads\<close> reads back
  (\<open>loads_dumps\<close>), for values without floats whose strings are well-formed Unicode and whose
  dictionaries have no key twice (\<open>json_ok\<close>).
\<close>

subsection \<open>The scanner consumes its input\<close>

lemma skip_ws_length [simp]: "length (skip_ws s) \<le> length s"
  by (simp add: skip_ws_def length_dropWhile_le)

lemma expect_length: "expect x s = Some r \<Longrightarrow> length r < length s"
  by (auto simp: expect_def split: list.splits if_splits)

lemma prepend_Inr: "prepend p x = Inr (s, r) \<longleftrightarrow> (\<exists>t. x = Inr (t, r) \<and> s = p @ t)"
  by (cases "(p, x)" rule: prepend.cases) auto

lemma scan_string_length: "scan_string s = Inr (t, r) \<Longrightarrow> length r < length s"
proof (induction s arbitrary: t rule: scan_string.induct)
  case (2 x s)
  show ?case
  proof (cases "x = CHR 0x5C")
    case True
    with "2.prems" obtain p u where "scan_escape s = Inr (p, u)" "\<exists>w. scan_string u = Inr (w, r)"
      by (auto simp: prepend_Inr split: sum.splits prod.splits)
    with True "2.IH"(1) [of "(p, u)" p u] show ?thesis
      by (fastforce dest: scan_escape_length)
  next
    case False
    with 2 show ?thesis by (fastforce simp: prepend_Inr split: if_splits)
  qed
qed simp

lemma scan_number_length:
  assumes "scan_number s = Inr (v, r)"
  shows "length r < length s"
proof -
  let ?s1 = "drop (length (scan_sign s)) s"
  from assms have ip: "scan_int ?s1 \<noteq> []"
    and r: "\<exists>a b. r = drop a (drop b (drop (length (scan_int ?s1)) ?s1))"
    by (auto simp only: scan_number_def Let_def sum.inject prod.inject sum.simps split: if_splits)
  from ip have "?s1 \<noteq> []" by (auto simp: scan_int_def)
  then have "0 < length ?s1" by (simp del: length_drop)
  moreover from ip have "0 < length (scan_int ?s1)" by simp
  ultimately show ?thesis using r by (auto simp: neq_Nil_conv)
qed

lemma starts_length: "starts p s \<Longrightarrow> length p \<le> length s"
  unfolding starts_def by (metis length_take min.cobounded1)

lemma jbind_Inr: "jbind x k = Inr (b, r') \<longleftrightarrow> (\<exists>a r. x = Inr (a, r) \<and> k a r = Inr (b, r'))"
  by (auto simp: jbind_def split: sum.splits)

lemma jbind_fuel:
  "jbind x k = Inl Out_of_fuel \<longleftrightarrow>
   x = Inl Out_of_fuel \<or> (\<exists>a r. x = Inr (a, r) \<and> k a r = Inl Out_of_fuel)"
  by (auto simp: jbind_def split: sum.splits)

lemma token_Inr: "token x s = Inr (u, r) \<longleftrightarrow> expect x s = Some r"
  by (auto simp: token_def split: option.splits)

lemma skip_ws_less: "length r < length (skip_ws s) \<Longrightarrow> length r < length s"
  using skip_ws_length [of s] by linarith

lemma drop_starts: "starts p s \<Longrightarrow> p \<noteq> [] \<Longrightarrow> length (drop (length p) s) < length s"
  using starts_length [of p s] by (cases p) auto

lemma scan_const_length:
  "starts ''null'' s \<Longrightarrow> length (drop 4 s) < length s"
  "starts ''true'' s \<Longrightarrow> length (drop 4 s) < length s"
  "starts ''false'' s \<Longrightarrow> length (drop 5 s) < length s"
  "starts ''NaN'' s \<Longrightarrow> length (drop 3 s) < length s"
  "starts ''Infinity'' s \<Longrightarrow> length (drop 8 s) < length s"
  "starts ''-Infinity'' s \<Longrightarrow> length (drop 9 s) < length s"
  by (drule starts_length, simp)+

lemma scan_key_length: "scan_key s = Inr (k, r) \<Longrightarrow> length r < length s"
  by (auto simp: scan_key_def jbind_Inr token_Inr dest!: expect_length scan_string_length skip_ws_less
      intro!: le_less_trans [OF skip_ws_length])

lemmas scan_less = scan_string_length scan_key_length expect_length skip_ws_less scan_number_length

lemma scan_lengths:
  "(\<forall>s v r. scan_value n s = Inr (v, r) \<longrightarrow> length r < length s) \<and>
   (\<forall>s vs r. scan_elems n s = Inr (vs, r) \<longrightarrow> length r < length s) \<and>
   (\<forall>d s d' r. scan_items n d s = Inr (d', r) \<longrightarrow> length r < length s)"
proof (induction n)
  case (Suc n)
  then have IH: "\<And>s v r. scan_value n s = Inr (v, r) \<Longrightarrow> length r < length s"
    "\<And>s vs r. scan_elems n s = Inr (vs, r) \<Longrightarrow> length r < length s"
    "\<And>d s d' r. scan_items n d s = Inr (d', r) \<Longrightarrow> length r < length s"
    by auto
  have "scan_value (Suc n) s = Inr (v, r) \<Longrightarrow> length r < length s" for s v r
    by (simp only: scan_value.simps jbind_Inr split: option.splits if_splits)
       (auto dest!: IH scan_less simp del: length_drop intro: scan_const_length)
  moreover have "scan_elems (Suc n) s = Inr (vs, r) \<Longrightarrow> length r < length s" for s vs r
    by (clarsimp simp: jbind_Inr token_Inr)
       (auto simp: jbind_Inr token_Inr split: option.splits dest!: IH scan_less)
  moreover have "scan_items (Suc n) d s = Inr (d', r) \<Longrightarrow> length r < length s" for d s d' r
    by (clarsimp simp: jbind_Inr token_Inr)
       (auto simp: jbind_Inr token_Inr split: option.splits dest!: IH scan_less)
  ultimately show ?case by blast
qed simp

lemma scan_value_length: "scan_value n s = Inr (v, r) \<Longrightarrow> length r < length s"
  using scan_lengths by blast

lemma no_fuel_string: "scan_string s \<noteq> Inl Out_of_fuel"
proof (induction s rule: scan_string.induct)
  case (2 x s)
  have "prepend p y = Inl Out_of_fuel \<longleftrightarrow> y = Inl Out_of_fuel" for p y
    by (cases "(p, y)" rule: prepend.cases) auto
  moreover have "scan_escape s \<noteq> Inl Out_of_fuel"
    by (auto simp: scan_escape_def scan_unicode_def scan_low_def split: list.splits option.splits)
  ultimately show ?case using 2 by (auto split: sum.splits)
qed simp

lemma no_fuel_number: "scan_number s \<noteq> Inl Out_of_fuel"
  by (auto simp: scan_number_def Let_def)

lemma no_fuel_token: "token x s \<noteq> Inl Out_of_fuel"
  by (auto simp: token_def split: option.splits)

lemma no_fuel_key: "scan_key s \<noteq> Inl Out_of_fuel"
  by (simp add: scan_key_def jbind_fuel no_fuel_string no_fuel_token)

lemmas no_fuel = no_fuel_string no_fuel_number no_fuel_token no_fuel_key

lemma scan_fuels:
  "(\<forall>s. 2 * length s + 1 \<le> n \<longrightarrow> scan_value n s \<noteq> Inl Out_of_fuel) \<and>
   (\<forall>s. 2 * length s + 2 \<le> n \<longrightarrow> scan_elems n s \<noteq> Inl Out_of_fuel) \<and>
   (\<forall>d s. 2 * length s + 2 \<le> n \<longrightarrow> scan_items n d s \<noteq> Inl Out_of_fuel)"
proof (induction n)
  case (Suc n)
  then have IH: "\<And>s. 2 * length s + 1 \<le> n \<Longrightarrow> scan_value n s \<noteq> Inl Out_of_fuel"
    "\<And>s. 2 * length s + 2 \<le> n \<Longrightarrow> scan_elems n s \<noteq> Inl Out_of_fuel"
    "\<And>d s. 2 * length s + 2 \<le> n \<Longrightarrow> scan_items n d s \<noteq> Inl Out_of_fuel"
    by auto
  have ws: "2 * length s + 2 \<le> n \<Longrightarrow> 2 * length (skip_ws s) + 2 \<le> n" for s
    using skip_ws_length [of s] by linarith
  have ws1: "2 * length s + 1 \<le> n \<Longrightarrow> 2 * length (skip_ws s) + 1 \<le> n" for s
    using skip_ws_length [of s] by linarith
  note IH = IH IH(1) [OF ws1] IH(2) [OF ws] IH(3) [OF ws]
  have "scan_value (Suc n) s \<noteq> Inl Out_of_fuel" if "2 * length s + 1 \<le> Suc n" for s
  proof
    assume "scan_value (Suc n) s = Inl Out_of_fuel"
    with that show False
      by (auto simp: jbind_fuel no_fuel IH split: option.splits if_splits dest!: expect_length)
  qed
  moreover have "scan_elems (Suc n) s \<noteq> Inl Out_of_fuel" if "2 * length s + 2 \<le> Suc n" for s
  proof
    assume "scan_elems (Suc n) s = Inl Out_of_fuel"
    with that show False
      by (clarsimp simp: jbind_fuel no_fuel IH token_Inr)
         (auto simp: jbind_fuel no_fuel IH token_Inr split: option.splits
           dest!: scan_less scan_value_length)
  qed
  moreover have "scan_items (Suc n) d s \<noteq> Inl Out_of_fuel" if "2 * length s + 2 \<le> Suc n" for d s
  proof
    assume fuel: "scan_items (Suc n) d s = Inl Out_of_fuel"
    then obtain k r where k: "scan_key s = Inr (k, r)"
      by (auto simp: jbind_fuel no_fuel)
    from scan_key_length [OF k] that have "scan_value n r \<noteq> Inl Out_of_fuel"
      by (simp add: IH)
    with fuel k obtain v r' where v: "scan_value n r = Inr (v, r')"
      by (auto simp: jbind_fuel jbind_def [of "Inr (k, r)"])
    with fuel k obtain r'' where "expect (CHR '','') (skip_ws r') = Some r''"
      "scan_items n (AList.update k v d) (skip_ws r'') = Inl Out_of_fuel"
      by (auto simp: jbind_def token_def split: option.splits)
    moreover from this(1) scan_key_length [OF k] scan_value_length [OF v]
    have "length r'' < length s" by (auto dest!: scan_less)
    ultimately show False using that by (simp add: IH)
  qed
  ultimately show ?case by blast
qed simp

theorem scan_document_fuel: "scan_document s \<noteq> Inl Out_of_fuel"
proof -
  have "2 * length (skip_ws s) + 1 \<le> 2 * length s + 1" by simp
  then have "scan_value (2 * length s + 1) (skip_ws s) \<noteq> Inl Out_of_fuel"
    using scan_fuels [of "2 * length s + 1"] by blast
  then show ?thesis
    by (cases "scan_value (2 * length s + 1) (skip_ws s)")
       (auto simp only: scan_document_def sum.case split: prod.splits if_splits)
qed


subsection \<open>UTF-8\<close>

definition scalar :: "nat \<Rightarrow> bool" where
  "scalar p \<longleftrightarrow> p < 0xD800 \<or> 0xE000 \<le> p \<and> p < 0x110000"

lemma base64:
  assumes "y < 64"
  shows "(x * 64 + y) div 64 = (x::nat)" "(x * 64 + y) mod 64 = y"
  using assms by simp_all

lemma cont_byteE:
  assumes "cont_byte b"
  obtains y where "b = 128 + y" "y < 64"
  using assms that [of "b - 128"] by (auto simp: cont_byte_def)

lemma second_byteE:
  assumes "second_byte False a b"
  obtains y where "b = 128 + y" "y < 64" "a = 224 \<Longrightarrow> 32 \<le> y" "a = 237 \<Longrightarrow> y < 32"
    "a = 240 \<Longrightarrow> 16 \<le> y" "a = 244 \<Longrightarrow> y < 16"
  using assms that [of "b - 128"] by (auto simp: second_byte_def cont_byte_def)

lemma utf8_two:
  assumes "194 \<le> (a::nat)" "a \<le> 223" "cont_byte b"
  shows "utf8_char ((a - 192) * 64 + (b - 128)) = [char_of a, char_of b]
    \<and> scalar ((a - 192) * 64 + (b - 128))"
proof -
  from assms(3) obtain y where y: "b = 128 + y" "y < 64" by (rule cont_byteE)
  define x where "x = a - 192"
  with assms have x: "a = 192 + x" "2 \<le> x" "x < 32" by auto
  from x y have "128 \<le> x * 64 + y" "x * 64 + y < 2048" by linarith+
  with x y show ?thesis by (simp add: utf8_char_def scalar_def base64)
qed

lemma utf8_char_three:
  assumes "2048 \<le> q * 64 + z" "q * 64 + z < 65536" "q = x * 64 + y" "y < 64" "z < 64"
  shows "utf8_char (q * 64 + z) = [char_of (224 + x), char_of (128 + y), char_of (128 + z)]"
proof -
  have "(q * 64 + z) div 64 = q" "(q * 64 + z) mod 64 = z" using assms(5) by (rule base64)+
  moreover have "q div 64 = x" "q mod 64 = y" unfolding assms(3) using assms(4) by (rule base64)+
  ultimately show ?thesis using assms(1,2) by (simp add: utf8_char_def)
qed

lemma utf8_char_four:
  assumes "65536 \<le> t * 64 + w" "t = q * 64 + z" "q = x * 64 + y" "y < 64" "z < 64" "w < 64"
  shows "utf8_char (t * 64 + w) =
    [char_of (240 + x), char_of (128 + y), char_of (128 + z), char_of (128 + w)]"
proof -
  have "(t * 64 + w) div 64 = t" "(t * 64 + w) mod 64 = w" using assms(6) by (rule base64)+
  moreover have "t div 64 = q" "t mod 64 = z" unfolding assms(2) using assms(5) by (rule base64)+
  moreover have "q div 64 = x" "q mod 64 = y" unfolding assms(3) using assms(4) by (rule base64)+
  ultimately show ?thesis using assms(1) by (simp add: utf8_char_def)
qed

lemma utf8_three:
  assumes "224 \<le> (a::nat)" "a \<le> 239" "second_byte False a b" "cont_byte c"
  shows "utf8_char (((a - 224) * 64 + (b - 128)) * 64 + (c - 128)) = [char_of a, char_of b, char_of c]
    \<and> scalar (((a - 224) * 64 + (b - 128)) * 64 + (c - 128))"
proof -
  from assms(3) obtain y where y: "b = 128 + y" "y < 64" "a = 224 \<Longrightarrow> 32 \<le> y" "a = 237 \<Longrightarrow> y < 32"
    by (rule second_byteE) blast
  from assms(4) obtain z where z: "c = 128 + z" "z < 64" by (rule cont_byteE)
  define x where "x = a - 224"
  with assms have x: "a = 224 + x" "x < 16" by auto
  from x y have "32 \<le> x * 64 + y" "x * 64 + y < 1024" "x * 64 + y < 864 \<or> 896 \<le> x * 64 + y"
    by (cases "x = 0"; cases "x = 13"; simp; linarith)+
  then obtain q where q: "q = x * 64 + y" "32 \<le> q" "q < 1024" "q < 864 \<or> 896 \<le> q" by blast
  then have "2048 \<le> q * 64 + z" "q * 64 + z < 65536" "scalar (q * 64 + z)"
    using z by (auto simp: scalar_def)
  moreover have "((a - 224) * 64 + (b - 128)) * 64 + (c - 128) = q * 64 + z"
    using x y z q by simp
  ultimately show ?thesis
    using utf8_char_three [OF _ _ q(1) y(2) z(2)] x y z by (simp only: simp_thms)
qed

lemma utf8_four:
  assumes "240 \<le> (a::nat)" "a \<le> 244" "second_byte False a b" "cont_byte c" "cont_byte d"
  shows "utf8_char ((((a - 240) * 64 + (b - 128)) * 64 + (c - 128)) * 64 + (d - 128)) =
      [char_of a, char_of b, char_of c, char_of d]
    \<and> scalar ((((a - 240) * 64 + (b - 128)) * 64 + (c - 128)) * 64 + (d - 128))"
proof -
  from assms(3) obtain y where y: "b = 128 + y" "y < 64" "a = 240 \<Longrightarrow> 16 \<le> y" "a = 244 \<Longrightarrow> y < 16"
    by (rule second_byteE) blast
  from assms(4) obtain z where z: "c = 128 + z" "z < 64" by (rule cont_byteE)
  from assms(5) obtain w where w: "d = 128 + w" "w < 64" by (rule cont_byteE)
  define x where "x = a - 240"
  with assms have x: "a = 240 + x" "x < 5" by auto
  from x y have "16 \<le> x * 64 + y" "x * 64 + y < 272"
    by (cases "x = 0"; cases "x = 4"; simp; linarith)+
  then obtain q where q: "q = x * 64 + y" "16 \<le> q" "q < 272" by blast
  then have "1024 \<le> q * 64 + z" "q * 64 + z < 17408" using z by auto
  then obtain t where t: "t = q * 64 + z" "1024 \<le> t" "t < 17408" by blast
  then have "65536 \<le> t * 64 + w" "t * 64 + w < 0x110000" using w by auto
  moreover from this have "scalar (t * 64 + w)" by (simp add: scalar_def)
  moreover have "(((a - 240) * 64 + (b - 128)) * 64 + (c - 128)) * 64 + (d - 128) = t * 64 + w"
    using x y z w q t by simp
  ultimately show ?thesis
    using utf8_char_four [OF _ t(1) q(1) y(2) z(2) w(2)] x y z w by (simp only: simp_thms)
qed

lemma utf8_next_char:
  assumes "utf8_next False s = Some (p, r)"
  shows "s = utf8_char p @ r \<and> scalar p"
proof (cases s)
  case (Cons ca s1)
  have ascii: "(of_char ca :: nat) < 128 \<Longrightarrow> utf8_char (of_char ca) = [ca] \<and> scalar (of_char ca)"
    by (simp add: utf8_char_def scalar_def)
  show ?thesis
    using assms Cons ascii utf8_two utf8_three utf8_four
    by (auto simp: utf8_next_def map_eq_Cons_conv split: list.splits if_splits)
qed (use assms in \<open>simp add: utf8_next_def\<close>)

lemma utf8_next_take:
  assumes "utf8_next False s = Some (p, r)"
  shows "utf8_next False (take (length s - length r) s @ t) = Some (p, t)"
proof -
  let ?o = "of_char :: char \<Rightarrow> nat"
  from assms consider
      a where "s = a # r" "?o a < 128" "p = ?o a"
    | a b where "s = a # b # r" "194 \<le> ?o a" "?o a \<le> 223" "cont_byte (?o b)"
        "p = (?o a - 192) * 64 + (?o b - 128)"
    | a b c where "s = a # b # c # r" "224 \<le> ?o a" "?o a \<le> 239" "second_byte False (?o a) (?o b)"
        "cont_byte (?o c)" "p = ((?o a - 224) * 64 + (?o b - 128)) * 64 + (?o c - 128)"
    | a b c d where "s = a # b # c # d # r" "240 \<le> ?o a" "?o a \<le> 244"
        "second_byte False (?o a) (?o b)" "cont_byte (?o c)" "cont_byte (?o d)"
        "p = (((?o a - 240) * 64 + (?o b - 128)) * 64 + (?o c - 128)) * 64 + (?o d - 128)"
    by (cases s) (auto simp: utf8_next_def map_eq_Cons_conv split: list.splits if_splits)
  then show ?thesis by cases (simp_all add: utf8_next_def)
qed

lemma utf8_next_prefix:
  assumes "utf8_next False s = Some (p, r)"
  shows "utf8_next False (utf8_char p @ t) = Some (p, t)"
  using utf8_next_take [OF assms, of t] utf8_next_char [OF assms] by simp

lemma utf8_next_pass: "utf8_next False s = Some x \<Longrightarrow> utf8_next True s = Some x"
  by (auto simp: utf8_next_def second_byte_def split: list.splits if_splits)

lemma utf8_decode_Nil [simp]: "utf8_decode pass [] = Some []"
  by (simp add: utf8_decode.simps)

lemma utf8_decode_chars:
  "utf8_decode False s = Some ps \<Longrightarrow>
   concat (map utf8_char ps) = s \<and> list_all scalar ps \<and> utf8_decode True s = Some ps"
proof (induction False s arbitrary: ps rule: utf8_decode.induct)
  case (1 s)
  show ?case
  proof (cases "s = []")
    case True
    with 1 show ?thesis by simp
  next
    case False
    with 1(2) obtain p r qs where n: "utf8_next False s = Some (p, r)"
      and qs: "utf8_decode False r = Some qs" and ps: "ps = p # qs"
      by (auto simp: utf8_decode.simps [of False s] split: option.splits)
    from 1(1) [OF False n refl qs] have "concat (map utf8_char qs) = r" "list_all scalar qs"
      "utf8_decode True r = Some qs" by auto
    moreover from this(3) False utf8_next_pass [OF n] have "utf8_decode True s = Some (p # qs)"
      by (simp add: utf8_decode.simps [of True s])
    ultimately show ?thesis using utf8_next_char [OF n] ps by simp
  qed
qed

subsection \<open>Strings\<close>

lemma hex_val_char: "n < 16 \<Longrightarrow> hex_val (hex_char n) = Some n"
  by (simp add: hex_val_def hex_char_def)

lemma hex4_val_char:
  "p < 65536 \<Longrightarrow>
   hex4_val (hex_char (p div 4096)) (hex_char (p div 256 mod 16)) (hex_char (p div 16 mod 16))
     (hex_char (p mod 16)) = Some p"
proof -
  assume p: "p < 65536"
  have "p div 4096 = p div 16 div 16 div 16" "p div 256 = p div 16 div 16"
    by (simp_all add: div_mult2_eq [symmetric])
  moreover from p have "p div 4096 < 16" by simp
  ultimately show ?thesis by (simp add: hex4_val_def hex_val_char)
qed

lemma scan_string_escape_u:
  assumes "p < 65536" "\<not> (0xD800 \<le> p \<and> p \<le> 0xDBFF)"
  shows "scan_string (escape_u p @ t) = prepend (utf8_char p) (scan_string t)"
  using assms by (auto simp: escape_u_def scan_escape_def scan_unicode_def hex4_val_char)

lemma scan_string_escape_pair:
  assumes "0xD800 \<le> h" "h \<le> 0xDBFF" "0xDC00 \<le> l" "l \<le> 0xDFFF"
  shows "scan_string (escape_u h @ escape_u l @ t) =
    prepend (utf8_char (0x10000 + (h - 0xD800) * 1024 + (l - 0xDC00))) (scan_string t)"
  using assms by (simp add: escape_u_def scan_escape_def scan_unicode_def scan_low_def hex4_val_char)

lemma scan_string_escape_simple:
  assumes "simple_escape e = Some c" "e \<noteq> CHR ''u''"
  shows "scan_string (CHR 0x5C # e # t) = prepend [c] (scan_string t)"
  using assms by (simp add: scan_escape_def)

lemma char_of_literals:
  "char_of (34 :: nat) = CHR 0x22" "char_of (92 :: nat) = CHR 0x5C" "char_of (10 :: nat) = CHR 0x0A"
  "char_of (13 :: nat) = CHR 0x0D" "char_of (9 :: nat) = CHR 0x09" "char_of (12 :: nat) = CHR 0x0C"
  "char_of (8 :: nat) = CHR 0x08"
  by code_simp+

lemma char_of_neq:
  assumes "(p :: nat) < 256" "p \<noteq> of_char (c :: char)"
  shows "char_of p \<noteq> c"
proof
  assume eq: "char_of p = c"
  have "p = of_char (char_of p :: char)" using assms(1) by simp
  also have "\<dots> = of_char c" by (simp only: eq)
  finally show False using assms(2) by simp
qed

lemma scan_string_escape_char:
  assumes "scalar p"
  shows "scan_string (escape_char p @ t) = prepend (utf8_char p) (scan_string t)"
proof (cases "p < 0x10000")
  case True
  show ?thesis
  proof (cases "0x20 \<le> p \<and> p \<le> 0x7E \<and> p \<noteq> 0x22 \<and> p \<noteq> 0x5C")
    case plain: True
    then have o: "of_char (char_of p :: char) = p" by simp
    have "char_of p \<noteq> CHR 0x22" "char_of p \<noteq> CHR 0x5C"
      by (rule char_of_neq; use plain in simp)+
    with plain show ?thesis by (simp add: escape_char_def utf8_char_def)
  next
    case False
    show ?thesis
    proof (cases "p \<in> {0x22, 0x5C, 0x0A, 0x0D, 0x09, 0x0C, 0x08}")
      case esc: True
      then show ?thesis
        by (elim insertE emptyE)
           (simp_all add: escape_char_def utf8_char_def scan_string_escape_simple simple_escape_def
              char_of_literals del: scan_string.simps)
    next
      case esc: False
      with False True have "escape_char p = escape_u p" by (auto simp: escape_char_def)
      with True assms show ?thesis by (auto simp: scan_string_escape_u scalar_def)
    qed
  qed
next
  case False
  with assms have p: "0x10000 \<le> p" "p < 0x110000" by (auto simp: scalar_def)
  define q where "q = p - 0x10000"
  with p have q: "q < 1048576" "p = 0x10000 + q" by auto
  then have "q div 1024 < 1024" by simp
  moreover have "escape_char p = escape_u (0xD800 + q div 1024) @ escape_u (0xDC00 + q mod 1024)"
    using p by (simp add: escape_char_def q_def)
  ultimately show ?thesis using q(2) by (simp add: scan_string_escape_pair add.commute)
qed

lemma prepend_append: "prepend p (prepend q x) = prepend (p @ q) x"
  by (cases "(q, x)" rule: prepend.cases) auto

lemma scan_string_escaped:
  "list_all scalar ps \<Longrightarrow>
   scan_string (concat (map escape_char ps) @ CHR 0x22 # t) = Inr (concat (map utf8_char ps), t)"
  by (induction ps) (simp_all add: scan_string_escape_char)

definition quote_body :: "string \<Rightarrow> string" where
  "quote_body s = (case utf8_decode True s of Some ps \<Rightarrow> concat (map escape_char ps) | None \<Rightarrow> s)"

lemma quote_str_body: "quote_str s = CHR 0x22 # quote_body s @ [CHR 0x22]"
  by (simp add: quote_str_def quote_body_def split: option.splits)

lemma scan_string_quote: "utf8_ok s \<Longrightarrow> scan_string (quote_body s @ CHR 0x22 # t) = Inr (s, t)"
proof -
  assume "utf8_ok s"
  then obtain ps where ps: "utf8_decode False s = Some ps" by (auto simp: utf8_ok_def)
  from utf8_decode_chars [OF ps] show ?thesis
    by (simp add: quote_body_def scan_string_escaped)
qed


subsection \<open>Numbers\<close>

text \<open>What follows a printed number: nothing, or a character that does not continue it.\<close>

definition ends_number :: "string \<Rightarrow> bool" where
  "ends_number r = (case r of
       [] \<Rightarrow> True
     | c # _ \<Rightarrow> \<not> is_digit c \<and> c \<noteq> CHR ''.'' \<and> c \<noteq> CHR ''e'' \<and> c \<noteq> CHR ''E'')"

lemma takeWhile_digits:
  assumes "\<And>c. c \<in> set s \<Longrightarrow> is_digit c" "ends_number r"
  shows "takeWhile is_digit (s @ r) = s"
  using assms by (cases r) (simp_all add: takeWhile_append2 ends_number_def)

lemma is_digit_minus [simp]: "\<not> is_digit (CHR ''-'')"
  by (simp add: is_digit_def)

lemma scan_int_show: "ends_number r \<Longrightarrow> scan_int (show_nat n @ r) = show_nat n"
proof (cases "show_nat n")
  case (Cons c s)
  assume r: "ends_number r"
  show ?thesis
  proof (cases "c = CHR ''0''")
    case True
    with Cons have "n = 0" using show_nat_head by simp
    then have "show_nat n = [digit_char 0]" by (simp add: show_nat.simps)
    with Cons True show ?thesis by (simp add: scan_int_def)
  next
    case False
    have "takeWhile is_digit (show_nat n @ r) = show_nat n"
      using r by (intro takeWhile_digits) (simp_all add: show_nat_digits)
    with Cons False show ?thesis by (simp add: scan_int_def)
  qed
qed simp

lemma scan_no_frac: "ends_number r \<Longrightarrow> scan_frac r = [] \<and> scan_exp r = []"
  by (auto simp: ends_number_def scan_frac_def scan_exp_def split: list.splits)

lemma show_nat_sign: "scan_sign (show_nat n @ r) = []"
proof (cases "show_nat n")
  case (Cons c s)
  then have "is_digit c" using show_nat_digits [of c n] by simp
  with Cons show ?thesis by (auto simp: scan_sign_def)
qed simp

text \<open>A number below \<open>10 ^ k\<close> has at most \<open>k\<close> digits.\<close>

lemma length_show_nat: "n < 10 ^ k \<Longrightarrow> 0 < k \<Longrightarrow> length (show_nat n) \<le> k"
proof (induction k arbitrary: n)
  case (Suc k)
  show ?case
  proof (cases "n < 10")
    case True
    then show ?thesis by (simp add: show_nat.simps)
  next
    case False
    with Suc.prems have "n div 10 < 10 ^ k" by (simp add: div_less_iff_less_mult mult.commute)
    moreover from False Suc.prems have "0 < k" by (cases k) auto
    ultimately have "length (show_nat (n div 10)) \<le> k" by (rule Suc.IH)
    with False show ?thesis by (simp add: show_nat.simps [of n])
  qed
qed simp

lemma max_int_digits_pos: "0 < max_int_digits"
  by (simp add: max_int_digits_def)

lemma scan_number_show:
  assumes "ends_number r" "int_ok i"
  shows "scan_number (show_int i @ r) = Inr (PInt i, r)"
proof -
  have len: "length (show_nat (nat \<bar>i\<bar>)) \<le> max_int_digits"
    using assms(2) by (intro length_show_nat) (simp_all add: int_ok_def nat_less_iff max_int_digits_pos)
  have neg: "scan_sign (CHR ''-'' # s) = ''-''" for s by (simp add: scan_sign_def)
  note facts = scan_no_frac [OF assms(1)] scan_int_show [OF assms(1)] show_nat_sign
  show ?thesis
  proof (cases "i < 0")
    case True
    with len have "length (show_nat (nat (- i))) \<le> max_int_digits" by simp
    with True show ?thesis
      by (simp add: scan_number_def Let_def show_int_def facts neg)
  next
    case False
    with len show ?thesis
      by (simp add: scan_number_def Let_def show_int_def facts)
  qed
qed


subsection \<open>Values\<close>

text \<open>The values that survive a round trip.\<close>

primrec json_ok :: "pyval \<Rightarrow> bool" where
  "json_ok PNone = True"
| "json_ok (PBool b) = True"
| "json_ok (PInt i) = int_ok i"
| "json_ok (PFloat s) = False"
| "json_ok (PStr s) = utf8_ok s"
| "json_ok (PBytes s) = False"
| "json_ok (PList xs) = list_all (\<lambda>b. b) (map json_ok xs)"
| "json_ok (PDict d) = (dict_ok d \<and> list_all utf8_ok (dict_keys d)
     \<and> list_all (\<lambda>b. b) (map snd (map (map_prod (\<lambda>k. k) json_ok) d)))"

lemma json_ok_PList [simp]: "json_ok (PList xs) \<longleftrightarrow> (\<forall>x \<in> set xs. json_ok x)"
  by (simp add: list_all_iff)

lemma json_ok_PDict [simp]:
  "json_ok (PDict d) \<longleftrightarrow> dict_ok d \<and> (\<forall>(k, v) \<in> set d. utf8_ok k \<and> json_ok v)"
  by (auto simp: list_all_iff)

declare json_ok.simps(7,8) [simp del]

definition dump_item :: "(pyval \<Rightarrow> string) \<Rightarrow> string \<times> pyval \<Rightarrow> string" where
  "dump_item rp kv = quote_str (fst kv) @ CHR '':'' # CHR '' '' # dump_text rp (snd kv)"

lemma dump_text_PDict [simp]:
  "dump_text rp (PDict d) = CHR 0x7B # join '', '' (map (dump_item rp) d) @ [CHR 0x7D]"
  by (simp add: comp_def case_prod_beta dump_item_def [abs_def])

declare dump_text.simps(8) [simp del]

lemma show_int_head: "\<exists>c s. show_int i = c # s \<and> (is_digit c \<or> c = CHR ''-'' \<and> (\<exists>d u. s = d # u \<and> is_digit d))"
proof -
  obtain c s where "show_nat (nat \<bar>i\<bar>) = c # s" by (cases "show_nat (nat \<bar>i\<bar>)") auto
  moreover from this have "is_digit c" using show_nat_digits [of c "nat \<bar>i\<bar>"] by simp
  ultimately show ?thesis by (cases "i < 0") (auto simp: show_int_def)
qed

lemma digit_not_special:
  assumes "is_digit c"
  shows "\<not> is_ws c" "c \<notin> {CHR 0x22, CHR 0x7B, CHR 0x5B, CHR 0x5D, CHR 0x7D, CHR ''n'', CHR ''t'', CHR ''f'',
    CHR ''N'', CHR ''I'', CHR ''-''}"
  using assms by (auto simp: is_digit_def is_ws_def)

lemma dump_text_head:
  assumes "json_ok v"
  obtains c s where "dump_text rp v = c # s" "\<not> is_ws c" "c \<noteq> CHR 0x5D" "c \<noteq> CHR 0x7D"
proof (cases v)
  case (PInt i)
  with show_int_head [of i] digit_not_special that show ?thesis
    by (auto simp: is_ws_def)
next
  case (PBool b)
  with that show ?thesis by (cases b) (auto simp: is_ws_def)
qed (use assms that in \<open>auto simp: quote_str_def is_ws_def split: if_splits\<close>)

lemma skip_ws_dump: "json_ok v \<Longrightarrow> skip_ws (dump_text rp v @ r) = dump_text rp v @ r"
  by (rule dump_text_head [of v rp]) (auto simp: skip_ws_def)

lemma expect_dump: "json_ok v \<Longrightarrow> x \<in> {CHR 0x5D, CHR 0x7D} \<Longrightarrow> expect x (dump_text rp v @ r) = None"
  by (rule dump_text_head [of v rp]) (auto simp: expect_def)

lemma skip_ws_punct [simp]:
  "skip_ws (CHR '','' # s) = CHR '','' # s" "skip_ws (CHR 0x5D # s) = CHR 0x5D # s"
  "skip_ws (CHR 0x7D # s) = CHR 0x7D # s" "skip_ws (CHR '':'' # s) = CHR '':'' # s"
  "skip_ws (CHR 0x22 # s) = CHR 0x22 # s" "skip_ws (CHR '' '' # s) = skip_ws s" "skip_ws [] = []"
  by (simp_all add: skip_ws_def is_ws_def)

lemma ends_number_punct [simp]:
  "ends_number (CHR '','' # s)" "ends_number (CHR 0x5D # s)" "ends_number (CHR 0x7D # s)" "ends_number []"
  by (simp_all add: ends_number_def is_digit_def)

lemma expect_Cons [simp]: "expect x (c # s) = (if c = x then Some s else None)"
  by (simp add: expect_def)

lemma token_Cons [simp]: "token x (c # s) = (if c = x then Inr ((), s) else Inl Malformed)"
  by (simp add: token_def)

lemma jbind_simps [simp]: "jbind (Inr (a, r)) k = k a r" "jbind (Inl e) k = Inl e"
  by (simp_all add: jbind_def)

lemma scan_key_quote:
  "utf8_ok k \<Longrightarrow> scan_key (quote_str k @ CHR '':'' # CHR '' '' # t) = Inr (k, skip_ws t)"
  by (simp add: scan_key_def quote_str_body scan_string_quote)

definition reads_back :: "(pyval \<Rightarrow> string) \<Rightarrow> pyval \<Rightarrow> bool" where
  "reads_back rp v \<longleftrightarrow> (\<forall>n r. ends_number r \<longrightarrow> 2 * length (dump_text rp v @ r) + 1 \<le> n \<longrightarrow>
     scan_value n (dump_text rp v @ r) = Inr (v, r))"

lemma scan_elems_join:
  assumes "xs \<noteq> []" "\<And>x. x \<in> set xs \<Longrightarrow> json_ok x \<and> reads_back rp x"
    "2 * length (join '', '' (map (dump_text rp) xs) @ CHR 0x5D # r) + 2 \<le> n"
  shows "scan_elems n (join '', '' (map (dump_text rp) xs) @ CHR 0x5D # r) = Inr (xs, r)"
  using assms
proof (induction xs arbitrary: n)
  case (Cons x xs)
  from Cons.prems(3) obtain m where n: "n = Suc m" by (cases n) auto
  from Cons.prems(2) have x: "json_ok x" "reads_back rp x" by auto
  show ?case
  proof (cases xs)
    case Nil
    with Cons.prems(3) n x show ?thesis by (simp add: reads_back_def)
  next
    case (Cons y ys)
    let ?rest = "join '', '' (map (dump_text rp) xs) @ CHR 0x5D # r"
    have tx: "join '', '' (map (dump_text rp) (x # xs)) @ CHR 0x5D # r =
        dump_text rp x @ CHR '','' # CHR '' '' # ?rest"
      using Cons by simp
    have v: "scan_value m (dump_text rp x @ CHR '','' # CHR '' '' # ?rest) =
        Inr (x, CHR '','' # CHR '' '' # ?rest)"
      using x(2) Cons.prems(3) n unfolding tx reads_back_def by simp
    have ws: "skip_ws ?rest = ?rest"
      using Cons.prems(2) skip_ws_dump [of y rp] Cons by (cases ys) auto
    have "scan_elems m ?rest = Inr (xs, r)"
      using Cons.prems(2,3) n unfolding tx by (intro Cons.IH) (auto simp: Cons)
    then show ?thesis unfolding tx n by (simp add: v ws)
  qed
qed simp


lemma update_new: "k \<notin> set (dict_keys d) \<Longrightarrow> AList.update k v d = d @ [(k, v)]"
  by (induction d) auto

lemma scan_items_join:
  assumes "d \<noteq> []" "\<And>k v. (k, v) \<in> set d \<Longrightarrow> utf8_ok k \<and> json_ok v \<and> reads_back rp v"
    "dict_ok (acc @ d)"
    "2 * length (join '', '' (map (dump_item rp) d) @ CHR 0x7D # r) + 2 \<le> n"
  shows "scan_items n acc (join '', '' (map (dump_item rp) d) @ CHR 0x7D # r) = Inr (acc @ d, r)"
  using assms
proof (induction d arbitrary: n acc)
  case (Cons kv d)
  obtain k v where kv: "kv = (k, v)" by (cases kv)
  from Cons.prems(4) obtain m where n: "n = Suc m" by (cases n) auto
  from Cons.prems(2) kv have kv_ok: "utf8_ok k" "json_ok v" "reads_back rp v" by auto
  from Cons.prems(3) kv have upd: "AList.update k v acc = acc @ [kv]"
    by (intro update_new [THEN trans]) (auto simp: dict_ok_def)
  show ?case
  proof (cases d)
    case Nil
    with Cons.prems(4) n kv kv_ok upd show ?thesis
      by (simp add: reads_back_def scan_key_quote skip_ws_dump dump_item_def)
  next
    case (Cons y ys)
    let ?rest = "join '', '' (map (dump_item rp) d) @ CHR 0x7D # r"
    let ?after = "CHR '','' # CHR '' '' # ?rest"
    have tx: "join '', '' (map (dump_item rp) (kv # d)) @ CHR 0x7D # r =
        quote_str k @ CHR '':'' # CHR '' '' # dump_text rp v @ ?after"
      using Cons kv by (simp add: dump_item_def [of rp "(k, v)"])
    have v: "scan_value m (dump_text rp v @ ?after) = Inr (v, ?after)"
      using kv_ok(3) Cons.prems(4) n unfolding tx reads_back_def by simp
    have ws: "skip_ws ?rest = ?rest"
      using Cons by (cases ys) (auto simp: quote_str_body dump_item_def)
    have "scan_items m (acc @ [kv]) ?rest = Inr ((acc @ [kv]) @ d, r)"
      using Cons.prems(2-4) n unfolding tx by (intro Cons.IH) (auto simp: Cons)
    then show ?thesis unfolding tx n by (simp add: scan_key_quote kv_ok skip_ws_dump v ws upd)
  qed
qed simp

lemma starts_Cons: "starts (x # p) (c # s) \<longleftrightarrow> c = x \<and> starts p s"
  by (simp add: starts_def)

lemma starts_Nil [simp]: "starts [] s"
  by (simp add: starts_def)

lemma scan_value_digit: "is_digit c \<Longrightarrow> scan_value (Suc m) (c # s) = scan_number (c # s)"
  using digit_not_special(2) [of c] by (simp add: starts_Cons)

lemma scan_value_minus:
  "is_digit d \<Longrightarrow> scan_value (Suc m) (CHR ''-'' # d # s) = scan_number (CHR ''-'' # d # s)"
  using digit_not_special(2) [of d] by (simp add: starts_Cons)

lemma scan_value_show_int: "scan_value (Suc m) (show_int i @ r) = scan_number (show_int i @ r)"
  using show_int_head [of i] by (auto simp: scan_value_digit scan_value_minus simp del: scan_value.simps)

lemma reads_backI:
  assumes "\<And>m r. ends_number r \<Longrightarrow> 2 * length (dump_text rp v @ r) \<le> m \<Longrightarrow>
    scan_value (Suc m) (dump_text rp v @ r) = Inr (v, r)"
  shows "reads_back rp v"
  unfolding reads_back_def
proof (intro allI impI)
  fix n r assume "ends_number r" "2 * length (dump_text rp v @ r) + 1 \<le> n"
  then show "scan_value n (dump_text rp v @ r) = Inr (v, r)"
    using assms [of r "n - 1"] by (cases n) auto
qed

lemma reads_back_PList:
  assumes "\<And>x. x \<in> set xs \<Longrightarrow> json_ok x \<and> reads_back rp x"
  shows "reads_back rp (PList xs)"
proof (rule reads_backI)
  fix m r assume m: "2 * length (dump_text rp (PList xs) @ r) \<le> m"
  show "scan_value (Suc m) (dump_text rp (PList xs) @ r) = Inr (PList xs, r)"
  proof (cases xs)
    case Nil
    then show ?thesis by simp
  next
    case (Cons x ys)
    let ?t = "join '', '' (map (dump_text rp) xs) @ CHR 0x5D # r"
    have "skip_ws ?t = ?t" "expect (CHR 0x5D) ?t = None"
      using Cons assms skip_ws_dump [of x rp] expect_dump [of x _ rp] by (cases ys; simp)+
    moreover have "scan_elems m ?t = Inr (xs, r)"
      using Cons assms m by (intro scan_elems_join) auto
    ultimately show ?thesis by simp
  qed
qed

lemma reads_back_PDict:
  assumes "dict_ok d" "\<And>k v. (k, v) \<in> set d \<Longrightarrow> utf8_ok k \<and> json_ok v \<and> reads_back rp v"
  shows "reads_back rp (PDict d)"
proof (rule reads_backI)
  fix m r assume m: "2 * length (dump_text rp (PDict d) @ r) \<le> m"
  show "scan_value (Suc m) (dump_text rp (PDict d) @ r) = Inr (PDict d, r)"
  proof (cases d)
    case Nil
    then show ?thesis by simp
  next
    case (Cons kv d')
    let ?t = "join '', '' (map (dump_item rp) d) @ CHR 0x7D # r"
    have "skip_ws ?t = ?t" "expect (CHR 0x7D) ?t = None"
      using Cons by (cases d'; simp add: dump_item_def quote_str_body)+
    moreover have "scan_items m [] ?t = Inr ([] @ d, r)"
      using Cons assms m by (intro scan_items_join) auto
    ultimately show ?thesis by simp
  qed
qed

lemma reads_back_ok: "json_ok v \<Longrightarrow> reads_back rp v"
proof (induction v)
  case (PInt i)
  then show ?case
    by (intro reads_backI) (simp add: scan_value_show_int scan_number_show del: scan_value.simps)
next
  case (PBool b)
  show ?case by (rule reads_backI) (cases b, simp_all add: starts_def)
next
  case (PStr s)
  then show ?case by (intro reads_backI) (simp add: quote_str_body scan_string_quote)
next
  case (PList xs)
  then show ?case by (intro reads_back_PList) auto
next
  case (PDict d)
  then show ?case by (intro reads_back_PDict) (auto simp: snds.simps)
next
  case PNone
  show ?case by (rule reads_backI) (simp add: starts_def)
qed simp_all

lemma first_some_None: "first_some xs = None \<longleftrightarrow> (\<forall>x \<in> set xs. x = None)"
  by (induction xs rule: first_some.induct) auto

lemma dump_error_ok: "json_ok v \<Longrightarrow> dump_error v = None"
proof (induction v)
  case (PDict d)
  then show ?case by (fastforce simp: first_some_None snds.simps)
qed (auto simp: first_some_None)

lemma scan_document_dump: "json_ok v \<Longrightarrow> scan_document (dump_text rp v) = Inr v"
proof -
  assume v: "json_ok v"
  have "scan_value (2 * length (dump_text rp v) + 1) (dump_text rp v) = Inr (v, [])"
    using reads_back_ok [OF v, of rp] unfolding reads_back_def
    by (metis append_Nil2 ends_number_punct(4) le_refl)
  moreover have "skip_ws (dump_text rp v) = dump_text rp v"
    using skip_ws_dump [OF v, of rp "[]"] by simp
  ultimately show ?thesis by (simp add: scan_document_def)
qed

text \<open>What is printed is ASCII and has no control character.\<close>

definition printable :: "string \<Rightarrow> bool" where
  "printable s \<longleftrightarrow> (\<forall>c \<in> set s. 32 \<le> (of_char c :: nat) \<and> (of_char c :: nat) < 127)"

lemma printable_simps [simp]:
  "printable []" "printable (s @ t) \<longleftrightarrow> printable s \<and> printable t"
  "printable (c # s) \<longleftrightarrow> 32 \<le> (of_char c :: nat) \<and> (of_char c :: nat) < 127 \<and> printable s"
  by (auto simp: printable_def)

lemma hex_char_printable: "n < 16 \<Longrightarrow> 32 \<le> (of_char (hex_char n) :: nat) \<and> (of_char (hex_char n) :: nat) < 127"
  by (simp add: hex_char_def)

lemma escape_u_printable: "n < 65536 \<Longrightarrow> printable (escape_u n)"
  by (simp add: escape_u_def hex_char_printable)

lemma escape_char_printable: "scalar p \<Longrightarrow> printable (escape_char p)"
  by (auto simp: escape_char_def scalar_def intro!: escape_u_printable)

lemma quote_str_printable: "utf8_ok s \<Longrightarrow> printable (quote_str s)"
proof -
  assume "utf8_ok s"
  then obtain ps where ps: "utf8_decode False s = Some ps" by (auto simp: utf8_ok_def)
  from utf8_decode_chars [OF ps] have "utf8_decode True s = Some ps" "list_all scalar ps" by auto
  moreover from this(2) have "printable (concat (map escape_char ps))"
    by (induction ps) (simp_all add: escape_char_printable)
  ultimately show ?thesis by (simp add: quote_str_def)
qed

lemma show_int_printable: "printable (show_int i)"
  using show_nat_digits by (fastforce simp: printable_def show_int_def is_digit_def)

lemma join_printable: "(\<And>x. x \<in> set xs \<Longrightarrow> printable x) \<Longrightarrow> printable (join '', '' xs)"
  by (induction "'', ''" xs rule: join.induct) auto

lemma dump_text_printable: "json_ok v \<Longrightarrow> printable (dump_text rp v)"
proof (induction v)
  case (PDict d)
  then have "printable (dump_item rp kv)" if "kv \<in> set d" for kv
    using that by (cases kv) (fastforce simp: dump_item_def quote_str_printable snds.simps)
  then show ?case by (auto intro!: join_printable)
qed (auto simp: quote_str_printable show_int_printable intro!: join_printable)

lemma utf8_decode_printable: "printable s \<Longrightarrow> utf8_decode pass s = Some (map of_char s)"
proof (induction s)
  case (Cons c s)
  then have "utf8_next pass (c # s) = Some (of_char c, s)" by (simp add: utf8_next_def)
  with Cons show ?case by (simp add: utf8_decode.simps [of pass "c # s"])
qed simp

lemma starts_high:
  assumes "printable s" "127 \<le> (of_char c :: nat)"
  shows "\<not> starts (c # p) s"
  using assms by (cases s) (auto simp: starts_Cons, simp add: starts_def)

lemma detect_printable:
  assumes "printable s"
  shows "detect_encoding s = (Utf8, 0)"
proof -
  have nz: "s ! i \<noteq> CHR 0x00" if "i < length s" for i
    using assms nth_mem [OF that] by (auto simp: printable_def)
  have "\<not> starts [CHR 0x00, CHR 0x00, CHR 0xFE, CHR 0xFF] s"
    using assms by (cases s) (auto simp: starts_Cons, simp add: starts_def)
  moreover have "4 \<le> length s \<Longrightarrow> s ! 0 \<noteq> CHR 0x00 \<and> s ! 1 \<noteq> CHR 0x00"
    and "length s = 2 \<Longrightarrow> s ! 0 \<noteq> CHR 0x00 \<and> s ! 1 \<noteq> CHR 0x00"
    by (intro conjI nz; linarith)+
  ultimately show ?thesis
    by (auto simp: detect_encoding_def Let_def bom8_def starts_high [OF assms])
qed

text \<open>
  \<open>json.loads\<close> reads back what \<open>json.dumps\<close> prints, from the text and from its bytes.
\<close>

theorem loads_dumps:
  assumes "json_ok v"
  shows "json_dumps rp v = Inr (dump_text rp v)
    \<and> json_loads_str (dump_text rp v) = Inr v \<and> json_loads_bytes (dump_text rp v) = Inr v"
proof -
  note pr = dump_text_printable [OF assms, of rp]
  have "\<not> starts bom8 (dump_text rp v)" by (simp add: bom8_def starts_high [OF pr])
  moreover have "decode_json_bytes (dump_text rp v) = Some (dump_text rp v)"
    by (simp add: decode_json_bytes_def detect_printable [OF pr] utf8_decode_printable [OF pr])
  ultimately show ?thesis
    by (simp add: json_dumps_def dump_error_ok [OF assms] json_loads_str_def json_loads_bytes_def
        scan_document_dump [OF assms])
qed

text \<open>What \<open>decode(errors="replace")\<close> returns is always a proper string.\<close>

lemma utf8_ok_char:
  assumes "utf8_next False (utf8_char p @ t) = Some (p, t)" "utf8_ok t" "utf8_char p \<noteq> []"
  shows "utf8_ok (utf8_char p @ t)"
  using assms by (auto simp: utf8_ok_def utf8_decode.simps [of False "utf8_char p @ t"])

lemma utf8_ok_replace: "utf8_ok (utf8_replace s)"
proof (induction s rule: utf8_replace.induct)
  case (1 s)
  have ne: "utf8_char p \<noteq> []" for p by (simp add: utf8_char_def)
  have bad: "utf8_next False (utf8_char 0xFFFD @ t) = Some (0xFFFD, t)" for t
    by (simp add: utf8_next_def utf8_char_def cont_byte_def second_byte_def)
  show ?case
  proof (cases "s = []")
    case False
    show ?thesis
    proof (cases "utf8_next False s")
      case None
      with 1(1) [OF False None] False show ?thesis
        by (simp add: utf8_replace.simps [of s] utf8_ok_char [OF bad _ ne])
    next
      case (Some x)
      obtain p r where x: "x = (p, r)" by (cases x)
      from 1(2) [OF False Some] False Some x show ?thesis
        by (simp add: utf8_replace.simps [of s] utf8_ok_char [OF utf8_next_prefix [OF Some [unfolded x]] _ ne])
    qed
  qed (simp add: utf8_replace.simps [of "[]"] utf8_ok_def)
qed

end
