(* ===== verification/Redis_Store.thy ===== *)
theory Redis_Store
  imports Dedup_Store Json_Roundtrip
begin

section \<open>The Redis store\<close>

text \<open>
  \<open>src/dedup/redis_store.py\<close>: the two Lua scripts and the methods of
  \<open>RedisDeduplicationStore\<close> around them.
  \<^item> \<open>redis_env\<close> collects what the module calls and does not define: the commands of the server
    over its state \<open>'r\<close>, at the server's instant (microseconds since the epoch); Lua's \<open>cjson\<close>
    and \<open>tonumber\<close>; the pydantic coercions of \<open>ProcessingStatus(**data)\<close>; \<open>repr\<close> of a value;
    the consumer's own clock; and \<open>r_fault\<close>, when a request raises in the client, and what then becomes
    of the server, given its state after the request.
  \<^item> A Lua table decoded from a JSON object is its dictionary; \<open>cjson.null\<close> is \<open>PNone\<close> and an
    integral number is a \<open>PInt\<close>. A field set to \<open>nil\<close> is removed.
  \<^item> A script runs as one step on the server and is undone by nothing, also when it ends in an error, which becomes
    the client's \<open>ResponseError\<close>.
  What the store relies on is stated in \<open>Redis_Contract\<close>, as the locale \<open>redis_backend\<close>.
\<close>

record 'r redis_env =
  r_get :: "int \<Rightarrow> string \<Rightarrow> 'r \<Rightarrow> string option"
  r_set_px :: "int \<Rightarrow> string \<Rightarrow> string \<Rightarrow> int \<Rightarrow> 'r \<Rightarrow> 'r option"
  r_set_keepttl :: "int \<Rightarrow> string \<Rightarrow> string \<Rightarrow> 'r \<Rightarrow> 'r"
  r_del :: "int \<Rightarrow> string \<Rightarrow> 'r \<Rightarrow> 'r"
  r_fault :: "int \<Rightarrow> 'r \<Rightarrow> (('r \<Rightarrow> 'r) \<times> exn) option"
  r_encode :: "pyval \<Rightarrow> string option"
  r_decode :: "string \<Rightarrow> pyval option"
  r_tonumber :: "pyval \<Rightarrow> int option"
  r_local_clock :: "int \<Rightarrow> int"
  r_repr :: "pyval \<Rightarrow> string"
  r_timestamp :: "pyval \<Rightarrow> int res"
  r_to_str :: "pyval \<Rightarrow> string option"
  r_to_int :: "pyval \<Rightarrow> int option"
  r_to_time :: "pyval \<Rightarrow> int option"

subsection \<open>Instants\<close>

text \<open>
  \<open>datetime.now(UTC).isoformat()\<close> of an instant, in the proleptic Gregorian calendar; a whole second
  is printed without the fraction.
\<close>

definition civil :: "int \<Rightarrow> int \<times> int \<times> int" where
  "civil days =
     (let z = days + 719468; era = z div 146097; doe = z mod 146097;
          yoe = (doe - doe div 1460 + doe div 36524 - doe div 146096) div 365;
          doy = doe - (365 * yoe + yoe div 4 - yoe div 100);
          mp = (5 * doy + 2) div 153;
          d = doy - (153 * mp + 2) div 5 + 1;
          m = (if mp < 10 then mp + 3 else mp - 9)
      in (yoe + era * 400 + (if m \<le> 2 then 1 else 0), m, d))"

definition pad :: "nat \<Rightarrow> int \<Rightarrow> string" where
  "pad w n = (let s = show_nat (nat n) in replicate (w - length s) (CHR ''0'') @ s)"

definition isoformat_utc :: "int \<Rightarrow> string" where
  "isoformat_utc now =
     (let (y, m, d) = civil (now div 86400000000); us = now mod 86400000000;
          s = us div 1000000; f = us mod 1000000
      in pad 4 y @ ''-'' @ pad 2 m @ ''-'' @ pad 2 d @ ''T''
         @ pad 2 (s div 3600) @ '':'' @ pad 2 (s div 60 mod 60) @ '':'' @ pad 2 (s mod 60)
         @ (if f = 0 then [] else ''.'' @ pad 6 f) @ ''+00:00'')"

definition now_iso :: "'r redis_env \<Rightarrow> int \<Rightarrow> string" where
  "now_iso env now = isoformat_utc (r_local_clock env now)"

definition redis_key :: "string \<Rightarrow> string" where
  "redis_key message_id = ''dedup:'' @ message_id"

subsection \<open>The Lua scripts\<close>

text \<open>
  The fields a script can read from a decoded value; \<open>None\<close> is the error of indexing a number, a
  boolean or \<open>cjson.null\<close>. Arrays and strings have none of the named fields.
\<close>

fun lua_fields :: "pyval \<Rightarrow> (string, pyval) dict option" where
  "lua_fields (PDict d) = Some d"
| "lua_fields (PList xs) = Some []"
| "lua_fields (PStr s) = Some []"
| "lua_fields _ = None"

text \<open>\<open>tonumber(rec[k])\<close>, where a missing field is \<open>nil\<close>.\<close>

definition lua_number :: "'r redis_env \<Rightarrow> string \<Rightarrow> (string, pyval) dict \<Rightarrow> int option" where
  "lua_number env k rec = (case map_of rec k of None \<Rightarrow> None | Some v \<Rightarrow> r_tonumber env v)"

definition ResponseError :: exn where
  "ResponseError = Exc ''ResponseError'' []"

text \<open>The whole milliseconds of \<open>TIME\<close>, from its seconds and microseconds.\<close>

definition time_ms :: "int \<Rightarrow> int" where
  "time_ms now = now div 1000000 * 1000 + now mod 1000000 div 1000"

definition lua_claim ::
    "'r redis_env \<Rightarrow> string \<Rightarrow> string \<Rightarrow> int \<Rightarrow> int \<Rightarrow> int \<Rightarrow> string \<Rightarrow> string \<Rightarrow> int \<Rightarrow> ('r, int) eff" where
  "lua_claim env key message_id ttl_ms lease_ms retries retry_flag stamp now r =
     (let now_ms = time_ms now in
      case r_get env now key r of
        None \<Rightarrow>
          (case r_encode env (PDict
              [(''message_id'', PStr message_id), (''status'', PStr ''PROCESSING''),
               (''attempts'', PInt 1), (''created_at'', PStr stamp), (''updated_at'', PStr stamp),
               (''lease_until_ms'', PInt (now_ms + lease_ms))]) of
             None \<Rightarrow> (Inl ResponseError, r)
           | Some text \<Rightarrow> (case r_set_px env now key text ttl_ms r of
               None \<Rightarrow> (Inl ResponseError, r)
             | Some r' \<Rightarrow> (Inr 1, r')))
      | Some raw \<Rightarrow>
          (case Option.bind (r_decode env raw) lua_fields of
             None \<Rightarrow> (Inl ResponseError, r)
           | Some rec \<Rightarrow>
               (let attempts = (case lua_number env ''attempts'' rec of Some n \<Rightarrow> n | None \<Rightarrow> 1);
                    lease = lua_number env ''lease_until_ms'' rec;
                    retryable = map_of rec ''status'' = Some (PStr ''FAILED'')
                                \<and> retry_flag = ''1'' \<and> attempts < retries;
                    orphaned = map_of rec ''status'' = Some (PStr ''PROCESSING'')
                               \<and> (case lease of None \<Rightarrow> False | Some l \<Rightarrow> l \<le> now_ms)
                in if \<not> (retryable \<or> orphaned) then (Inr 0, r)
                   else
                     (let rec1 = AList.update ''status'' (PStr ''PROCESSING'') rec;
                          rec2 = AList.update ''attempts'' (PInt (attempts + 1)) rec1;
                          rec3 = AList.delete ''error'' rec2;
                          rec4 = AList.update ''updated_at'' (PStr stamp) rec3;
                          rec5 = AList.update ''lease_until_ms'' (PInt (now_ms + lease_ms)) rec4
                      in case r_encode env (PDict rec5) of
                           None \<Rightarrow> (Inl ResponseError, r)
                         | Some text \<Rightarrow> (Inr 1, r_set_keepttl env now key text r)))))"

definition lua_update_status ::
    "'r redis_env \<Rightarrow> string \<Rightarrow> string \<Rightarrow> string \<Rightarrow> string \<Rightarrow> string \<Rightarrow> string \<Rightarrow> int \<Rightarrow> ('r, int) eff" where
  "lua_update_status env key status stamp result_json error attempts now r =
     (case r_get env now key r of
        None \<Rightarrow> (Inr (-1), r)
      | Some raw \<Rightarrow>
          (case Option.bind (r_decode env raw) lua_fields of
             None \<Rightarrow> (Inl ResponseError, r)
           | Some rec \<Rightarrow>
               if map_of rec ''status'' \<noteq> Some (PStr ''PROCESSING'') then (Inr 0, r)
               else
                 (let rec1 = AList.update ''status'' (PStr status) rec;
                      rec2 = AList.update ''updated_at'' (PStr stamp) rec1
                  in case (if result_json = [] then Some rec2
                           else map_option (\<lambda>v. AList.update ''result'' v rec2) (r_decode env result_json)) of
                       None \<Rightarrow> (Inl ResponseError, r)
                     | Some rec3 \<Rightarrow>
                         (let rec4 = (if error = [] then rec3 else AList.update ''error'' (PStr error) rec3);
                              rec5 = (if attempts = [] then rec4
                                      else case r_tonumber env (PStr attempts) of
                                             Some n \<Rightarrow> AList.update ''attempts'' (PInt n) rec4
                                           | None \<Rightarrow> AList.delete ''attempts'' rec4);
                              rec6 = AList.delete ''lease_until_ms'' rec5
                          in case r_encode env (PDict rec6) of
                               None \<Rightarrow> (Inl ResponseError, r)
                             | Some text \<Rightarrow> (Inr 1, r_set_keepttl env now key text r)))))"

subsection \<open>The methods\<close>

text \<open>A request to the server: the client gets the answer, or an exception of its own.\<close>

definition request :: "'r redis_env \<Rightarrow> int \<Rightarrow> ('r, 'a) eff \<Rightarrow> ('r, 'a) eff" where
  "request env now f r = (case r_fault env now r of
       None \<Rightarrow> f r
     | Some (leaves, e) \<Rightarrow> (Inl e, leaves (snd (f r))))"

definition redis_claim ::
    "'r redis_env \<Rightarrow> DeduplicationConfig \<Rightarrow> string \<Rightarrow> int \<Rightarrow> ('r, bool) eff" where
  "redis_claim env cfg message_id now =
     bind_eff (request env now (lua_claim env (redis_key message_id) message_id
         (ttl_seconds cfg * 1000) (processing_timeout_seconds cfg * 1000) (max_retries cfg)
         (if retry_failed cfg then ''1'' else ''0'') (now_iso env now) now))
       (\<lambda>claimed. ret (claimed \<noteq> 0))"

definition redis_is_duplicate :: "'r redis_env \<Rightarrow> string \<Rightarrow> int \<Rightarrow> ('r, bool) eff" where
  "redis_is_duplicate env message_id now =
     request env now (\<lambda>r. (Inr (r_get env now (redis_key message_id) r \<noteq> None), r))"

definition run_update_script ::
    "'r redis_env \<Rightarrow> string \<Rightarrow> StatusValue \<Rightarrow> string \<Rightarrow> string \<Rightarrow> string \<Rightarrow> int \<Rightarrow> ('r, int) eff" where
  "run_update_script env message_id status result_json error attempts now =
     request env now (lua_update_status env (redis_key message_id) (status_text status)
       (now_iso env now) result_json error attempts now)"

definition redis_mark_completed :: "'r redis_env \<Rightarrow> string \<Rightarrow> pyval \<Rightarrow> int \<Rightarrow> ('r, unit) eff" where
  "redis_mark_completed env message_id result now =
     (case (if result = PNone then Inr [] else json_dumps (r_repr env) result) of
        Inl e \<Rightarrow> raise e
      | Inr result_json \<Rightarrow>
          bind_eff (run_update_script env message_id COMPLETED result_json [] [] now) (\<lambda>_. ret ()))"

definition redis_mark_failed :: "'r redis_env \<Rightarrow> string \<Rightarrow> string \<Rightarrow> int \<Rightarrow> int \<Rightarrow> ('r, unit) eff" where
  "redis_mark_failed env message_id error attempts now =
     bind_eff (run_update_script env message_id FAILED [] error (show_int attempts) now) (\<lambda>_. ret ())"

text \<open>
  \<open>datetime.fromtimestamp(lease_ms / 1000, UTC)\<close>. The division is exact to less than half a microsecond
  up to the year 2242, where the rounding to a microsecond gives the millisecond back.
\<close>

definition from_timestamp_ms :: "'r redis_env \<Rightarrow> pyval \<Rightarrow> int res" where
  "from_timestamp_ms env v = (case v of
       PInt i \<Rightarrow> if \<bar>i\<bar> \<le> 8589934592000 then Inr (i * 1000) else r_timestamp env v
     | _ \<Rightarrow> r_timestamp env v)"

definition ValidationError :: exn where
  "ValidationError = Exc ''ValidationError'' []"

text \<open>
  \<open>ProcessingStatus(**data)\<close>: every field is coerced, a missing optional field takes its default, and
  unknown fields are ignored.
\<close>

definition field :: "string \<Rightarrow> (string, pyval) dict \<Rightarrow> (pyval \<Rightarrow> 'a option) \<Rightarrow> 'a option \<Rightarrow> 'a option" where
  "field k d coerce dflt = (case map_of d k of Some v \<Rightarrow> coerce v | None \<Rightarrow> dflt)"

definition to_status :: "pyval \<Rightarrow> StatusValue option" where
  "to_status v = (case v of PStr s \<Rightarrow> status_of_text s | _ \<Rightarrow> None)"

definition optional :: "(pyval \<Rightarrow> 'a option) \<Rightarrow> pyval \<Rightarrow> 'a option option" where
  "optional coerce v = (if v = PNone then Some None else map_option Some (coerce v))"

definition validate_status ::
    "'r redis_env \<Rightarrow> int \<Rightarrow> int option \<Rightarrow> (string, pyval) dict \<Rightarrow> ProcessingStatus option" where
  "validate_status env now lease d =
     (case (field ''message_id'' d (r_to_str env) None, field ''status'' d to_status None,
            field ''attempts'' d (r_to_int env) (Some 1),
            field ''error'' d (optional (r_to_str env)) (Some None),
            field ''created_at'' d (r_to_time env) (Some (r_local_clock env now)),
            field ''updated_at'' d (r_to_time env) (Some (r_local_clock env now))) of
       (Some m, Some st, Some n, Some e, Some c, Some u) \<Rightarrow>
         Some \<lparr>ps_message_id = m, ps_status = st, ps_attempts = n,
           ps_result = (case map_of d ''result'' of Some v \<Rightarrow> v | None \<Rightarrow> PNone),
           ps_error = e, ps_lease_expires_at = lease, ps_created_at = c, ps_updated_at = u\<rparr>
     | _ \<Rightarrow> None)"

definition parse_status :: "'r redis_env \<Rightarrow> int \<Rightarrow> string \<Rightarrow> ProcessingStatus res" where
  "parse_status env now raw =
     (case json_loads_str raw of
        Inl e \<Rightarrow> Inl e
      | Inr (PDict data) \<Rightarrow>
          (let lease_ms = dict_get ''lease_until_ms'' data;
               rest = AList.delete ''lease_until_ms'' data
           in case (if lease_ms = PNone
                    then (case map_of rest ''lease_expires_at'' of
                            None \<Rightarrow> Inr None
                          | Some v \<Rightarrow> (case optional (r_to_time env) v of
                                Some l \<Rightarrow> Inr l | None \<Rightarrow> Inl ValidationError))
                    else map_sum (\<lambda>e. e) Some (from_timestamp_ms env lease_ms)) of
                Inl e \<Rightarrow> Inl e
              | Inr lease \<Rightarrow> (case validate_status env now lease rest of
                    None \<Rightarrow> Inl ValidationError | Some p \<Rightarrow> Inr p))
      | Inr (PList xs) \<Rightarrow> Inl (Exc ''TypeError'' [])
      | Inr v \<Rightarrow> Inl (Exc ''AttributeError'' []))"

definition redis_get_status ::
    "'r redis_env \<Rightarrow> string \<Rightarrow> int \<Rightarrow> ('r, ProcessingStatus option) eff" where
  "redis_get_status env message_id now =
     bind_eff (request env now (\<lambda>r. (Inr (r_get env now (redis_key message_id) r), r)))
       (\<lambda>raw. case raw of
          None \<Rightarrow> ret None
        | Some text \<Rightarrow> (case parse_status env now text of Inl e \<Rightarrow> raise e | Inr p \<Rightarrow> ret (Some p)))"

definition redis_delete :: "'r redis_env \<Rightarrow> string \<Rightarrow> int \<Rightarrow> ('r, unit) eff" where
  "redis_delete env message_id now =
     request env now (\<lambda>r. (Inr (), r_del env now (redis_key message_id) r))"

text \<open>\<open>connect\<close> pings the server, \<open>close\<close> closes the client; neither changes the server's data.\<close>

definition redis_connect :: "'r redis_env \<Rightarrow> int \<Rightarrow> ('r, unit) eff" where
  "redis_connect env now = request env now (ret ())"

definition redis_close :: "'r redis_env \<Rightarrow> int \<Rightarrow> ('r, unit) eff" where
  "redis_close env now = request env now (ret ())"

definition redis_ops :: "'r redis_env \<Rightarrow> DeduplicationConfig \<Rightarrow> 'r store_ops" where
  "redis_ops env cfg = \<lparr>op_claim = redis_claim env cfg, op_is_duplicate = redis_is_duplicate env,
     op_mark_completed = redis_mark_completed env, op_mark_failed = redis_mark_failed env,
     op_get_status = redis_get_status env, op_delete = redis_delete env,
     op_close = redis_close env, op_connect = Some (redis_connect env)\<rparr>"

lemma redis_ops_simps [simp]:
  "op_claim (redis_ops env cfg) = redis_claim env cfg"
  "op_is_duplicate (redis_ops env cfg) = redis_is_duplicate env"
  "op_mark_completed (redis_ops env cfg) = redis_mark_completed env"
  "op_mark_failed (redis_ops env cfg) = redis_mark_failed env"
  "op_get_status (redis_ops env cfg) = redis_get_status env"
  "op_delete (redis_ops env cfg) = redis_delete env"
  "op_close (redis_ops env cfg) = redis_close env"
  "op_connect (redis_ops env cfg) = Some (redis_connect env)"
  by (simp_all add: redis_ops_def)

end
