(* ===== verification/Redis_Contract.thy ===== *)
theory Redis_Contract
  imports Redis_Store
begin

section \<open>What the Redis store relies on\<close>

text \<open>
  The locale \<open>redis_backend\<close> names the documented behaviour of the server and of Lua's \<open>cjson\<close> that
  \<open>src/dedup/redis_store.py\<close> needs: \<open>stored r k\<close> is what the server keeps for a key and until when;
  a key past its time is not visible and may be removed by any command. \<open>cjson\<close> keeps the values
  that \<open>cjson_ok\<close> describes, up to the order of the fields.
  The locale gives the contract \<open>guarded_store\<close> (\<open>sublocale\<close>), and so every result about histories.
\<close>

subsection \<open>Values that survive cjson\<close>

text \<open>
  Integers below \<open>10 ^ 14\<close> are printed exactly, floats are not, an empty array becomes an empty object,
  and the nesting is bounded.
\<close>

primrec cjson_ok :: "pyval \<Rightarrow> nat \<Rightarrow> bool" where
  "cjson_ok PNone = (\<lambda>n. True)"
| "cjson_ok (PBool b) = (\<lambda>n. True)"
| "cjson_ok (PInt i) = (\<lambda>n. \<bar>i\<bar> < 10 ^ 14)"
| "cjson_ok (PFloat s) = (\<lambda>n. False)"
| "cjson_ok (PStr s) = (\<lambda>n. utf8_ok s)"
| "cjson_ok (PBytes s) = (\<lambda>n. False)"
| "cjson_ok (PList xs) = (\<lambda>n. 0 < n \<and> xs \<noteq> [] \<and> list_all (\<lambda>p. p (n - 1)) (map cjson_ok xs))"
| "cjson_ok (PDict d) = (\<lambda>n. 0 < n \<and> dict_ok d \<and> list_all utf8_ok (dict_keys d)
     \<and> list_all (\<lambda>p. p (n - 1)) (map snd (map (map_prod (\<lambda>k. k) cjson_ok) d)))"

definition max_depth :: nat where
  "max_depth = 1000"

definition storable_in_redis :: "pyval \<Rightarrow> bool" where
  "storable_in_redis v \<longleftrightarrow> cjson_ok v (max_depth - 1)"

lemma cjson_ok_PDict:
  "cjson_ok (PDict d) n \<longleftrightarrow> 0 < n \<and> dict_ok d \<and>
     (\<forall>k v. map_of d k = Some v \<longrightarrow> utf8_ok k \<and> cjson_ok v (n - 1))"
proof -
  have "list_all utf8_ok (dict_keys d) \<and> list_all (\<lambda>p. p (n - 1)) (map snd (map (map_prod (\<lambda>k. k) cjson_ok) d))
      \<longleftrightarrow> (\<forall>(k, v) \<in> set d. utf8_ok k \<and> cjson_ok v (n - 1))"
    by (auto simp: list_all_iff)
  moreover have "dict_ok d \<Longrightarrow> (k, v) \<in> set d \<longleftrightarrow> map_of d k = Some v" for k v
    by (simp add: dict_ok_def)
  ultimately show ?thesis by (simp only: cjson_ok.simps) blast
qed

lemma cjson_ok_update:
  "cjson_ok (PDict d) n \<Longrightarrow> utf8_ok k \<Longrightarrow> cjson_ok v (n - 1) \<Longrightarrow> cjson_ok (PDict (AList.update k v d)) n"
  by (simp only: cjson_ok_PDict dict_simps) auto

lemma cjson_ok_delete: "cjson_ok (PDict d) n \<Longrightarrow> cjson_ok (PDict (AList.delete k d)) n"
  by (simp only: cjson_ok_PDict dict_simps) auto

lemma same_value_sym: "same_value u v \<Longrightarrow> same_value v u"
proof (induction rule: same_value.induct)
  case (same_List xs ys)
  then have "list_all2 same_value ys xs" by (auto simp: list_all2_conv_all_nth)
  then show ?case by (rule same_value.same_List)
next
  case (same_Dict d d')
  have "rel_option same_value (map_of d' k) (map_of d k)" for k
    using same_Dict [of k] by (cases "map_of d k"; cases "map_of d' k") auto
  then show ?case by (rule same_value.same_Dict)
qed auto

lemma json_ok_cjson: "cjson_ok v n \<Longrightarrow> json_ok v"
proof (induction v arbitrary: n)
  case (PInt i)
  then show ?case by (simp add: int_ok_small)
next
  case (PDict d)
  then show ?case by (fastforce simp: list_all_iff)
qed (auto simp: list_all_iff)

subsection \<open>Stored records\<close>

text \<open>What a record's fields say to the status machine; the lease counts in milliseconds.\<close>

definition the_int :: "pyval option \<Rightarrow> int" where
  "the_int v = (case v of Some (PInt i) \<Rightarrow> i | _ \<Rightarrow> 0)"

definition fields_entry :: "(string, pyval) dict \<Rightarrow> entry" where
  "fields_entry d = (case (case map_of d ''status'' of Some (PStr t) \<Rightarrow> status_of_text t | _ \<Rightarrow> None) of
       None \<Rightarrow> Absent
     | Some PROCESSING \<Rightarrow> Processing (the_int (map_of d ''attempts''))
         (map_option (\<lambda>v. the_int (Some v) * 1000) (map_of d ''lease_until_ms''))
     | Some COMPLETED \<Rightarrow> Completed (dict_get ''result'' d)
     | Some FAILED \<Rightarrow> Failed (the_int (map_of d ''attempts''))
     | Some SKIPPED \<Rightarrow> Skipped)"

text \<open>Instants in milliseconds that a float keeps exactly enough, up to the year 2242.\<close>

definition max_instant_ms :: int where
  "max_instant_ms = 8589934592000"

text \<open>The fields that only \<open>ProcessingStatus\<close> reads: they have the types it wants.\<close>

definition is_stamp :: "string \<Rightarrow> bool" where
  "is_stamp s \<longleftrightarrow> (\<exists>t. s = isoformat_utc t)"

definition described :: "(string, pyval) dict \<Rightarrow> bool" where
  "described d \<longleftrightarrow> (\<exists>m. map_of d ''message_id'' = Some (PStr m))
     \<and> (\<exists>s. map_of d ''created_at'' = Some (PStr s) \<and> is_stamp s)
     \<and> (\<exists>s. map_of d ''updated_at'' = Some (PStr s) \<and> is_stamp s)
     \<and> (map_of d ''error'' = None \<or> (\<exists>e. map_of d ''error'' = Some (PStr e)))"

definition record_ok :: "(string, pyval) dict \<Rightarrow> bool" where
  "record_ok d \<longleftrightarrow> described d \<and> cjson_ok (PDict d) max_depth \<and> map_of d ''lease_expires_at'' = None \<and>
     (\<exists>st n. map_of d ''status'' = Some (PStr (status_text st)) \<and> map_of d ''attempts'' = Some (PInt n)
        \<and> (if st = PROCESSING then \<exists>l. map_of d ''lease_until_ms'' = Some (PInt l)
           else map_of d ''lease_until_ms'' = None)
        \<and> (st = PROCESSING \<or> st = FAILED \<longrightarrow> map_of d ''result'' = None))
     \<and> (\<forall>l. map_of d ''lease_until_ms'' = Some (PInt l) \<longrightarrow> \<bar>l\<bar> \<le> max_instant_ms)"

text \<open>Two views of one record agree on what the machine sees, and have the same result.\<close>

fun same_entry :: "entry \<Rightarrow> entry \<Rightarrow> bool" where
  "same_entry (Completed v) (Completed v') = same_value v v'"
| "same_entry e e' = (e = e')"

lemma same_lookup:
  assumes "same_value (PDict d) (PDict d')"
  shows "rel_option same_value (map_of d k) (map_of d' k)"
  using assms by (simp add: same_Dict_iff)

lemma same_lookup_simps:
  assumes "same_value (PDict d) (PDict d')"
  shows "map_of d k = Some (PStr s) \<longleftrightarrow> map_of d' k = Some (PStr s)"
    and "map_of d k = Some (PInt i) \<longleftrightarrow> map_of d' k = Some (PInt i)"
    and "map_of d k = None \<longleftrightarrow> map_of d' k = None"
  using same_lookup [OF assms, of k] by (cases "map_of d k"; cases "map_of d' k"; auto)+

lemma fields_entry_eq:
  assumes "map_of d ''status'' = Some (PStr (status_text st))"
  shows "fields_entry d = (case st of
       PROCESSING \<Rightarrow> Processing (the_int (map_of d ''attempts''))
         (map_option (\<lambda>v. the_int (Some v) * 1000) (map_of d ''lease_until_ms''))
     | COMPLETED \<Rightarrow> Completed (dict_get ''result'' d)
     | FAILED \<Rightarrow> Failed (the_int (map_of d ''attempts''))
     | SKIPPED \<Rightarrow> Skipped)"
  using assms by (simp add: fields_entry_def)

lemma fields_entry_same:
  assumes "record_ok d" "same_value (PDict d) (PDict d')"
  shows "same_entry (fields_entry d) (fields_entry d')"
proof -
  note same = same_lookup_simps [OF assms(2)]
  from assms(1) obtain st n where st: "map_of d ''status'' = Some (PStr (status_text st))"
    and n: "map_of d ''attempts'' = Some (PInt n)"
    and l: "if st = PROCESSING then \<exists>l. map_of d ''lease_until_ms'' = Some (PInt l)
            else map_of d ''lease_until_ms'' = None"
    unfolding record_ok_def by blast
  have "same_value (dict_get ''result'' d) (dict_get ''result'' d')"
    using same_lookup [OF assms(2), of "''result''"] by (auto simp: dict_get_def split: option.splits)
  moreover from st n have "map_of d' ''status'' = Some (PStr (status_text st))"
    "map_of d' ''attempts'' = Some (PInt n)" by (simp_all only: same)
  moreover from l have "if st = PROCESSING then \<exists>l. map_of d ''lease_until_ms'' = Some (PInt l)
      \<and> map_of d' ''lease_until_ms'' = Some (PInt l)
    else map_of d ''lease_until_ms'' = None \<and> map_of d' ''lease_until_ms'' = None"
    by (auto simp: same split: if_splits)
  moreover note fields_entry_eq [OF st] fields_entry_eq [OF calculation(2)]
  ultimately show ?thesis
    using n by (cases st) (auto simp del: status_text.simps)
qed

lemma described_same:
  assumes "same_value (PDict d) (PDict d')"
  shows "described d \<longleftrightarrow> described d'"
  unfolding described_def same_lookup_simps [OF assms] ..

lemma record_ok_same:
  assumes "record_ok d" "same_value (PDict d) (PDict d')" "cjson_ok (PDict d') max_depth"
  shows "record_ok d'"
  using assms(1,3) unfolding record_ok_def described_same [OF assms(2)] same_lookup_simps [OF assms(2)] by blast

lemma record_entry: "record_ok d \<Longrightarrow> fields_entry d \<noteq> Absent"
  unfolding record_ok_def by (auto simp: fields_entry_eq split: StatusValue.splits)

lemma same_entry_Absent: "same_entry e e' \<Longrightarrow> e \<noteq> Absent \<Longrightarrow> e' \<noteq> Absent"
  by (cases e; cases e') auto

lemma may_claim_same: "same_entry e e' \<Longrightarrow> may_claim cfg now e = may_claim cfg now e'"
  by (cases e; cases e') auto

lemma next_attempt_same: "same_entry e e' \<Longrightarrow> next_attempt e = next_attempt e'"
  by (cases e; cases e') auto

definition redis_entry :: "string \<Rightarrow> entry" where
  "redis_entry s = (case json_loads_str s of Inr (PDict d) \<Rightarrow> fields_entry d | _ \<Rightarrow> Absent)"

text \<open>The cells of a keyspace, and the effect of removing keys that are past their time.\<close>

type_synonym keyspace = "string \<Rightarrow> (string \<times> int option) option"

definition cells_of :: "int \<Rightarrow> keyspace \<Rightarrow> astate" where
  "cells_of now ks = (\<lambda>m. case ks (redis_key m) of
       Some (s, u) \<Rightarrow> if alive now u then (redis_entry s, u) else (Absent, None)
     | None \<Rightarrow> (Absent, None))"

definition purged :: "int \<Rightarrow> keyspace \<Rightarrow> keyspace \<Rightarrow> bool" where
  "purged now ks ks' \<longleftrightarrow>
     (\<forall>k. ks' k = ks k \<or> ks' k = None \<and> (\<exists>s u. ks k = Some (s, u) \<and> \<not> alive now u))"

lemma redis_key_inj [simp]: "redis_key m = redis_key k \<longleftrightarrow> m = k"
  by (simp add: redis_key_def)

lemma purged_cells: "purged now ks ks' \<Longrightarrow> cells_of now ks' = cells_of now ks"
proof
  fix m assume "purged now ks ks'"
  then have "ks' (redis_key m) = ks (redis_key m) \<or> ks' (redis_key m) = None \<and>
      (\<exists>s u. ks (redis_key m) = Some (s, u) \<and> \<not> alive now u)" by (simp add: purged_def)
  then show "cells_of now ks' m = cells_of now ks m" by (auto simp: cells_of_def)
qed

lemma purged_values: "purged now ks ks' \<Longrightarrow> ks' k = Some x \<Longrightarrow> ks k = Some x"
  by (metis purged_def option.distinct(1))

lemma cells_of_update:
  "alive now u \<Longrightarrow> cells_of now (ks(redis_key m \<mapsto> (s, u))) = (cells_of now ks)(m := (redis_entry s, u))"
  by (auto simp: cells_of_def fun_eq_iff)

lemma cells_of_delete: "cells_of now (ks(redis_key m := None)) = (cells_of now ks)(m := (Absent, None))"
  by (auto simp: cells_of_def fun_eq_iff)

lemma cells_of_age: "now \<le> t \<Longrightarrow> cells_of t ks = a_age t (cells_of now ks)"
proof
  fix m assume le: "now \<le> t"
  show "cells_of t ks m = a_age t (cells_of now ks) m"
  proof (cases "ks (redis_key m)")
    case (Some x)
    obtain s u where x: "x = (s, u)" by (cases x)
    show ?thesis
      using alive_mono [OF _ le, of u] Some x by (cases "alive t u") (simp_all add: cells_of_def a_age_def)
  qed (simp add: cells_of_def a_age_def)
qed

lemma time_ms_eq: "time_ms now = now div 1000"
proof -
  define q m where "q = now div 1000000" and "m = now mod 1000000"
  then have "now = m + q * 1000 * 1000" using div_mult_mod_eq [of now 1000000] by simp
  then have "now div 1000 = q * 1000 + m div 1000" by simp
  then show ?thesis by (simp add: time_ms_def q_def m_def)
qed

lemma ms_le_iff: "l \<le> now div 1000 \<longleftrightarrow> l * 1000 \<le> (now :: int)"
  using mult_div_mod_eq [of 1000 now] pos_mod_bound [of 1000 now] pos_mod_sign [of 1000 now] by linarith

subsection \<open>Time stamps\<close>

lemma printable_utf8_ok: "printable s \<Longrightarrow> utf8_ok s"
  by (simp add: utf8_ok_def utf8_decode_printable)

lemma pad_printable: "printable (pad w n)"
proof -
  have "printable (show_nat k)" for k
    using show_int_printable [of "int k"] by (simp add: show_int_def)
  then show ?thesis by (auto simp: pad_def Let_def printable_def)
qed

lemma isoformat_utf8_ok: "utf8_ok (isoformat_utc now)"
proof (rule printable_utf8_ok)
  have lits: "printable ''-''" "printable ''T''" "printable '':''" "printable ''.''" "printable ''+00:00''"
    by code_simp+
  obtain y m d where "civil (now div 86400000000) = (y, m, d)" by (cases "civil (now div 86400000000)")
  then show "printable (isoformat_utc now)"
    by (simp only: isoformat_utc_def Let_def prod.case printable_simps(1,2) pad_printable lits if_split simp_thms)
qed

lemma is_stamp_utf8: "is_stamp s \<Longrightarrow> utf8_ok s"
  by (auto simp: is_stamp_def isoformat_utf8_ok)

lemma is_stamp_now [simp]: "is_stamp (now_iso env now)"
  by (auto simp: is_stamp_def now_iso_def)

subsection \<open>The backend\<close>

text \<open>
  The client sends a request once, and the server carries it out or does not receive it: a request that raises in the client
  leaves the server as it was before or as it is after the request.
\<close>

definition sent_at_most_once :: "'r redis_env \<Rightarrow> bool" where
  "sent_at_most_once env \<longleftrightarrow>
     (\<forall>now r r1 leaves e. r_fault env now r = Some (leaves, e) \<longrightarrow> leaves r1 = r \<or> leaves r1 = r1)"

lemma request_fault:
  assumes "sent_at_most_once env" "r_fault env now r = Some (leaves, e)"
  shows "leaves r1 = r \<or> leaves r1 = r1"
  using assms unfolding sent_at_most_once_def by blast

locale redis_backend =
  fixes env :: "'r redis_env"
    and cfg :: DeduplicationConfig
    and stored :: "'r \<Rightarrow> keyspace"
    and expiry :: "int \<Rightarrow> int \<Rightarrow> int"
  assumes get: "r_get env now k r =
      (case stored r k of Some (s, u) \<Rightarrow> if alive now u then Some s else None | None \<Rightarrow> None)"
    and set_px: "0 < ttl \<Longrightarrow> \<exists>r'. r_set_px env now k v ttl r = Some r'
      \<and> purged now ((stored r)(k \<mapsto> (v, Some (expiry now ttl)))) (stored r')"
    and expiry: "0 < ttl \<Longrightarrow> now + ttl * 1000 - 1000 < expiry now ttl"
    and set_keepttl: "stored r k = Some (v0, u) \<Longrightarrow> alive now u \<Longrightarrow>
      purged now ((stored r)(k \<mapsto> (v, u))) (stored (r_set_keepttl env now k v r))"
    and del: "purged now ((stored r)(k := None)) (stored (r_del env now k r))"
    and codec: "cjson_ok x max_depth \<Longrightarrow> \<exists>s x' x''. r_encode env x = Some s \<and> r_decode env s = Some x'
      \<and> json_loads_str s = Inr x'' \<and> same_value x x' \<and> same_value x x'' \<and> cjson_ok x' max_depth"
    and decode_dumps: "cjson_ok x (max_depth - 1) \<Longrightarrow> \<exists>x'. r_decode env (dump_text (r_repr env) x) = Some x'
      \<and> same_value x x' \<and> cjson_ok x' (max_depth - 1)"
    and tonumber_int: "\<bar>i\<bar> < 10 ^ 14 \<Longrightarrow> r_tonumber env (PInt i) = Some i"
    and tonumber_str: "\<bar>i\<bar> < 10 ^ 14 \<Longrightarrow> r_tonumber env (PStr (show_int i)) = Some i"
    and fault: "sent_at_most_once env"
    and to_int: "r_to_int env (PInt i) = Some i"
    and to_str: "r_to_str env (PStr s) = Some s"
    and to_time: "is_stamp s \<Longrightarrow> r_to_time env (PStr s) \<noteq> None"
    and ttl_pos: "0 < ttl_seconds cfg"
begin

definition value_ok :: "string \<Rightarrow> bool" where
  "value_ok s \<longleftrightarrow> (\<exists>d d'. r_decode env s = Some (PDict d) \<and> json_loads_str s = Inr (PDict d')
     \<and> same_value (PDict d) (PDict d') \<and> record_ok d)"

definition redis_ok :: "'r \<Rightarrow> bool" where
  "redis_ok r \<longleftrightarrow> (\<forall>m s u. stored r (redis_key m) = Some (s, u) \<longrightarrow> value_ok s)"

definition redis_cells :: "int \<Rightarrow> 'r \<Rightarrow> astate" where
  "redis_cells now r = cells_of now (stored r)"

definition fresh_until :: "int \<Rightarrow> int option" where
  "fresh_until now = Some (expiry now (ttl_seconds cfg * 1000))"

text \<open>The lease of a claim made now, in milliseconds and in microseconds.\<close>

definition lease_ms :: "int \<Rightarrow> int" where
  "lease_ms now = time_ms now + processing_timeout_seconds cfg * 1000"

definition redis_range :: "int \<Rightarrow> 'r \<Rightarrow> string \<Rightarrow> bool" where
  "redis_range now r m \<longleftrightarrow> utf8_ok m \<and> \<bar>lease_ms now\<bar> \<le> max_instant_ms
     \<and> \<bar>next_attempt (fst (redis_cells now r m))\<bar> < 10 ^ 14"

definition redis_reportable :: "string \<Rightarrow> int \<Rightarrow> bool" where
  "redis_reportable err n \<longleftrightarrow> utf8_ok err \<and> \<bar>n\<bar> < 10 ^ 14"

lemma value_okE:
  assumes "value_ok s"
  obtains d where "r_decode env s = Some (PDict d)" "record_ok d"
    "same_entry (fields_entry d) (redis_entry s)"
  using assms fields_entry_same unfolding value_ok_def redis_entry_def by fastforce

lemma value_entry: "value_ok s \<Longrightarrow> redis_entry s \<noteq> Absent"
  by (erule value_okE) (drule record_entry, erule same_entry_Absent)

lemma redis_okD: "redis_ok r \<Longrightarrow> stored r (redis_key m) = Some (s, u) \<Longrightarrow> value_ok s"
  unfolding redis_ok_def by blast

lemma redis_okI: "(\<And>m s u. stored r (redis_key m) = Some (s, u) \<Longrightarrow> value_ok s) \<Longrightarrow> redis_ok r"
  unfolding redis_ok_def by blast

lemma write_record:
  assumes "record_ok d"
  obtains s where "r_encode env (PDict d) = Some s" "value_ok s"
    "same_entry (fields_entry d) (redis_entry s)"
proof -
  from assms have "cjson_ok (PDict d) max_depth" by (simp only: record_ok_def)
  from codec [OF this] obtain s x' x'' where s: "r_encode env (PDict d) = Some s"
    "r_decode env s = Some x'" "json_loads_str s = Inr x''"
    and same: "same_value (PDict d) x'" "same_value (PDict d) x''" "cjson_ok x' max_depth" by blast
  from same(1,2) obtain d' d'' where d: "x' = PDict d'" "x'' = PDict d''" by (metis same_DictE)
  have "record_ok d'" by (rule record_ok_same [OF assms]) (use same d in simp_all)
  moreover have "same_value (PDict d') (PDict d'')"
    using same_value_trans [OF same_value_sym [OF same(1)] same(2)] d by simp
  ultimately have "value_ok s" using s d by (auto simp: value_ok_def)
  moreover have "same_entry (fields_entry d) (redis_entry s)"
    using fields_entry_same [OF assms] same(2) s d by (simp add: redis_entry_def)
  ultimately show ?thesis using that s(1) by blast
qed

text \<open>What a stored key holds, and what writing one does.\<close>

lemma read_cases:
  assumes "redis_ok r"
  obtains (absent) "r_get env now (redis_key m) r = None" "redis_cells now r m = (Absent, None)"
    | (present) s u d where "r_get env now (redis_key m) r = Some s" "stored r (redis_key m) = Some (s, u)"
        "alive now u" "redis_cells now r m = (redis_entry s, u)" "r_decode env s = Some (PDict d)"
        "record_ok d" "same_entry (fields_entry d) (redis_entry s)"
proof (cases "stored r (redis_key m)")
  case None
  with absent get show ?thesis by (simp add: redis_cells_def cells_of_def)
next
  case (Some x)
  obtain s u where x: "x = (s, u)" by (cases x)
  show ?thesis
  proof (cases "alive now u")
    case False
    with absent get Some x show ?thesis by (simp add: redis_cells_def cells_of_def)
  next
    case True
    have "value_ok s" using redis_okD [OF assms, of m s u] Some x by simp
    then obtain d where "r_decode env s = Some (PDict d)" "record_ok d"
      "same_entry (fields_entry d) (redis_entry s)" by (rule value_okE)
    with True Some x show ?thesis
      by (intro present [of s u d]) (simp_all add: get redis_cells_def cells_of_def)
  qed
qed

lemma write_ok:
  assumes "redis_ok r" "purged now ((stored r)(redis_key m \<mapsto> (s, u))) (stored r')" "value_ok s" "alive now u"
  shows "redis_ok r' \<and> redis_cells now r' = (redis_cells now r)(m := (redis_entry s, u))"
proof
  show "redis_ok r'"
  proof (rule redis_okI)
    fix k s' u' assume "stored r' (redis_key k) = Some (s', u')"
    from purged_values [OF assms(2) this] assms(3) redis_okD [OF assms(1)] show "value_ok s'"
      by (cases "k = m") simp_all
  qed
  show "redis_cells now r' = (redis_cells now r)(m := (redis_entry s, u))"
    using purged_cells [OF assms(2)] assms(4) by (simp add: redis_cells_def cells_of_update)
qed

lemma delete_ok:
  assumes "redis_ok r"
  shows "redis_ok (r_del env now (redis_key m) r)
    \<and> redis_cells now (r_del env now (redis_key m) r) = a_delete m (redis_cells now r)"
proof
  show "redis_ok (r_del env now (redis_key m) r)"
  proof (rule redis_okI)
    fix k s u assume "stored (r_del env now (redis_key m) r) (redis_key k) = Some (s, u)"
    from purged_values [OF del this] redis_okD [OF assms] show "value_ok s"
      by (cases "k = m") simp_all
  qed
  show "redis_cells now (r_del env now (redis_key m) r) = a_delete m (redis_cells now r)"
    using purged_cells [OF del] by (simp add: redis_cells_def cells_of_delete a_delete_def)
qed

end

end
