(* ===== verification/Redis_Refines.thy ===== *)
theory Redis_Refines
  imports Redis_Contract
begin

section \<open>The Redis store implements the contract\<close>

text \<open>
  The Lua scripts, run on the records they write themselves, act as the abstract machine: first on the
  fields, then on the keyspace of a \<open>redis_backend\<close>, then as methods behind a connection that may
  fail. The \<open>sublocale\<close> makes the store an instance of \<open>guarded_store\<close>.
\<close>

subsection \<open>The scripts on the fields of a record\<close>

lemma field_names_ok:
  "utf8_ok ''message_id''" "utf8_ok ''status''" "utf8_ok ''attempts''" "utf8_ok ''created_at''"
  "utf8_ok ''updated_at''" "utf8_ok ''lease_until_ms''" "utf8_ok ''result''" "utf8_ok ''error''"
  "utf8_ok ''PROCESSING''"
  by (rule printable_utf8_ok, simp)+

lemma status_text_ok: "utf8_ok (status_text st)"
  by (rule printable_utf8_ok) (cases st; simp add: status_text.simps)

lemma max_depth_simps: "0 < max_depth" "max_depth - 1 = Suc 998"
  by (simp_all add: max_depth_def)

declare cjson_ok.simps(8) [simp del] status_text.simps [simp del]

definition new_record :: "string \<Rightarrow> string \<Rightarrow> int \<Rightarrow> (string, pyval) dict" where
  "new_record m stamp lease =
     [(''message_id'', PStr m), (''status'', PStr ''PROCESSING''), (''attempts'', PInt 1),
      (''created_at'', PStr stamp), (''updated_at'', PStr stamp), (''lease_until_ms'', PInt lease)]"

lemma new_record_ok:
  assumes "utf8_ok m" "is_stamp stamp" "\<bar>lease\<bar> \<le> max_instant_ms"
  shows "record_ok (new_record m stamp lease)"
    "fields_entry (new_record m stamp lease) = Processing 1 (Some (lease * 1000))"
proof -
  have lease: "\<bar>lease\<bar> < 10 ^ 14" using assms(3) by (simp add: max_instant_ms_def)
  have "cjson_ok (PDict (new_record m stamp lease)) max_depth"
    using assms(1) is_stamp_utf8 [OF assms(2)] lease by (simp add: cjson_ok.simps(8) new_record_def dict_ok_def field_names_ok max_depth_simps)
  moreover have "described (new_record m stamp lease)" using assms(2) by (auto simp: described_def new_record_def)
  moreover have status: "map_of (new_record m stamp lease) ''status'' = Some (PStr (status_text PROCESSING))"
    by (simp add: new_record_def status_text.simps)
  ultimately show "record_ok (new_record m stamp lease)"
    unfolding record_ok_def by (intro conjI exI [of _ PROCESSING]) (simp_all add: new_record_def status_text.simps assms)
  show "fields_entry (new_record m stamp lease) = Processing 1 (Some (lease * 1000))"
    unfolding fields_entry_eq [OF status] by (simp add: new_record_def the_int_def)
qed

lemma record_okE:
  assumes "record_ok d"
  obtains st n where "map_of d ''status'' = Some (PStr (status_text st))" "map_of d ''attempts'' = Some (PInt n)"
    "\<bar>n\<bar> < 10 ^ 14" "st \<noteq> PROCESSING \<longrightarrow> map_of d ''lease_until_ms'' = None"
    "st = PROCESSING \<longrightarrow> (\<exists>l. map_of d ''lease_until_ms'' = Some (PInt l) \<and> \<bar>l\<bar> < 10 ^ 14)"
    "st = PROCESSING \<or> st = FAILED \<longrightarrow> map_of d ''result'' = None"
    "cjson_ok (PDict d) max_depth" "map_of d ''lease_expires_at'' = None"
proof -
  have ok: "cjson_ok (PDict d) max_depth" using assms by (simp only: record_ok_def)
  then have int: "\<bar>i\<bar> < 10 ^ 14" if "map_of d k = Some (PInt i)" for k i
    using that unfolding cjson_ok_PDict by fastforce
  from assms obtain st n where "map_of d ''status'' = Some (PStr (status_text st))"
    "map_of d ''attempts'' = Some (PInt n)"
    "if st = PROCESSING then \<exists>l. map_of d ''lease_until_ms'' = Some (PInt l) else map_of d ''lease_until_ms'' = None"
    "st = PROCESSING \<or> st = FAILED \<longrightarrow> map_of d ''result'' = None" "map_of d ''lease_expires_at'' = None"
    unfolding record_ok_def by blast
  with that [of st n] ok int show ?thesis by (cases "st = PROCESSING") auto
qed

definition reclaimed :: "int \<Rightarrow> string \<Rightarrow> int \<Rightarrow> (string, pyval) dict \<Rightarrow> (string, pyval) dict" where
  "reclaimed n stamp lease d =
     AList.update ''lease_until_ms'' (PInt lease) (AList.update ''updated_at'' (PStr stamp)
       (AList.delete ''error'' (AList.update ''attempts'' (PInt n)
         (AList.update ''status'' (PStr ''PROCESSING'') d))))"

lemma reclaimed_ok:
  assumes "record_ok d" "may_claim cfg now (fields_entry d)" "is_stamp stamp" "\<bar>lease\<bar> \<le> max_instant_ms" "\<bar>n\<bar> < 10 ^ 14"
  shows "record_ok (reclaimed n stamp lease d)"
    "fields_entry (reclaimed n stamp lease d) = Processing n (Some (lease * 1000))"
proof -
  from assms(1) obtain st k where d: "map_of d ''status'' = Some (PStr (status_text st))"
    "st = PROCESSING \<or> st = FAILED \<longrightarrow> map_of d ''result'' = None"
    "cjson_ok (PDict d) max_depth" "map_of d ''lease_expires_at'' = None"
    using record_okE by blast
  from assms(2) have st: "st = PROCESSING \<or> st = FAILED"
    unfolding fields_entry_eq [OF d(1)] by (cases st) auto
  have "\<bar>lease\<bar> < 10 ^ 14" using assms(4) by (simp add: max_instant_ms_def)
  then have "cjson_ok (PDict (reclaimed n stamp lease d)) max_depth"
    unfolding reclaimed_def using d(3) is_stamp_utf8 [OF assms(3)] assms(5) field_names_ok
    by (intro cjson_ok_update cjson_ok_delete) simp_all
  moreover have "described (reclaimed n stamp lease d)"
    using assms(1,3) by (auto simp: described_def record_ok_def reclaimed_def dict_simps)
  moreover have status: "map_of (reclaimed n stamp lease d) ''status'' = Some (PStr (status_text PROCESSING))"
    by (simp add: reclaimed_def dict_simps status_text.simps)
  ultimately show "record_ok (reclaimed n stamp lease d)"
    unfolding record_ok_def
    by (intro conjI exI [of _ PROCESSING]) (use d st assms(4) in \<open>simp_all add: reclaimed_def dict_simps status_text.simps\<close>)
  show "fields_entry (reclaimed n stamp lease d) = Processing n (Some (lease * 1000))"
    unfolding fields_entry_eq [OF status] by (simp add: reclaimed_def dict_simps the_int_def)
qed

definition status_record :: "StatusValue \<Rightarrow> string \<Rightarrow> (string, pyval) dict \<Rightarrow> (string, pyval) dict" where
  "status_record st stamp d = AList.update ''updated_at'' (PStr stamp) (AList.update ''status'' (PStr (status_text st)) d)"

definition completed_record :: "string \<Rightarrow> pyval option \<Rightarrow> (string, pyval) dict \<Rightarrow> (string, pyval) dict" where
  "completed_record stamp v d = AList.delete ''lease_until_ms''
     (case v of None \<Rightarrow> status_record COMPLETED stamp d
      | Some x \<Rightarrow> AList.update ''result'' x (status_record COMPLETED stamp d))"

definition failed_record :: "string \<Rightarrow> string \<Rightarrow> int \<Rightarrow> (string, pyval) dict \<Rightarrow> (string, pyval) dict" where
  "failed_record stamp err n d = AList.delete ''lease_until_ms'' (AList.update ''attempts'' (PInt n)
     (if err = [] then status_record FAILED stamp d
      else AList.update ''error'' (PStr err) (status_record FAILED stamp d)))"

lemma processing_fields:
  assumes "record_ok d" "map_of d ''status'' = Some (PStr ''PROCESSING'')"
  obtains n l where "map_of d ''attempts'' = Some (PInt n)" "map_of d ''lease_until_ms'' = Some (PInt l)"
    "map_of d ''result'' = None" "cjson_ok (PDict d) max_depth" "map_of d ''lease_expires_at'' = None"
    "fields_entry d = Processing n (Some (l * 1000))"
proof -
  from assms(1) obtain st n where d: "map_of d ''status'' = Some (PStr (status_text st))" "map_of d ''attempts'' = Some (PInt n)"
    "\<bar>n\<bar> < 10 ^ 14" "st \<noteq> PROCESSING \<longrightarrow> map_of d ''lease_until_ms'' = None"
    "st = PROCESSING \<longrightarrow> (\<exists>l. map_of d ''lease_until_ms'' = Some (PInt l) \<and> \<bar>l\<bar> < 10 ^ 14)"
    "st = PROCESSING \<or> st = FAILED \<longrightarrow> map_of d ''result'' = None"
    "cjson_ok (PDict d) max_depth" "map_of d ''lease_expires_at'' = None"
    by (rule record_okE)
  have st: "st = PROCESSING" using assms(2) d(1) status_text_inj [of st PROCESSING] by (simp add: status_text.simps)
  with d(5) obtain l where l: "map_of d ''lease_until_ms'' = Some (PInt l)" by blast
  have "fields_entry d = Processing n (Some (l * 1000))"
    unfolding fields_entry_eq [OF d(1)] st by (simp add: d(2) l the_int_def)
  with d(2,6,7,8) l st that show ?thesis by simp
qed

lemma completed_record_ok:
  assumes "record_ok d" "map_of d ''status'' = Some (PStr ''PROCESSING'')" "is_stamp stamp"
    and v: "case v of None \<Rightarrow> True | Some x \<Rightarrow> cjson_ok x (max_depth - 1)"
  shows "record_ok (completed_record stamp v d)"
    "fields_entry (completed_record stamp v d) = Completed (case v of None \<Rightarrow> PNone | Some x \<Rightarrow> x)"
proof -
  from assms(1,2) obtain n where d: "map_of d ''attempts'' = Some (PInt n)" "map_of d ''result'' = None"
    "cjson_ok (PDict d) max_depth" "map_of d ''lease_expires_at'' = None"
    using processing_fields by blast
  have base: "cjson_ok (PDict (status_record COMPLETED stamp d)) max_depth"
    unfolding status_record_def using d(3) is_stamp_utf8 [OF assms(3)] status_text_ok field_names_ok
    by (intro cjson_ok_update) simp_all
  then have ok: "cjson_ok (PDict (completed_record stamp v d)) max_depth"
    unfolding completed_record_def using v field_names_ok
    by (cases v) (simp_all only: option.case cjson_ok_update cjson_ok_delete)
  have look: "map_of (completed_record stamp v d) = (map_of d)(''status'' \<mapsto> PStr (status_text COMPLETED),
      ''updated_at'' \<mapsto> PStr stamp, ''result'' := v, ''lease_until_ms'' := None)"
    using d(2) by (cases v) (auto simp: completed_record_def status_record_def dict_simps fun_eq_iff)
  have "described (completed_record stamp v d)"
    using assms(1,3) unfolding described_def look by (auto simp: described_def record_ok_def)
  then show "record_ok (completed_record stamp v d)"
    unfolding record_ok_def look
    by (intro conjI exI [of _ COMPLETED] exI [of _ n]) (use ok d in simp_all)
  have status: "map_of (completed_record stamp v d) ''status'' = Some (PStr (status_text COMPLETED))"
    by (simp add: look)
  show "fields_entry (completed_record stamp v d) = Completed (case v of None \<Rightarrow> PNone | Some x \<Rightarrow> x)"
    unfolding fields_entry_eq [OF status] by (simp add: dict_get_def look split: option.split)
qed

lemma failed_record_ok:
  assumes "record_ok d" "map_of d ''status'' = Some (PStr ''PROCESSING'')" "is_stamp stamp" "utf8_ok err" "\<bar>n\<bar> < 10 ^ 14"
  shows "record_ok (failed_record stamp err n d)" "fields_entry (failed_record stamp err n d) = Failed n"
proof -
  from assms(1,2) have d: "map_of d ''result'' = None" "cjson_ok (PDict d) max_depth"
    "map_of d ''lease_expires_at'' = None"
    using processing_fields by blast+
  have base: "cjson_ok (PDict (status_record FAILED stamp d)) max_depth"
    unfolding status_record_def using d(2) is_stamp_utf8 [OF assms(3)] status_text_ok field_names_ok
    by (intro cjson_ok_update) simp_all
  then have "cjson_ok (PDict (if err = [] then status_record FAILED stamp d
      else AList.update ''error'' (PStr err) (status_record FAILED stamp d))) max_depth"
    using assms(4) field_names_ok by (simp add: cjson_ok_update)
  then have ok: "cjson_ok (PDict (failed_record stamp err n d)) max_depth"
    unfolding failed_record_def using assms(5) field_names_ok by (intro cjson_ok_update cjson_ok_delete) simp_all
  have look: "map_of (failed_record stamp err n d) = (map_of d)(''status'' \<mapsto> PStr (status_text FAILED),
      ''updated_at'' \<mapsto> PStr stamp, ''error'' := (if err = [] then map_of d ''error'' else Some (PStr err)),
      ''attempts'' \<mapsto> PInt n, ''lease_until_ms'' := None)"
    by (auto simp: failed_record_def status_record_def dict_simps fun_eq_iff)
  have "described (failed_record stamp err n d)"
    using assms(1,3) unfolding described_def look by (auto simp: described_def record_ok_def)
  then show "record_ok (failed_record stamp err n d)"
    unfolding record_ok_def look
    by (intro conjI exI [of _ FAILED] exI [of _ n]) (use ok d in simp_all)
  have status: "map_of (failed_record stamp err n d) ''status'' = Some (PStr (status_text FAILED))"
    by (simp add: look)
  show "fields_entry (failed_record stamp err n d) = Failed n"
    unfolding fields_entry_eq [OF status] by (simp add: look the_int_def)
qed

subsection \<open>The claim script\<close>

context redis_backend
begin

abbreviation claim_script :: "string \<Rightarrow> int \<Rightarrow> ('r, int) eff" where
  "claim_script m now \<equiv> lua_claim env (redis_key m) m (ttl_seconds cfg * 1000)
     (processing_timeout_seconds cfg * 1000) (max_retries cfg)
     (if retry_failed cfg then ''1'' else ''0'') (now_iso env now) now"

text \<open>The condition the script computes is the machine's.\<close>

lemma lua_numbers:
  assumes "record_ok d"
  obtains n where "lua_number env ''attempts'' d = Some n" "map_of d ''attempts'' = Some (PInt n)"
    "map_of d ''status'' \<noteq> Some (PStr ''PROCESSING'') \<or>
      (\<exists>l. lua_number env ''lease_until_ms'' d = Some l \<and> map_of d ''lease_until_ms'' = Some (PInt l))"
proof -
  from assms obtain st n where d: "map_of d ''status'' = Some (PStr (status_text st))" "map_of d ''attempts'' = Some (PInt n)"
    "\<bar>n\<bar> < 10 ^ 14" "st \<noteq> PROCESSING \<longrightarrow> map_of d ''lease_until_ms'' = None"
    "st = PROCESSING \<longrightarrow> (\<exists>l. map_of d ''lease_until_ms'' = Some (PInt l) \<and> \<bar>l\<bar> < 10 ^ 14)"
    "st = PROCESSING \<or> st = FAILED \<longrightarrow> map_of d ''result'' = None"
    "cjson_ok (PDict d) max_depth" "map_of d ''lease_expires_at'' = None"
    by (rule record_okE)
  have n: "lua_number env ''attempts'' d = Some n" using d(2,3) by (simp add: lua_number_def tonumber_int)
  have "\<exists>l. lua_number env ''lease_until_ms'' d = Some l \<and> map_of d ''lease_until_ms'' = Some (PInt l)"
    if "map_of d ''status'' = Some (PStr ''PROCESSING'')"
  proof -
    have "st = PROCESSING"
      using that d(1) status_text_inj [of st PROCESSING] by (simp add: status_text.simps)
    with d(5) obtain l where "map_of d ''lease_until_ms'' = Some (PInt l)" "\<bar>l\<bar> < 10 ^ 14" by blast
    then show ?thesis by (simp add: lua_number_def tonumber_int)
  qed
  then show ?thesis by (intro that [OF n d(2)]) blast
qed

lemma lua_condition:
  assumes "record_ok d" "lua_number env ''attempts'' d = Some n"
  shows "(map_of d ''status'' = Some (PStr ''FAILED'') \<and> (if retry_failed cfg then ''1'' else ''0'') = ''1'' \<and> n < max_retries cfg
      \<or> map_of d ''status'' = Some (PStr ''PROCESSING'')
         \<and> (case lua_number env ''lease_until_ms'' d of None \<Rightarrow> False | Some l \<Rightarrow> l \<le> time_ms now))
     \<longleftrightarrow> may_claim cfg now (fields_entry d)"
proof -
  from assms(1) obtain st k where d: "map_of d ''status'' = Some (PStr (status_text st))" "map_of d ''attempts'' = Some (PInt k)"
    "\<bar>k\<bar> < 10 ^ 14" "st \<noteq> PROCESSING \<longrightarrow> map_of d ''lease_until_ms'' = None"
    "st = PROCESSING \<longrightarrow> (\<exists>l. map_of d ''lease_until_ms'' = Some (PInt l) \<and> \<bar>l\<bar> < 10 ^ 14)"
    "st = PROCESSING \<or> st = FAILED \<longrightarrow> map_of d ''result'' = None"
    "cjson_ok (PDict d) max_depth" "map_of d ''lease_expires_at'' = None"
    by (rule record_okE)
  from assms(2) d(2,3) have k: "n = k" by (simp add: lua_number_def tonumber_int)
  have flag: "(if retry_failed cfg then ''1'' else ''0'') = ''1'' \<longleftrightarrow> retry_failed cfg" by simp
  show ?thesis
  proof (cases "st = PROCESSING")
    case True
    with d(5) obtain l where "map_of d ''lease_until_ms'' = Some (PInt l)" "\<bar>l\<bar> < 10 ^ 14" by blast
    with True d(1) show ?thesis
      unfolding fields_entry_eq [OF d(1)] flag
      by (simp add: lua_number_def tonumber_int the_int_def time_ms_eq ms_le_iff status_text.simps)
  next
    case False
    with d(1,2) k show ?thesis
      unfolding fields_entry_eq [OF d(1)] flag by (cases st) (simp_all add: the_int_def status_text.simps)
  qed
qed

lemma claim_script_absent:
  assumes ok: "redis_ok r" and range: "redis_range now r m"
    and "r_get env now (redis_key m) r = None" "redis_cells now r m = (Absent, None)"
  shows "\<exists>r'. claim_script m now r = (Inr 1, r') \<and> redis_ok r' \<and>
     redis_cells now r' = (redis_cells now r)(m := (Processing 1 (Some (lease_ms now * 1000)), fresh_until now))"
proof -
  have utf8: "utf8_ok m" "is_stamp (now_iso env now)" and lease: "\<bar>lease_ms now\<bar> \<le> max_instant_ms"
    using range by (simp_all add: redis_range_def)
  note new = new_record_ok [OF utf8 lease]
  from new(1) obtain s where s: "r_encode env (PDict (new_record m (now_iso env now) (lease_ms now))) = Some s"
    "value_ok s" "same_entry (fields_entry (new_record m (now_iso env now) (lease_ms now))) (redis_entry s)"
    by (rule write_record)
  have entry: "redis_entry s = Processing 1 (Some (lease_ms now * 1000))"
    using s(3) unfolding new(2) by simp
  obtain r' where r': "r_set_px env now (redis_key m) s (ttl_seconds cfg * 1000) r = Some r'"
    and purged: "purged now ((stored r)(redis_key m \<mapsto> (s, fresh_until now))) (stored r')"
    using set_px [of "ttl_seconds cfg * 1000" now "redis_key m" s r] ttl_pos by (auto simp: fresh_until_def)
  have "alive now (fresh_until now)"
    using expiry [of "ttl_seconds cfg * 1000" now] ttl_pos by (simp add: alive_def fresh_until_def)
  with write_ok [OF ok purged s(2)] entry r' s(1) assms(3) show ?thesis
    by (simp add: lua_claim_def new_record_def lease_ms_def)
qed

lemma claim_script_present:
  assumes ok: "redis_ok r" and range: "redis_range now r m"
    and get: "r_get env now (redis_key m) r = Some raw" "stored r (redis_key m) = Some (raw, u)" "alive now u"
      "redis_cells now r m = (redis_entry raw, u)"
    and d: "r_decode env raw = Some (PDict d)" "record_ok d" "same_entry (fields_entry d) (redis_entry raw)"
  shows "if may_claim cfg now (redis_entry raw)
     then \<exists>r'. claim_script m now r = (Inr 1, r') \<and> redis_ok r' \<and> redis_cells now r' =
       (redis_cells now r)(m := (Processing (next_attempt (redis_entry raw)) (Some (lease_ms now * 1000)), u))
     else claim_script m now r = (Inr 0, r)"
proof -
  obtain n where n: "lua_number env ''attempts'' d = Some n" "map_of d ''attempts'' = Some (PInt n)"
    using lua_numbers [OF d(2)] by blast
  have may: "may_claim cfg now (redis_entry raw) \<longleftrightarrow> may_claim cfg now (fields_entry d)"
    using may_claim_same [OF d(3)] by simp
  note cond = lua_condition [OF d(2) n(1), of now, folded may]
  show ?thesis
  proof (cases "may_claim cfg now (redis_entry raw)")
    case False
    with cond get d n show ?thesis
      by (simp add: lua_claim_def Let_def del: may_claim.simps)
  next
    case True
    have nxt: "next_attempt (redis_entry raw) = n + 1"
    proof -
      from d(2) obtain st where st: "map_of d ''status'' = Some (PStr (status_text st))"
        using record_okE by blast
      have "next_attempt (fields_entry d) = n + 1"
        using True [unfolded may] n(2) unfolding fields_entry_eq [OF st] by (cases st) (auto simp: the_int_def)
      with next_attempt_same [OF d(3)] show ?thesis by simp
    qed
    have bounds: "is_stamp (now_iso env now)" "\<bar>lease_ms now\<bar> \<le> max_instant_ms" "\<bar>n + 1\<bar> < 10 ^ 14"
      using range nxt get(4) by (simp_all add: redis_range_def)
    note re = reclaimed_ok [OF d(2) True [unfolded may] bounds]
    from re(1) obtain s where s: "r_encode env (PDict (reclaimed (n + 1) (now_iso env now) (lease_ms now) d)) = Some s"
      "value_ok s" "same_entry (fields_entry (reclaimed (n + 1) (now_iso env now) (lease_ms now) d)) (redis_entry s)"
      by (rule write_record)
    have entry: "redis_entry s = Processing (n + 1) (Some (lease_ms now * 1000))"
      using s(3) unfolding re(2) by simp
    have run: "claim_script m now r = (Inr 1, r_set_keepttl env now (redis_key m) s r)"
      using True cond get d n s(1)
      by (cases "retry_failed cfg") (simp_all add: lua_claim_def Let_def reclaimed_def lease_ms_def)
    from write_ok [OF ok set_keepttl [OF get(2,3)] s(2) get(3)] entry run nxt True show ?thesis by simp
  qed
qed

lemma claim_script_run:
  assumes ok: "redis_ok r" and range: "redis_range now r m"
  shows "\<exists>b r'. claim_script m now r = (Inr (if b then 1 else 0), r') \<and> redis_ok r' \<and>
     (b, redis_cells now r') = a_claim cfg fresh_until now (lease_ms now * 1000) m (redis_cells now r)"
  using ok
proof (cases rule: read_cases [where now = now and m = m])
  case absent
  obtain r' where "claim_script m now r = (Inr 1, r')" "redis_ok r'"
    "redis_cells now r' = (redis_cells now r)(m := (Processing 1 (Some (lease_ms now * 1000)), fresh_until now))"
    using claim_script_absent [OF ok range absent] by blast
  with absent(2) have "claim_script m now r = (Inr (if True then 1 else 0), r')" "redis_ok r'"
    "(True, redis_cells now r') = a_claim cfg fresh_until now (lease_ms now * 1000) m (redis_cells now r)"
    by (simp_all add: a_claim_def)
  then show ?thesis by blast
next
  case (present raw u d)
  have ne: "redis_entry raw \<noteq> Absent"
    using present(6,7) record_entry same_entry_Absent by blast
  show ?thesis
  proof (cases "may_claim cfg now (redis_entry raw)")
    case True
    with claim_script_present [OF ok range present] obtain r' where
      "claim_script m now r = (Inr 1, r')" "redis_ok r'" "redis_cells now r' = (redis_cells now r)
         (m := (Processing (next_attempt (redis_entry raw)) (Some (lease_ms now * 1000)), u))" by auto
    with present(4) True ne have "claim_script m now r = (Inr (if True then 1 else 0), r')" "redis_ok r'"
      "(True, redis_cells now r') = a_claim cfg fresh_until now (lease_ms now * 1000) m (redis_cells now r)"
      by (simp_all add: a_claim_def)
    then show ?thesis by blast
  next
    case False
    with claim_script_present [OF ok range present] present(4) ok
    have "claim_script m now r = (Inr (if False then 1 else 0), r)" "redis_ok r"
      "(False, redis_cells now r) = a_claim cfg fresh_until now (lease_ms now * 1000) m (redis_cells now r)"
      by (simp_all add: a_claim_def)
    then show ?thesis by blast
  qed
qed

subsection \<open>The update script\<close>

abbreviation update_script ::
    "string \<Rightarrow> StatusValue \<Rightarrow> string \<Rightarrow> string \<Rightarrow> string \<Rightarrow> int \<Rightarrow> ('r, int) eff" where
  "update_script m st result_json err attempts now \<equiv>
     lua_update_status env (redis_key m) (status_text st) (now_iso env now) result_json err attempts now"

text \<open>On a message that is not being processed the script changes nothing.\<close>

lemma update_script_idle:
  assumes "redis_ok r" "\<And>n l. fst (redis_cells now r m) \<noteq> Processing n l"
  shows "\<exists>i. update_script m st result_json err attempts now r = (Inr i, r)"
  using assms(1)
proof (cases rule: read_cases [where now = now and m = m])
  case absent
  then show ?thesis by (simp add: lua_update_status_def)
next
  case (present raw u d)
  have "map_of d ''status'' \<noteq> Some (PStr ''PROCESSING'')"
  proof
    assume "map_of d ''status'' = Some (PStr ''PROCESSING'')"
    with present(6) obtain n l where "fields_entry d = Processing n (Some (l * 1000))"
      by (rule processing_fields)
    with present(7) have "redis_entry raw = Processing n (Some (l * 1000))" by simp
    with present(4) assms(2) [of n "Some (l * 1000)"] show False by simp
  qed
  with present show ?thesis by (simp add: lua_update_status_def)
qed

text \<open>On a message being processed it writes the finished record.\<close>

lemma update_script_busy:
  assumes ok: "redis_ok r" and busy: "fst (redis_cells now r m) = Processing n l"
  obtains raw u d where "r_get env now (redis_key m) r = Some raw" "stored r (redis_key m) = Some (raw, u)"
    "alive now u" "redis_cells now r m = (Processing n l, u)" "r_decode env raw = Some (PDict d)" "record_ok d"
    "map_of d ''status'' = Some (PStr ''PROCESSING'')"
  using ok
proof (cases rule: read_cases [where now = now and m = m])
  case absent
  with busy show ?thesis by simp
next
  case (present raw u d)
  from present(6) obtain st where st: "map_of d ''status'' = Some (PStr (status_text st))"
    using record_okE by blast
  have "st = PROCESSING"
    using present(4,7) busy unfolding fields_entry_eq [OF st] by (cases st) auto
  with present busy st that show ?thesis by (simp add: status_text.simps)
qed

lemma finish_record:
  assumes ok: "redis_ok r" and key: "stored r (redis_key m) = Some (raw, u)" "alive now u"
    and d: "record_ok d"
  obtains s where "r_encode env (PDict d) = Some s"
    "redis_ok (r_set_keepttl env now (redis_key m) s r)"
    "redis_cells now (r_set_keepttl env now (redis_key m) s r) = (redis_cells now r)(m := (redis_entry s, u))"
    "same_entry (fields_entry d) (redis_entry s)"
proof -
  from d obtain s where s: "r_encode env (PDict d) = Some s" "value_ok s"
    "same_entry (fields_entry d) (redis_entry s)" by (rule write_record)
  from write_ok [OF ok set_keepttl [OF key] s(2) key(2)] s(1,3) that show ?thesis by blast
qed

lemma result_json_decodes:
  assumes "cjson_ok v (max_depth - 1)" "v \<noteq> PNone"
  obtains x where "json_dumps (r_repr env) v = Inr (dump_text (r_repr env) v)" "dump_text (r_repr env) v \<noteq> []"
    "r_decode env (dump_text (r_repr env) v) = Some x" "same_value v x" "cjson_ok x (max_depth - 1)"
proof -
  have json: "json_ok v" by (rule json_ok_cjson [OF assms(1)])
  then have "dump_text (r_repr env) v \<noteq> []" by (metis dump_text_head list.distinct(1))
  with decode_dumps [OF assms(1)] loads_dumps [OF json] that show ?thesis by blast
qed

lemma complete_script_busy:
  assumes ok: "redis_ok r" and busy: "fst (redis_cells now r m) = Processing n l"
    and v: "cjson_ok v (max_depth - 1)"
  shows "\<exists>r' v'. update_script m COMPLETED (if v = PNone then [] else dump_text (r_repr env) v) [] [] now r = (Inr 1, r')
     \<and> redis_ok r' \<and> same_value v v' \<and> redis_cells now r' = a_complete v' m (redis_cells now r)"
proof -
  from ok busy obtain raw u d where k: "r_get env now (redis_key m) r = Some raw"
    "stored r (redis_key m) = Some (raw, u)" "alive now u" "redis_cells now r m = (Processing n l, u)"
    and d: "r_decode env raw = Some (PDict d)" "record_ok d" "map_of d ''status'' = Some (PStr ''PROCESSING'')"
    by (rule update_script_busy)
  obtain y where y: "case y of None \<Rightarrow> v = PNone | Some x \<Rightarrow> v \<noteq> PNone \<and> same_value v x \<and> cjson_ok x (max_depth - 1)
      \<and> dump_text (r_repr env) v \<noteq> [] \<and> r_decode env (dump_text (r_repr env) v) = Some x"
  proof (cases "v = PNone")
    case True
    then show ?thesis by (intro that [of None]) simp
  next
    case False
    with v obtain x where "dump_text (r_repr env) v \<noteq> []" "r_decode env (dump_text (r_repr env) v) = Some x"
      "same_value v x" "cjson_ok x (max_depth - 1)" using result_json_decodes by metis
    with False show ?thesis by (intro that [of "Some x"]) simp
  qed
  then have "case y of None \<Rightarrow> True | Some x \<Rightarrow> cjson_ok x (max_depth - 1)" by (simp split: option.splits)
  note fin = completed_record_ok [OF d(2,3) is_stamp_now [of env now] this]
  from finish_record [OF ok k(2,3) fin(1)] obtain s where
    s: "r_encode env (PDict (completed_record (now_iso env now) y d)) = Some s"
    "redis_ok (r_set_keepttl env now (redis_key m) s r)"
    "redis_cells now (r_set_keepttl env now (redis_key m) s r) = (redis_cells now r)(m := (redis_entry s, u))"
    "same_entry (fields_entry (completed_record (now_iso env now) y d)) (redis_entry s)" by blast
  from s(4) fin(2) obtain v' where v': "redis_entry s = Completed v'"
    "same_value (case y of None \<Rightarrow> PNone | Some x \<Rightarrow> x) v'" by (cases "redis_entry s") auto
  have "same_value v v'"
    using y v'(2) same_value_trans by (cases y) auto
  moreover have "update_script m COMPLETED (if v = PNone then [] else dump_text (r_repr env) v) [] [] now r
      = (Inr 1, r_set_keepttl env now (redis_key m) s r)"
    using k(1) d(1,3) s(1) y
    by (cases y) (simp_all add: lua_update_status_def Let_def completed_record_def status_record_def)
  moreover have "(redis_cells now r)(m := (redis_entry s, u)) = a_complete v' m (redis_cells now r)"
    using k(4) v'(1) by (simp add: a_complete_def)
  ultimately show ?thesis using s(2,3) by metis
qed

lemma fail_script_busy:
  assumes ok: "redis_ok r" and busy: "fst (redis_cells now r m) = Processing n0 l0"
    and "redis_reportable err n"
  shows "\<exists>r'. update_script m FAILED [] err (show_int n) now r = (Inr 1, r')
     \<and> redis_ok r' \<and> redis_cells now r' = a_fail n m (redis_cells now r)"
proof -
  from ok busy obtain raw u d where k: "r_get env now (redis_key m) r = Some raw"
    "stored r (redis_key m) = Some (raw, u)" "alive now u" "redis_cells now r m = (Processing n0 l0, u)"
    and d: "r_decode env raw = Some (PDict d)" "record_ok d" "map_of d ''status'' = Some (PStr ''PROCESSING'')"
    by (rule update_script_busy)
  have rep: "utf8_ok err" "\<bar>n\<bar> < 10 ^ 14" using assms(3) by (simp_all add: redis_reportable_def)
  note fin = failed_record_ok [OF d(2,3) is_stamp_now [of env now] rep]
  from finish_record [OF ok k(2,3) fin(1)] obtain s where
    s: "r_encode env (PDict (failed_record (now_iso env now) err n d)) = Some s"
    "redis_ok (r_set_keepttl env now (redis_key m) s r)"
    "redis_cells now (r_set_keepttl env now (redis_key m) s r) = (redis_cells now r)(m := (redis_entry s, u))"
    "same_entry (fields_entry (failed_record (now_iso env now) err n d)) (redis_entry s)" by blast
  have entry: "redis_entry s = Failed n" using s(4) unfolding fin(2) by simp
  have "show_int n \<noteq> []" by (simp add: show_int_def)
  then have "update_script m FAILED [] err (show_int n) now r = (Inr 1, r_set_keepttl env now (redis_key m) s r)"
    using k(1) d(1,3) s(1) tonumber_str [OF rep(2)]
    by (cases "err = []") (simp_all add: lua_update_status_def Let_def failed_record_def status_record_def)
  moreover have "(redis_cells now r)(m := (redis_entry s, u)) = a_fail n m (redis_cells now r)"
    using k(4) entry by (simp add: a_fail_def)
  ultimately show ?thesis using s(2,3) by metis
qed

subsection \<open>The methods behind the connection\<close>

lemma request_cases:
  assumes "request env now f r = (x, r')"
  obtains (answered) "f r = (x, r')" | (lost) e where "x = Inl e" "r' = r"
    | (unheard) e where "x = Inl e" "r' = snd (f r)"
  using assms request_fault [OF fault, of now r _ _ "snd (f r)"] by (auto simp: request_def split: option.splits)

text \<open>A method is a request whose answer is translated.\<close>

lemma mapped_request:
  assumes "bind_eff (request env now f) (\<lambda>x. ret (g x)) r = (y, r')" "f r = (Inr x, r1)"
  shows "y = Inr (g x) \<and> r' = r1 \<or> (\<exists>e. y = Inl e \<and> (r' = r \<or> r' = r1))"
  using assms request_fault [OF fault, of now r _ _ r1] by (auto simp: bind_eff_def request_def ret_def split: option.splits)

lemma range_lease: "lease_at cfg now (lease_ms now * 1000)"
proof -
  have "now - 1000 < now div 1000 * 1000 \<and> now div 1000 * 1000 \<le> now"
    using mult_div_mod_eq [of 1000 now] pos_mod_bound [of 1000 now] pos_mod_sign [of 1000 now] by linarith
  then show ?thesis by (simp add: lease_at_def lease_ms_def time_ms_eq)
qed

lemma redis_claim_run:
  assumes "redis_ok r" "redis_range now r m" "redis_claim env cfg m now r = (x, r')"
  shows "redis_ok r' \<and> (\<exists>l. lease_at cfg now l \<and>
      (case x of Inr b \<Rightarrow> (b, redis_cells now r') = a_claim cfg fresh_until now l m (redis_cells now r)
       | Inl e \<Rightarrow> redis_cells now r' = redis_cells now r
          \<or> redis_cells now r' = snd (a_claim cfg fresh_until now l m (redis_cells now r))))"
proof -
  let ?A = "a_claim cfg fresh_until now (lease_ms now * 1000) m (redis_cells now r)"
  obtain b r1 where run: "claim_script m now r = (Inr (if b then 1 else 0), r1)" "redis_ok r1"
    "(b, redis_cells now r1) = ?A" using claim_script_run [OF assms(1,2)] by blast
  have snd: "redis_cells now r1 = snd ?A" using arg_cong [OF run(3), of snd] by simp
  have "x = Inr b \<and> r' = r1 \<or> (\<exists>e. x = Inl e \<and> (r' = r \<or> r' = r1))"
    using mapped_request [OF assms(3) [unfolded redis_claim_def] run(1)] by (cases b) auto
  then consider "x = Inr b" "r' = r1" | e where "x = Inl e" "r' = r" | e where "x = Inl e" "r' = r1"
    by blast
  then show ?thesis
    by cases (use run assms(1) snd range_lease in \<open>auto intro!: exI [of _ "lease_ms now * 1000"]\<close>)
qed

text \<open>The script run of a completion and of a failure report, whatever the message's status.\<close>

abbreviation result_text :: "pyval \<Rightarrow> string" where
  "result_text v \<equiv> (if v = PNone then [] else dump_text (r_repr env) v)"

lemma complete_script_run:
  assumes ok: "redis_ok r" and v: "storable_in_redis v"
  obtains i r1 v' where "update_script m COMPLETED (result_text v) [] [] now r = (Inr i, r1)" "redis_ok r1"
    "same_value v v'" "redis_cells now r1 = a_complete v' m (redis_cells now r)"
proof (cases "\<exists>n l. fst (redis_cells now r m) = Processing n l")
  case True
  have "cjson_ok v (max_depth - 1)" using v by (simp only: storable_in_redis_def)
  from True complete_script_busy [OF ok _ this] that show ?thesis by blast
next
  case False
  then have "a_complete v m (redis_cells now r) = redis_cells now r" by (simp add: a_idle)
  moreover have "\<exists>i. update_script m COMPLETED (result_text v) [] [] now r = (Inr i, r)"
    by (rule update_script_idle [OF ok]) (use False in blast)
  ultimately show ?thesis using that ok same_value_refl by metis
qed

lemma fail_script_run:
  assumes ok: "redis_ok r" and rep: "redis_reportable err n"
  obtains i r1 where "update_script m FAILED [] err (show_int n) now r = (Inr i, r1)" "redis_ok r1"
    "redis_cells now r1 = a_fail n m (redis_cells now r)"
proof (cases "\<exists>n0 l0. fst (redis_cells now r m) = Processing n0 l0")
  case True
  then show ?thesis using fail_script_busy [OF ok _ rep] that by blast
next
  case False
  then have "a_fail n m (redis_cells now r) = redis_cells now r" by (simp add: a_idle)
  moreover have "\<exists>i. update_script m FAILED [] err (show_int n) now r = (Inr i, r)"
    by (rule update_script_idle [OF ok]) (use False in blast)
  ultimately show ?thesis using that ok by metis
qed

lemma completed_call:
  assumes "storable_in_redis v"
  shows "redis_mark_completed env m v now =
     bind_eff (request env now (update_script m COMPLETED (result_text v) [] [] now)) (\<lambda>_. ret ())"
proof -
  have v: "cjson_ok v (max_depth - 1)" using assms by (simp only: storable_in_redis_def)
  have "(if v = PNone then Inr [] else json_dumps (r_repr env) v) = Inr (result_text v)"
    by (cases "v = PNone") (auto elim: result_json_decodes [OF v])
  then show ?thesis by (simp add: redis_mark_completed_def run_update_script_def)
qed

lemma failed_call:
  "redis_mark_failed env m err n now =
     bind_eff (request env now (update_script m FAILED [] err (show_int n) now)) (\<lambda>_. ret ())"
  by (simp add: redis_mark_failed_def run_update_script_def)

lemma redis_complete_run:
  assumes ok: "redis_ok r" and v: "storable_in_redis v" and run: "redis_mark_completed env m v now r = (x, r')"
  shows "redis_ok r' \<and> (\<exists>v'. same_value v v' \<and>
      (case x of Inr u \<Rightarrow> redis_cells now r' = a_complete v' m (redis_cells now r)
       | Inl e \<Rightarrow> redis_cells now r' = redis_cells now r \<or> redis_cells now r' = a_complete v' m (redis_cells now r)))"
proof -
  from ok v obtain i r1 v' where script: "update_script m COMPLETED (result_text v) [] [] now r = (Inr i, r1)"
    "redis_ok r1" "same_value v v'" "redis_cells now r1 = a_complete v' m (redis_cells now r)"
    by (rule complete_script_run)
  from mapped_request [OF run [unfolded completed_call [OF v]] script(1)]
  consider "x = Inr ()" "r' = r1" | e where "x = Inl e" "r' = r" | e where "x = Inl e" "r' = r1" by fastforce
  then show ?thesis by cases (use script ok in auto)
qed

lemma redis_fail_run:
  assumes ok: "redis_ok r" and rep: "redis_reportable err n" and run: "redis_mark_failed env m err n now r = (x, r')"
  shows "redis_ok r' \<and>
      (case x of Inr u \<Rightarrow> redis_cells now r' = a_fail n m (redis_cells now r)
       | Inl e \<Rightarrow> redis_cells now r' = redis_cells now r \<or> redis_cells now r' = a_fail n m (redis_cells now r))"
proof -
  from ok rep obtain i r1 where script: "update_script m FAILED [] err (show_int n) now r = (Inr i, r1)" "redis_ok r1"
    "redis_cells now r1 = a_fail n m (redis_cells now r)"
    by (rule fail_script_run)
  from mapped_request [OF run [unfolded failed_call] script(1)]
  consider "x = Inr ()" "r' = r1" | e where "x = Inl e" "r' = r" | e where "x = Inl e" "r' = r1" by fastforce
  then show ?thesis by cases (use script ok in auto)
qed

subsection \<open>Reading a record\<close>

lemma parse_entry:
  assumes "value_ok s" "parse_status env now s = Inr p"
  shows "entry_of (Some p) = redis_entry s"
proof -
  from assms(1) obtain d0 d where d: "json_loads_str s = Inr (PDict d)" "same_value (PDict d0) (PDict d)" "record_ok d0"
    unfolding value_ok_def by blast
  note same = same_lookup_simps [OF d(2)]
  from d(3) obtain st n where fields: "map_of d ''status'' = Some (PStr (status_text st))"
    "map_of d ''attempts'' = Some (PInt n)" "map_of d ''lease_expires_at'' = None"
    and until: "if st = PROCESSING then \<exists>l. map_of d ''lease_until_ms'' = Some (PInt l)
      else map_of d ''lease_until_ms'' = None"
    and bound: "\<forall>l. map_of d ''lease_until_ms'' = Some (PInt l) \<longrightarrow> \<bar>l\<bar> \<le> max_instant_ms"
    unfolding record_ok_def same by blast
  have status: "to_status (PStr (status_text st)) = Some st" by (simp add: to_status_def)
  show ?thesis
  proof (cases "st = PROCESSING")
    case True
    with until bound obtain l where l: "map_of d ''lease_until_ms'' = Some (PInt l)" "\<bar>l\<bar> \<le> max_instant_ms" by auto
    have "ps_status p = PROCESSING \<and> ps_attempts p = n \<and> ps_lease_expires_at p = Some (l * 1000)"
      using assms(2) d(1) fields l True status
      by (auto simp: parse_status_def dict_get_def from_timestamp_ms_def max_instant_ms_def validate_status_def
          field_def dict_simps to_int split: option.splits)
    with True l fields show ?thesis
      unfolding redis_entry_def d(1) by (simp add: entry_of_def fields_entry_eq the_int_def)
  next
    case False
    with until have l: "map_of d ''lease_until_ms'' = None" by simp
    have "ps_status p = st \<and> ps_attempts p = n \<and> ps_result p = dict_get ''result'' d"
      using assms(2) d(1) fields l status
      by (auto simp: parse_status_def dict_get_def validate_status_def field_def dict_simps to_int split: option.splits)
    with False l fields show ?thesis
      unfolding redis_entry_def d(1) by (cases st) (simp_all add: entry_of_def fields_entry_eq the_int_def)
  qed
qed

text \<open>A stored record is always read back.\<close>

lemma parse_total:
  assumes "value_ok s"
  obtains p where "parse_status env now s = Inr p"
proof -
  from assms obtain d0 d where d: "json_loads_str s = Inr (PDict d)" "same_value (PDict d0) (PDict d)" "record_ok d0"
    unfolding value_ok_def by blast
  note same = same_lookup_simps [OF d(2)]
  from d(3) obtain st n where fields: "map_of d ''status'' = Some (PStr (status_text st))"
    "map_of d ''attempts'' = Some (PInt n)" "map_of d ''lease_expires_at'' = None" "described d"
    and until: "if st = PROCESSING then \<exists>l. map_of d ''lease_until_ms'' = Some (PInt l)
      else map_of d ''lease_until_ms'' = None"
    and bound: "\<forall>l. map_of d ''lease_until_ms'' = Some (PInt l) \<longrightarrow> \<bar>l\<bar> \<le> max_instant_ms"
    unfolding record_ok_def described_same [OF d(2)] same by blast
  from fields(4) obtain mid c w where descr: "map_of d ''message_id'' = Some (PStr mid)"
    "map_of d ''created_at'' = Some (PStr c)" "is_stamp c" "map_of d ''updated_at'' = Some (PStr w)" "is_stamp w"
    "map_of d ''error'' = None \<or> (\<exists>e. map_of d ''error'' = Some (PStr e))"
    unfolding described_def by blast
  obtain tc tw where times: "r_to_time env (PStr c) = Some tc" "r_to_time env (PStr w) = Some tw"
    using to_time [OF descr(3)] to_time [OF descr(5)] by blast
  have valid: "\<exists>p. validate_status env now lease (AList.delete ''lease_until_ms'' d) = Some p" for lease
    using fields(1,2) descr times
    by (auto simp: validate_status_def field_def optional_def dict_simps to_str to_int to_status_def)
  have "\<exists>lease. parse_status env now s =
      (case validate_status env now lease (AList.delete ''lease_until_ms'' d) of
         None \<Rightarrow> Inl ValidationError | Some p \<Rightarrow> Inr p)"
  proof (cases "map_of d ''lease_until_ms''")
    case None
    then show ?thesis
      using d(1) fields(3) by (intro exI [of _ None]) (simp add: parse_status_def dict_get_def dict_simps)
  next
    case (Some v)
    with until obtain l where "v = PInt l" by (auto split: if_splits)
    with Some bound d(1) show ?thesis
      by (intro exI [of _ "Some (l * 1000)"])
         (simp add: parse_status_def dict_get_def from_timestamp_ms_def max_instant_ms_def)
  qed
  then obtain lease where parse: "parse_status env now s =
      (case validate_status env now lease (AList.delete ''lease_until_ms'' d) of
         None \<Rightarrow> Inl ValidationError | Some p \<Rightarrow> Inr p)" by blast
  from valid [of lease] obtain p where "validate_status env now lease (AList.delete ''lease_until_ms'' d) = Some p" by blast
  then show ?thesis by (intro that [of p]) (simp add: parse)
qed

lemma reading_request:
  assumes "request env now (\<lambda>r. (Inr (f r), r)) r = (x, r')"
  shows "r' = r \<and> (x = Inr (f r) \<or> (\<exists>e. x = Inl e))"
  using assms request_fault [OF fault, of now r _ _ r] by (auto simp: request_def split: option.splits)

lemma redis_status_run:
  assumes "redis_ok r" "redis_get_status env m now r = (x, r')"
  shows "r' = r \<and> (case x of Inr p \<Rightarrow> entry_of p = fst (redis_cells now r m) | Inl e \<Rightarrow> True)"
proof (cases "request env now (\<lambda>r. (Inr (r_get env now (redis_key m) r), r)) r")
  case (Pair raw r1)
  from reading_request [OF Pair] have r1: "r1 = r"
    and raw: "raw = Inr (r_get env now (redis_key m) r) \<or> (\<exists>e. raw = Inl e)" by blast+
  show ?thesis
    using assms(1)
  proof (cases rule: read_cases [where now = now and m = m])
    case absent
    then show ?thesis
      using assms(2) Pair r1 raw by (auto simp: redis_get_status_def bind_eff_def ret_def entry_of_def)
  next
    case (present s u d)
    have "value_ok s" using redis_okD [OF assms(1) present(2)] .
    then show ?thesis
      using assms(2) Pair r1 raw present parse_entry [of s now]
      by (auto simp: redis_get_status_def bind_eff_def ret_def raise_def split: sum.splits)
  qed
qed

lemma redis_duplicate_run:
  assumes "redis_ok r" "redis_is_duplicate env m now r = (x, r')"
  shows "r' = r \<and> (case x of Inr b \<Rightarrow> b = (fst (redis_cells now r m) \<noteq> Absent) | Inl e \<Rightarrow> True)"
proof -
  note run = reading_request [OF assms(2) [unfolded redis_is_duplicate_def]]
  show ?thesis
    using assms(1)
  proof (cases rule: read_cases [where now = now and m = m])
    case absent
    with run show ?thesis by auto
  next
    case (present s u d)
    with run value_entry [OF redis_okD [OF assms(1) present(2)]] show ?thesis by auto
  qed
qed

lemma redis_delete_run:
  assumes "redis_ok r" "redis_delete env m now r = (x, r')"
  shows "redis_ok r' \<and>
      (case x of Inr u \<Rightarrow> redis_cells now r' = a_delete m (redis_cells now r)
       | Inl e \<Rightarrow> redis_cells now r' = redis_cells now r \<or> redis_cells now r' = a_delete m (redis_cells now r))"
  using assms(1) delete_ok [OF assms(1), of now m]
  by (rule_tac request_cases [OF assms(2) [unfolded redis_delete_def]]) auto

subsection \<open>Requests that are answered\<close>

lemma answered: "r_fault env now r = None \<Longrightarrow> request env now f r = f r"
  by (simp add: request_def)

lemma claim_answered:
  assumes "redis_ok r" "redis_range now r m" "r_fault env now r = None"
  obtains b r' where "redis_claim env cfg m now r = (Inr b, r')" "redis_ok r'"
    "(b, redis_cells now r') = a_claim cfg fresh_until now (lease_ms now * 1000) m (redis_cells now r)"
proof -
  obtain b r' where run: "claim_script m now r = (Inr (if b then 1 else 0), r')" "redis_ok r'"
    "(b, redis_cells now r') = a_claim cfg fresh_until now (lease_ms now * 1000) m (redis_cells now r)"
    using claim_script_run [OF assms(1,2)] by blast
  have "redis_claim env cfg m now r = (Inr b, r')"
    using run(1) by (simp add: redis_claim_def bind_eff_def answered [OF assms(3)] ret_def)
  with run that show ?thesis by blast
qed

lemma complete_answered:
  assumes "redis_ok r" "storable_in_redis v" "r_fault env now r = None"
  obtains r' v' where "redis_mark_completed env m v now r = (Inr (), r')" "redis_ok r'" "same_value v v'"
    "redis_cells now r' = a_complete v' m (redis_cells now r)"
proof -
  from assms(1,2) obtain i r' v' where script: "update_script m COMPLETED (result_text v) [] [] now r = (Inr i, r')"
    "redis_ok r'" "same_value v v'" "redis_cells now r' = a_complete v' m (redis_cells now r)"
    by (rule complete_script_run)
  have "redis_mark_completed env m v now r = (Inr (), r')"
    by (simp add: completed_call [OF assms(2)] bind_eff_def answered [OF assms(3)] script(1) ret_def)
  with script that show ?thesis by blast
qed

lemma fail_answered:
  assumes "redis_ok r" "redis_reportable err n" "r_fault env now r = None"
  obtains r' where "redis_mark_failed env m err n now r = (Inr (), r')" "redis_ok r'"
    "redis_cells now r' = a_fail n m (redis_cells now r)"
proof -
  from assms(1,2) obtain i r' where script: "update_script m FAILED [] err (show_int n) now r = (Inr i, r')"
    "redis_ok r'" "redis_cells now r' = a_fail n m (redis_cells now r)"
    by (rule fail_script_run)
  have "redis_mark_failed env m err n now r = (Inr (), r')"
    by (simp add: failed_call bind_eff_def answered [OF assms(3)] script(1) ret_def)
  with script that show ?thesis by blast
qed

lemma delete_answered:
  assumes "redis_ok r" "r_fault env now r = None"
  obtains r' where "redis_delete env m now r = (Inr (), r')" "redis_ok r'"
    "redis_cells now r' = a_delete m (redis_cells now r)"
  using that delete_ok [OF assms(1)] by (simp add: redis_delete_def answered [OF assms(2)])

text \<open>Only the connection can make \<open>get_status\<close> raise.\<close>

lemma status_answered:
  assumes "redis_ok r" "r_fault env now r = None"
  obtains p where "redis_get_status env m now r = (Inr p, r)" "entry_of p = fst (redis_cells now r m)"
  using assms(1)
proof (cases rule: read_cases [where now = now and m = m])
  case absent
  then show ?thesis
    by (intro that [of None])
       (simp_all add: redis_get_status_def bind_eff_def answered [OF assms(2)] ret_def entry_of_def)
next
  case (present s u d)
  have "value_ok s" using redis_okD [OF assms(1) present(2)] .
  then obtain p where p: "parse_status env now s = Inr p" by (rule parse_total)
  with \<open>value_ok s\<close> have "entry_of (Some p) = redis_entry s" by (rule parse_entry)
  with p present show ?thesis
    by (intro that [of "Some p"])
       (simp_all add: redis_get_status_def bind_eff_def answered [OF assms(2)] ret_def)
qed

end

subsection \<open>The contract\<close>

sublocale redis_backend \<subseteq> guarded_store "redis_ops env cfg" cfg redis_cells fresh_until redis_ok redis_range
  storable_in_redis redis_reportable
proof
  fix r r' :: 'r and now t n :: int and m err v
  show "redis_ok r \<Longrightarrow> now \<le> t \<Longrightarrow> redis_cells t r = a_age t (redis_cells now r)"
    by (simp add: redis_cells_def cells_of_age)
  show "redis_ok r \<Longrightarrow> redis_range now r m \<Longrightarrow> op_claim (redis_ops env cfg) m now r = (x, r') \<Longrightarrow>
      redis_ok r' \<and> (\<exists>l. lease_at cfg now l \<and>
        (case x of Inr b \<Rightarrow> (b, redis_cells now r') = a_claim cfg fresh_until now l m (redis_cells now r)
         | Inl e \<Rightarrow> redis_cells now r' = redis_cells now r
               \<or> redis_cells now r' = snd (a_claim cfg fresh_until now l m (redis_cells now r))))" for x
    by (simp add: redis_claim_run)
  show "redis_ok r \<Longrightarrow> redis_range now r m \<Longrightarrow> storable_in_redis v \<Longrightarrow>
      op_mark_completed (redis_ops env cfg) m v now r = (x, r') \<Longrightarrow>
      redis_ok r' \<and> (\<exists>v'. same_value v v' \<and>
        (case x of Inr u \<Rightarrow> redis_cells now r' = a_complete v' m (redis_cells now r)
         | Inl e \<Rightarrow> redis_cells now r' = redis_cells now r \<or> redis_cells now r' = a_complete v' m (redis_cells now r)))" for x
    by (simp add: redis_complete_run)
  show "redis_ok r \<Longrightarrow> redis_range now r m \<Longrightarrow> fst (redis_cells now r m) = Processing n0 l0 \<Longrightarrow>
      redis_reportable err n \<Longrightarrow> op_mark_failed (redis_ops env cfg) m err n now r = (x, r') \<Longrightarrow>
      redis_ok r' \<and>
        (case x of Inr u \<Rightarrow> redis_cells now r' = a_fail n m (redis_cells now r)
         | Inl e \<Rightarrow> redis_cells now r' = redis_cells now r \<or> redis_cells now r' = a_fail n m (redis_cells now r))" for x n0 l0
    by (simp add: redis_fail_run)
  show "redis_ok r \<Longrightarrow> redis_range now r m \<Longrightarrow> redis_reportable err n \<Longrightarrow>
      op_mark_failed (redis_ops env cfg) m err n now r = (x, r') \<Longrightarrow>
      redis_ok r' \<and> (\<forall>k. k \<noteq> m \<longrightarrow> redis_cells now r' k = redis_cells now r k)" for x
    using redis_fail_run [of r err n m now x r'] by (auto split: sum.splits)
  show "redis_ok r \<Longrightarrow> op_get_status (redis_ops env cfg) m now r = (x, r') \<Longrightarrow>
      r' = r \<and> (case x of Inr p \<Rightarrow> entry_of p = fst (redis_cells now r m) | Inl e \<Rightarrow> True)" for x
    by (simp add: redis_status_run)
  show "redis_ok r \<Longrightarrow> op_is_duplicate (redis_ops env cfg) m now r = (x, r') \<Longrightarrow>
      r' = r \<and> (case x of Inr b \<Rightarrow> b = (fst (redis_cells now r m) \<noteq> Absent) | Inl e \<Rightarrow> True)" for x
    by (simp add: redis_duplicate_run)
  show "redis_ok r \<Longrightarrow> op_delete (redis_ops env cfg) m now r = (x, r') \<Longrightarrow>
      redis_ok r' \<and>
        (case x of Inr u \<Rightarrow> redis_cells now r' = a_delete m (redis_cells now r)
         | Inl e \<Rightarrow> redis_cells now r' = redis_cells now r \<or> redis_cells now r' = a_delete m (redis_cells now r))" for x
    by (simp add: redis_delete_run)
  show "redis_ok r \<Longrightarrow> redis_range now r m \<Longrightarrow> redis_reportable err n \<Longrightarrow>
      (\<And>n0 l0. fst (redis_cells now r m) \<noteq> Processing n0 l0) \<Longrightarrow>
      op_mark_failed (redis_ops env cfg) m err n now r = (x, r') \<Longrightarrow>
      redis_ok r' \<and> redis_cells now r' = redis_cells now r" for x
    using redis_fail_run [of r err n m now x r'] by (auto simp: a_idle split: sum.splits)
qed

end
