(* ===== verification/Redis_Server.thy ===== *)
theory Redis_Server
  imports Redis_Refines
begin

section \<open>A server that keeps the contract\<close>

text \<open>
  \<open>redis_backend\<close> can be met: \<open>server_env\<close> is a keyspace in which a key has its text and the instant
  until which it is kept, with whole-millisecond expiry as the \<open>PX\<close> option has it, JSON texts for
  \<open>cjson\<close>, and an arbitrary schedule \<open>faults\<close> of requests that raise. The interpretation holds for every
  such schedule and every configuration with a positive \<open>ttl_seconds\<close>; the theorems about the store
  are instantiated on it.
\<close>

definition kept_until :: "int \<Rightarrow> int \<Rightarrow> int" where
  "kept_until now ttl_ms = (now div 1000 + ttl_ms) * 1000"

definition visible :: "int \<Rightarrow> string \<Rightarrow> keyspace \<Rightarrow> (string \<times> int option) option" where
  "visible now k ks = (case ks k of
       Some (s, u) \<Rightarrow> if alive now u then Some (s, u) else None
     | None \<Rightarrow> None)"

definition string_number :: "pyval \<Rightarrow> int option" where
  "string_number v = (case v of
       PInt i \<Rightarrow> Some i
     | PStr s \<Rightarrow> (case json_loads_str s of Inr (PInt i) \<Rightarrow> Some i | _ \<Rightarrow> None)
     | _ \<Rightarrow> None)"

text \<open>Instants read from texts are only compared, so their digits will do.\<close>

definition digits_of :: "string \<Rightarrow> int" where
  "digits_of s = foldl (\<lambda>n c. 10 * n + int (of_char c) - 48) 0 (filter (\<lambda>c. c \<in> set ''0123456789'') s)"

definition server_env :: "(int \<Rightarrow> keyspace \<Rightarrow> (bool \<times> exn) option) \<Rightarrow> keyspace redis_env" where
  "server_env faults =
     \<lparr>r_get = (\<lambda>now k ks. map_option fst (visible now k ks)),
      r_set_px = (\<lambda>now k v ttl ks. if 0 < ttl then Some (ks(k \<mapsto> (v, Some (kept_until now ttl)))) else None),
      r_set_keepttl = (\<lambda>now k v ks. ks(k \<mapsto> (v, Option.bind (visible now k ks) snd))),
      r_del = (\<lambda>now k ks. ks(k := None)),
      r_fault = (\<lambda>now ks. map_option (map_prod (\<lambda>acted ks'. if acted then ks' else ks) (\<lambda>e. e)) (faults now ks)),
      r_encode = (\<lambda>x. case json_dumps (\<lambda>_. []) x of Inr s \<Rightarrow> Some s | Inl e \<Rightarrow> None),
      r_decode = (\<lambda>s. case json_loads_str s of Inr x \<Rightarrow> Some x | Inl e \<Rightarrow> None),
      r_tonumber = string_number,
      r_local_clock = (\<lambda>now. now),
      r_repr = (\<lambda>_. []),
      r_timestamp = (\<lambda>_. Inl (Exc ''TypeError'' [])),
      r_to_str = (\<lambda>v. case v of PStr s \<Rightarrow> Some s | _ \<Rightarrow> None),
      r_to_int = string_number,
      r_to_time = (\<lambda>v. case v of PStr s \<Rightarrow> Some (digits_of s) | _ \<Rightarrow> None)\<rparr>"

lemma purged_refl [simp]: "purged now ks ks"
  by (simp add: purged_def)

lemma server_codec:
  assumes "cjson_ok x n"
  shows "r_encode (server_env faults) x = Some (dump_text (\<lambda>_. []) x)"
    "r_decode (server_env faults) (dump_text (\<lambda>_. []) x) = Some x"
    "json_loads_str (dump_text (\<lambda>_. []) x) = Inr x"
  using loads_dumps [OF json_ok_cjson [OF assms], of "\<lambda>_. []"] by (simp_all add: server_env_def)

lemma server_show_int: "\<bar>i\<bar> < 10 ^ 14 \<Longrightarrow> json_loads_str (show_int i) = Inr (PInt i)"
  using loads_dumps [of "PInt i" "\<lambda>_. []"] by (simp add: int_ok_small)

lemma server_backend:
  assumes "0 < ttl_seconds cfg"
  shows "redis_backend (server_env faults) cfg (\<lambda>ks. ks) kept_until"
proof
  fix now ttl :: int
  show "now + ttl * 1000 - 1000 < kept_until now ttl"
    using mult_div_mod_eq [of 1000 now] pos_mod_bound [of 1000 now] by (simp add: kept_until_def algebra_simps)
next
  fix x assume ok: "cjson_ok x max_depth"
  show "\<exists>s x' x''. r_encode (server_env faults) x = Some s \<and> r_decode (server_env faults) s = Some x'
      \<and> json_loads_str s = Inr x'' \<and> same_value x x' \<and> same_value x x'' \<and> cjson_ok x' max_depth"
    using server_codec [OF ok] ok same_value_refl by blast
next
  fix x assume ok: "cjson_ok x (max_depth - 1)"
  have "r_repr (server_env faults) = (\<lambda>_. [])" by (simp add: server_env_def)
  then show "\<exists>x'. r_decode (server_env faults) (dump_text (r_repr (server_env faults)) x) = Some x'
      \<and> same_value x x' \<and> cjson_ok x' (max_depth - 1)"
    using server_codec(2) [OF ok] ok same_value_refl by metis
qed (use assms in \<open>auto simp: server_env_def visible_def string_number_def server_show_int sent_at_most_once_def
       split: option.splits prod.splits\<close>)

interpretation server: redis_backend "server_env faults" "default_config" "\<lambda>ks. ks" kept_until for faults
  by (rule server_backend) (simp add: default_config_def)

end
