(* ===== verification/Redis_Props.thy ===== *)
theory Redis_Props
  imports Redis_Server Memory_Props
begin

section \<open>What the Redis store guarantees\<close>

text \<open>
  The properties of \<open>src/dedup/redis_store.py\<close>, for every server that behaves as \<open>redis_backend\<close> says: what the
  methods do when the server answers and when it does not, and the results of \<open>Protocol\<close> for the calls of any
  number of clients. They are instantiated on the server of \<open>Redis_Server\<close>.
\<close>

abbreviation redis_call ::
    "DeduplicationConfig \<Rightarrow> ('r \<Rightarrow> keyspace) \<Rightarrow> 'r \<Rightarrow> call \<Rightarrow> bool" where
  "redis_call cfg stored \<equiv> call_ok (redis_backend.redis_range cfg stored) storable_in_redis redis_backend.redis_reportable"

text \<open>The server without faults, empty, and what holds of it.\<close>

abbreviation calm_server :: "keyspace redis_env" where
  "calm_server \<equiv> server_env (\<lambda>_ _. None)"

lemma calm_fault [simp]: "r_fault calm_server = (\<lambda>_ _. None)"
  by (simp add: server_env_def)

lemma server_empty: "redis_backend.redis_ok (server_env faults) (\<lambda>ks. ks) Map.empty"
  "redis_backend.redis_cells (\<lambda>ks. ks) now Map.empty = (\<lambda>_. (Absent, None))"
  by (simp_all add: server.redis_ok_def server.redis_cells_def cells_of_def)

lemma default_fields:
  "ttl_seconds default_config = 86400" "processing_timeout_seconds default_config = 300"
  by (simp_all add: default_config_def)

lemma m_utf8: "utf8_ok ''m''"
  by (rule printable_utf8_ok) simp

lemma server_range:
  assumes "0 \<le> now" "now < 10 ^ 15" "\<bar>next_attempt (fst (redis_backend.redis_cells (\<lambda>ks. ks) now ks ''m''))\<bar> < 10 ^ 14"
  shows "redis_backend.redis_range default_config (\<lambda>ks. ks) now ks ''m''"
proof -
  have "now div 1000 \<le> 10 ^ 15 div 1000" "0 \<le> now div 1000"
    using assms(1,2) by (simp_all add: zdiv_mono1)
  then have "\<bar>time_ms now + 300 * 1000\<bar> \<le> max_instant_ms" by (simp add: time_ms_eq max_instant_ms_def)
  with assms(3) m_utf8 show ?thesis
    by (simp add: server.redis_range_def server.lease_ms_def default_fields)
qed

lemma server_first_claim:
  obtains ks where "redis_claim calm_server default_config ''m'' 0 Map.empty = (Inr True, ks)"
    "redis_backend.redis_ok calm_server (\<lambda>ks. ks) ks"
    "redis_backend.redis_cells (\<lambda>ks. ks) 0 ks ''m'' = (Processing 1 (Some 300000000), Some (kept_until 0 86400000))"
proof -
  have range: "redis_backend.redis_range default_config (\<lambda>ks. ks) 0 Map.empty ''m''"
    by (rule server_range) (simp_all add: server_empty)
  from server.claim_answered [OF server_empty(1) range calm_fault [THEN fun_cong, THEN fun_cong]]
  obtain b ks where "redis_claim calm_server default_config ''m'' 0 Map.empty = (Inr b, ks)"
    "redis_backend.redis_ok calm_server (\<lambda>ks. ks) ks"
    "(b, redis_backend.redis_cells (\<lambda>ks. ks) 0 ks) = a_claim default_config (server.fresh_until) 0
        (server.lease_ms 0 * 1000) ''m'' (redis_backend.redis_cells (\<lambda>ks. ks) 0 Map.empty)" by blast
  with that show ?thesis
    by (simp add: a_claim_def server_empty server.fresh_until_def server.lease_ms_def time_ms_def default_fields)
qed

subsection \<open>Answered and unanswered requests\<close>



text \<open>How a call relates to the same call on a connection that does not fail.\<close>

abbreviation unfailing :: "'r redis_env \<Rightarrow> 'r redis_env" where
  "unfailing env \<equiv> env\<lparr>r_fault := \<lambda>_ _. None\<rparr>"

definition all_or_nothing :: "('r, 'a) eff \<Rightarrow> ('r, 'a) eff \<Rightarrow> 'r \<Rightarrow> bool" where
  "all_or_nothing m calm r \<longleftrightarrow> (case m r of
       (Inr x, r') \<Rightarrow> calm r = (Inr x, r')
     | (Inl e, r') \<Rightarrow> r' = r \<or> (\<exists>x. calm r = (Inr x, r')))"

lemma unfailing_fields:
  "r_get (unfailing env) = r_get env" "r_set_px (unfailing env) = r_set_px env"
  "r_set_keepttl (unfailing env) = r_set_keepttl env" "r_del (unfailing env) = r_del env"
  "r_encode (unfailing env) = r_encode env" "r_decode (unfailing env) = r_decode env"
  "r_tonumber (unfailing env) = r_tonumber env" "r_repr (unfailing env) = r_repr env"
  by simp_all

lemma unfailing_simps:
  "lua_claim (unfailing env) = lua_claim env"
  "lua_update_status (unfailing env) = lua_update_status env"
  "now_iso (unfailing env) = now_iso env" "r_repr (unfailing env) = r_repr env"
  "r_del (unfailing env) = r_del env" "request (unfailing env) now f = f"
  unfolding fun_eq_iff lua_claim_def lua_update_status_def lua_number_def unfailing_fields
  by (simp_all add: now_iso_def request_def)

text \<open>A script that ends in an error has not written: the error comes before the only write.\<close>

lemma scripts_fail_clean:
  "lua_claim env key m ttl lease n flag stamp now r = (Inl e, r') \<Longrightarrow> r' = r"
  "lua_update_status env key st stamp res err k now r = (Inl e, r') \<Longrightarrow> r' = r"
  by (auto simp: lua_claim_def lua_update_status_def Let_def split: option.splits if_splits)

lemma request_all_or_nothing:
  assumes "sent_at_most_once env" "\<And>e r'. f r = (Inl e, r') \<Longrightarrow> r' = r"
  shows "all_or_nothing (request env now f) f r"
proof -
  obtain x r1 where f: "f r = (x, r1)" by (cases "f r")
  show ?thesis
    using assms(2) request_fault [OF assms(1), of now r _ _ r1]
    by (cases x) (auto simp: all_or_nothing_def request_def f split: option.splits)
qed

lemma all_or_nothing_map:
  "all_or_nothing m calm r \<Longrightarrow> all_or_nothing (bind_eff m (\<lambda>x. ret (g x))) (bind_eff calm (\<lambda>x. ret (g x))) r"
  by (auto simp: all_or_nothing_def bind_eff_def ret_def split: prod.splits sum.splits)

text \<open>
  C20. No half-done update: a call that changes a record and raises, whether the connection failed, the script ended in an error
  or the result could not be written as JSON, leaves the server as it was or as the successful call leaves it; a call that
  returns gives the answer of the call on a connection that does not fail. The only hypothesis is that the client sends a
  request at most once. The scripts must write last for this, since Redis does not undo the writes of a script that fails.
\<close>

theorem redis_request_atomic:
  assumes "sent_at_most_once env"
  shows "all_or_nothing (redis_claim env cfg m now) (redis_claim (unfailing env) cfg m now) r
   \<and> all_or_nothing (redis_mark_completed env m v now) (redis_mark_completed (unfailing env) m v now) r
   \<and> all_or_nothing (redis_mark_failed env m err n now) (redis_mark_failed (unfailing env) m err n now) r
   \<and> all_or_nothing (redis_delete env m now) (redis_delete (unfailing env) m now) r"
proof (intro conjI)
  note requests = request_all_or_nothing [OF assms]
  have update: "all_or_nothing (run_update_script env m st res err' n' now) (run_update_script (unfailing env) m st res err' n' now) r"
    for st res err' n'
    unfolding run_update_script_def unfailing_simps by (rule requests) (rule scripts_fail_clean)
  show "all_or_nothing (redis_claim env cfg m now) (redis_claim (unfailing env) cfg m now) r"
    unfolding redis_claim_def unfailing_simps by (intro all_or_nothing_map requests) (rule scripts_fail_clean)
  show "all_or_nothing (redis_mark_failed env m err n now) (redis_mark_failed (unfailing env) m err n now) r"
    unfolding redis_mark_failed_def by (intro all_or_nothing_map update)
  have refused: "all_or_nothing (raise e) (raise e) r" for e by (simp add: all_or_nothing_def raise_def)
  show "all_or_nothing (redis_mark_completed env m v now) (redis_mark_completed (unfailing env) m v now) r"
    unfolding redis_mark_completed_def unfailing_fields
    by (cases "if v = PNone then Inr [] else json_dumps (r_repr env) v") (simp_all only: sum.case refused all_or_nothing_map [OF update])
  show "all_or_nothing (redis_delete env m now) (redis_delete (unfailing env) m now) r"
    unfolding redis_delete_def unfailing_simps by (rule requests) simp
qed

text \<open>A server that carries out a claim whose answer is lost, for the witness.\<close>

abbreviation deaf_server :: "keyspace redis_env" where
  "deaf_server \<equiv> server_env (\<lambda>_ _. Some (True, Cancelled))"

lemma deaf_claim: "fst (redis_claim deaf_server cfg m now ks) = Inl Cancelled"
proof -
  have "\<exists>leaves. r_fault deaf_server now ks = Some (leaves, Cancelled)" by (simp add: server_env_def)
  then obtain leaves where "r_fault deaf_server now ks = Some (leaves, Cancelled)" ..
  then show ?thesis by (simp add: redis_claim_def bind_eff_def request_def)
qed

theorem redis_request_atomic_witness:
  "\<exists>ks. redis_claim deaf_server default_config ''m'' 0 Map.empty = (Inl Cancelled, ks)
     \<and> (ks = Map.empty \<or> (\<exists>b. redis_claim (unfailing deaf_server) default_config ''m'' 0 Map.empty = (Inr b, ks)))"
proof -
  obtain ks where run: "redis_claim deaf_server default_config ''m'' 0 Map.empty = (Inl Cancelled, ks)"
    using deaf_claim by (metis prod.collapse)
  have "all_or_nothing (redis_claim deaf_server default_config ''m'' 0)
      (redis_claim (unfailing deaf_server) default_config ''m'' 0) Map.empty"
    using redis_request_atomic [OF server.fault] by blast
  with run show ?thesis unfolding all_or_nothing_def by (simp only: run prod.case sum.case) blast
qed

text \<open>
  C22. \<open>get_status\<close> reads every record the scripts write: when the server answers, it returns a
  \<open>ProcessingStatus\<close> whose status, attempts, lease and result are those of the record, or \<open>None\<close> for a message without one.
  No record makes the model class refuse its fields.
\<close>

theorem redis_status_reads:
  assumes "redis_backend env cfg stored expiry" "redis_backend.redis_ok env stored r" "r_fault env now r = None"
  shows "\<exists>p. redis_get_status env m now r = (Inr p, r) \<and> entry_of p = fst (redis_backend.redis_cells stored now r m)"
  using redis_backend.status_answered [OF assms] by blast

theorem redis_status_reads_witness:
  "\<exists>ks p. redis_claim calm_server default_config ''m'' 0 Map.empty = (Inr True, ks)
     \<and> redis_get_status calm_server ''m'' 0 ks = (Inr p, ks) \<and> entry_of p = Processing 1 (Some 300000000)"
proof -
  obtain ks where ks: "redis_claim calm_server default_config ''m'' 0 Map.empty = (Inr True, ks)"
    "redis_backend.redis_ok calm_server (\<lambda>ks. ks) ks"
    "redis_backend.redis_cells (\<lambda>ks. ks) 0 ks ''m'' = (Processing 1 (Some 300000000), Some (kept_until 0 86400000))"
    by (rule server_first_claim)
  from redis_status_reads [OF server.redis_backend_axioms ks(2), of 0 "''m''"] ks show ?thesis by auto
qed

text \<open>
  C21. What \<open>mark_completed\<close> stores, \<open>get_status\<close> returns, for the results that \<open>cjson\<close> can carry: when the result has no float and
  no empty list, its integers have fewer than 15 digits, its texts are UTF-8 and its nesting stays below the limit of \<open>cjson\<close>
  (\<open>storable_in_redis\<close>), the message is being processed and \<open>mark_completed\<close> returned, then a later \<open>get_status\<close> that is answered
  before the record expires gives status \<open>COMPLETED\<close> and an equal result. Other results may come back changed.
\<close>

theorem redis_result_roundtrip:
  assumes "redis_backend env cfg stored expiry" "redis_backend.redis_ok env stored r"
    and "redis_backend.redis_cells stored now r m = (Processing n l, u)" "storable_in_redis v"
    and "redis_mark_completed env m v now r = (Inr (), r')" "now \<le> t" "alive t u" "r_fault env t r' = None"
  shows "\<exists>p. redis_get_status env m t r' = (Inr (Some p), r') \<and> ps_status p = COMPLETED \<and> same_value v (ps_result p)"
proof -
  from redis_backend.redis_complete_run [OF assms(1,2,4,5)] obtain v' where
    ok: "redis_backend.redis_ok env stored r'" and v': "same_value v v'"
    and cells: "redis_backend.redis_cells stored now r' = a_complete v' m (redis_backend.redis_cells stored now r)"
    by auto
  have "redis_backend.redis_cells stored now r' m = (Completed v', u)"
    unfolding cells using assms(3) by (simp add: a_complete_simps)
  then have "fst (redis_backend.redis_cells stored t r' m) = Completed v'"
    using assms(7) by (simp add: redis_backend.redis_cells_def [OF assms(1)] cells_of_age [OF assms(6)] a_age_def)
  with redis_backend.status_answered [OF assms(1) ok assms(8)] obtain p where
    p: "redis_get_status env m t r' = (Inr p, r')" "entry_of p = Completed v'" by metis
  from p(2) obtain q where "p = Some q" "ps_status q = COMPLETED" "ps_result q = v'"
    by (auto simp: entry_of_def split: option.splits StatusValue.splits)
  with p(1) v' show ?thesis by blast
qed

theorem redis_result_roundtrip_witness:
  "\<exists>ks ks' p. redis_mark_completed calm_server ''m'' (PInt 7) 0 ks = (Inr (), ks')
     \<and> redis_get_status calm_server ''m'' 5 ks' = (Inr (Some p), ks') \<and> ps_result p = PInt 7"
proof -
  obtain ks where ks: "redis_claim calm_server default_config ''m'' 0 Map.empty = (Inr True, ks)"
    "redis_backend.redis_ok calm_server (\<lambda>ks. ks) ks"
    "redis_backend.redis_cells (\<lambda>ks. ks) 0 ks ''m'' = (Processing 1 (Some 300000000), Some (kept_until 0 86400000))"
    by (rule server_first_claim)
  have v: "storable_in_redis (PInt 7)" by (simp add: storable_in_redis_def)
  from server.complete_answered [OF ks(2) v, of 0 "''m''"] obtain ks' where
    c: "redis_mark_completed calm_server ''m'' (PInt 7) 0 ks = (Inr (), ks')" by auto
  have live: "alive 5 (Some (kept_until 0 86400000))" by (simp add: alive_def kept_until_def)
  from redis_result_roundtrip [OF server.redis_backend_axioms ks(2,3) v c _ live] c show ?thesis by auto
qed

subsection \<open>Any number of clients\<close>

context redis_backend
begin

lemmas history_laws = no_second_claim one_winner completed_stays

end

lemma redis_step_claim:
  "op_claim (redis_ops env cfg) m t' r = (x, r') \<Longrightarrow> t \<le> t' \<Longrightarrow> redis_backend.redis_range cfg stored t' r m \<Longrightarrow>
   step (redis_ops env cfg) (redis_call cfg stored) (t, r) (CClaim m t' x) (t', r')"
  by (rule step.claim) simp_all

text \<open>A first claim and, five microseconds later, a second one, for the witnesses.\<close>

lemma server_two_claims:
  obtains ks ks' b where
    "step (redis_ops calm_server default_config) (redis_call default_config (\<lambda>ks. ks))
       (0, Map.empty) (CClaim ''m'' 0 (Inr True)) (0, ks)"
    "step (redis_ops calm_server default_config) (redis_call default_config (\<lambda>ks. ks))
       (0, ks) (CClaim ''m'' 5 (Inr b)) (5, ks')"
    "redis_backend.redis_cells (\<lambda>ks. ks) 0 ks ''m'' = (Processing 1 (Some 300000000), Some (kept_until 0 86400000))"
proof -
  obtain ks where ks: "redis_claim calm_server default_config ''m'' 0 Map.empty = (Inr True, ks)"
    "redis_backend.redis_ok calm_server (\<lambda>ks. ks) ks"
    "redis_backend.redis_cells (\<lambda>ks. ks) 0 ks ''m'' = (Processing 1 (Some 300000000), Some (kept_until 0 86400000))"
    by (rule server_first_claim)
  have "fst (redis_backend.redis_cells (\<lambda>ks. ks) 5 ks ''m'') = Processing 1 (Some 300000000)"
    using ks(3) server.cells_age [OF ks(2), of 0 5] by (simp add: a_age_def alive_def kept_until_def)
  then have "redis_backend.redis_range default_config (\<lambda>ks. ks) 5 ks ''m''" by (intro server_range) simp_all
  moreover from server.claim_answered [OF ks(2) this] obtain b ks' where
    "redis_claim calm_server default_config ''m'' 5 ks = (Inr b, ks')" by fastforce
  moreover have "redis_backend.redis_range default_config (\<lambda>ks. ks) 0 Map.empty ''m''"
    by (rule server_range) (simp_all add: server_empty)
  ultimately show ?thesis using ks that by (metis redis_step_claim redis_ops_simps(1) order_refl zero_le_numeral)
qed

text \<open>
  C17. Mutual exclusion on Redis: after a won claim no other claim of the message wins until its lease ends or its
  record expires, unless a call marks the message failed or deletes its record. This holds for requests that
  raise too, whether or not the server carried them out.
\<close>

theorem redis_claim_excludes:
  assumes "redis_backend env cfg stored expiry" "redis_backend.redis_ok env stored s"
    and "step (redis_ops env cfg) (redis_call cfg stored) (t, s) (CClaim m t1 (Inr True)) (t1, s1)"
    and "history (redis_ops env cfg) (redis_call cfg stored) (t1, s1) as (t2, s2)" "\<forall>a \<in> set as. \<not> releases m a"
    and "t2 \<le> t1 + processing_timeout_seconds cfg * 1000000 - 1000"
    and "alive t2 (snd (redis_backend.redis_cells stored t1 s1 m))"
  shows "\<forall>a \<in> set as. \<not> wins m a"
  by (rule redis_backend.history_laws(1) [OF assms(1,3,2,4,5)]) (use assms(6,7) in simp_all)

theorem redis_claim_excludes_witness:
  "\<exists>ks ks' b. redis_claim calm_server default_config ''m'' 0 Map.empty = (Inr True, ks)
     \<and> redis_claim calm_server default_config ''m'' 5 ks = (Inr b, ks') \<and> \<not> b"
proof -
  obtain ks ks' b where h: "step (redis_ops calm_server default_config) (redis_call default_config (\<lambda>ks. ks))
       (0, Map.empty) (CClaim ''m'' 0 (Inr True)) (0, ks)"
    "step (redis_ops calm_server default_config) (redis_call default_config (\<lambda>ks. ks))
       (0, ks) (CClaim ''m'' 5 (Inr b)) (5, ks')"
    "redis_backend.redis_cells (\<lambda>ks. ks) 0 ks ''m'' = (Processing 1 (Some 300000000), Some (kept_until 0 86400000))"
    by (rule server_two_claims)
  have hist: "history (redis_ops calm_server default_config) (redis_call default_config (\<lambda>ks. ks))
      (0, ks) [CClaim ''m'' 5 (Inr b)] (5, ks')"
    using history.more [OF history.none h(2)] by simp
  have "\<not> b"
    using redis_claim_excludes [OF server.redis_backend_axioms server_empty(1) h(1) hist] h(3)
    by (simp add: default_fields alive_def kept_until_def)
  with h(1,2) show ?thesis by (auto elim!: step_claimE)
qed

text \<open>
  Among any number of competing claims of a new message, whichever clients make them and in whatever order the
  server runs them, exactly one wins, while the lease and the record last.
\<close>

theorem redis_one_winner:
  assumes "redis_backend env cfg stored expiry" "redis_backend.redis_ok env stored s0"
    and "history (redis_ops env cfg) (redis_call cfg stored) (t0, s0) as (t, s)"
    and "fst (redis_backend.redis_cells stored t0 s0 m) = Absent"
    and "\<forall>a \<in> set as. about m a \<longrightarrow> (\<exists>t b. a = CClaim m t (Inr b))" "\<exists>a \<in> set as. about m a"
    and "t \<le> t0 + processing_timeout_seconds cfg * 1000000 - 1000" "t \<le> t0 + ttl_seconds cfg * 1000000 - 1000"
  shows "won m as = 1"
proof -
  have "alive t (redis_backend.fresh_until cfg expiry t1)" if "t0 \<le> t1" for t1
    using redis_backend.expiry [OF assms(1), of "ttl_seconds cfg * 1000" t1] redis_backend.ttl_pos [OF assms(1)] that assms(8)
    by (simp add: redis_backend.fresh_until_def [OF assms(1)] alive_def)
  with redis_backend.history_laws(2) [OF assms(1,3), of m] assms(2,4-7) show ?thesis by simp
qed

theorem redis_one_winner_witness:
  "\<exists>b. won ''m'' [CClaim ''m'' 0 (Inr True), CClaim ''m'' 5 (Inr b)] = 1"
proof -
  obtain ks ks' b where h: "step (redis_ops calm_server default_config) (redis_call default_config (\<lambda>ks. ks))
       (0, Map.empty) (CClaim ''m'' 0 (Inr True)) (0, ks)"
    "step (redis_ops calm_server default_config) (redis_call default_config (\<lambda>ks. ks))
       (0, ks) (CClaim ''m'' 5 (Inr b)) (5, ks')"
    by (rule server_two_claims)
  have hist: "history (redis_ops calm_server default_config) (redis_call default_config (\<lambda>ks. ks))
      (0, Map.empty) [CClaim ''m'' 0 (Inr True), CClaim ''m'' 5 (Inr b)] (5, ks')"
    using history.more [OF history.more [OF history.none h(1)] h(2)] by simp
  show ?thesis
    by (rule exI [of _ b], rule redis_one_winner [OF server.redis_backend_axioms server_empty(1) hist])
       (auto simp: server_empty default_fields)
qed

text \<open>
  C18. On Redis a completed message stays completed, with its result, through any calls of any clients that do not
  delete it, until its record expires: no claim of it wins, and a late \<open>mark_failed\<close> or \<open>mark_completed\<close> does not
  overwrite it.
\<close>

theorem redis_completed_stays:
  assumes "redis_backend env cfg stored expiry" "redis_backend.redis_ok env stored s"
    and "history (redis_ops env cfg) (redis_call cfg stored) (t, s) as (t', s')"
    and "redis_backend.redis_cells stored t s m = (Completed v, u)" "\<forall>a \<in> set as. \<not> deletes m a" "alive t' u"
  shows "redis_backend.redis_cells stored t' s' m = (Completed v, u) \<and> (\<forall>a \<in> set as. \<not> wins m a)"
  using redis_backend.history_laws(3) [OF assms(1,3), of m v u] assms(2,4-6) by simp

theorem redis_completed_stays_witness:
  "\<exists>s ks. fst (redis_backend.redis_cells (\<lambda>ks. ks) 0 s ''m'') = Completed (PInt 7)
     \<and> redis_mark_failed calm_server ''m'' ''late'' 1 5 s = (Inr (), ks)
     \<and> fst (redis_backend.redis_cells (\<lambda>ks. ks) 5 ks ''m'') = Completed (PInt 7)"
proof -
  obtain ks where ks: "redis_backend.redis_ok calm_server (\<lambda>ks. ks) ks"
    "redis_backend.redis_cells (\<lambda>ks. ks) 0 ks ''m'' = (Processing 1 (Some 300000000), Some (kept_until 0 86400000))"
    by (rule server_first_claim)
  have v: "storable_in_redis (PInt 7)" by (simp add: storable_in_redis_def)
  from server.complete_answered [OF ks(1) v, of 0 "''m''"] obtain s v' where
    s: "redis_backend.redis_ok calm_server (\<lambda>ks. ks) s" "same_value (PInt 7) v'"
      "redis_backend.redis_cells (\<lambda>ks. ks) 0 s = a_complete v' ''m'' (redis_backend.redis_cells (\<lambda>ks. ks) 0 ks)"
    by (metis calm_fault)
  then have cell: "redis_backend.redis_cells (\<lambda>ks. ks) 0 s ''m'' = (Completed (PInt 7), Some (kept_until 0 86400000))"
    using ks(2) by (simp add: a_complete_simps)
  have rep: "redis_backend.redis_reportable ''late'' 1"
    by (simp add: server.redis_reportable_def printable_utf8_ok)
  from server.fail_answered [OF s(1) rep, of 5 "''m''"] obtain s' where
    f: "redis_mark_failed calm_server ''m'' ''late'' 1 5 s = (Inr (), s')" by auto
  have live: "alive 5 (Some (kept_until 0 86400000))" by (simp add: alive_def kept_until_def)
  have "fst (redis_backend.redis_cells (\<lambda>ks. ks) 5 s ''m'') = Completed (PInt 7)"
    using cell live server.cells_age [OF s(1), of 0 5] by (simp add: a_age_def)
  then have "redis_backend.redis_range default_config (\<lambda>ks. ks) 5 s ''m''" by (intro server_range) simp_all
  then have "step (redis_ops calm_server default_config) (redis_call default_config (\<lambda>ks. ks))
      (0, s) (CFailed ''m'' ''late'' 1 5 (Inr ())) (5, s')"
    by (intro step.failed) (simp_all add: f rep)
  then have hist: "history (redis_ops calm_server default_config) (redis_call default_config (\<lambda>ks. ks))
      (0, s) [CFailed ''m'' ''late'' 1 5 (Inr ())] (5, s')"
    using history.more [OF history.none] by fastforce
  from redis_completed_stays [OF server.redis_backend_axioms s(1) hist cell _ live]
  have "redis_backend.redis_cells (\<lambda>ks. ks) 5 s' ''m'' = (Completed (PInt 7), Some (kept_until 0 86400000))" by simp
  with cell f show ?thesis by (metis fst_conv)
qed

end
