(* ===== verification/Backends_Agree.thy ===== *)
theory Backends_Agree
  imports Redis_Props
begin

section \<open>The two backends are interchangeable\<close>

text \<open>
  \<open>InMemoryDeduplicationStore\<close> stands in for \<open>RedisDeduplicationStore\<close> in tests and development. Here both are run on the
  same calls: while the records they hold say the same to the status machine (\<open>agree\<close>), they give the same answers and
  keep agreeing. The common machine of \<open>Dedup_Store\<close> makes this a comparison of two of its runs.
  They may differ in three places, which the hypotheses exclude: a lease that the memory store keeps in microseconds
  and Redis in milliseconds, the expiry of a record in Redis, and \<open>mark_failed\<close> on a record that is not \<open>PROCESSING\<close>.
\<close>

definition agree :: "astate \<Rightarrow> astate \<Rightarrow> bool" where
  "agree A B \<longleftrightarrow> (\<forall>m. same_entry (fst (A m)) (fst (B m)))"

lemma same_entry_refl [simp]: "same_entry e e"
  by (cases e) simp_all

lemma agreeD: "agree A B \<Longrightarrow> same_entry (fst (A m)) (fst (B m))"
  by (simp add: agree_def)

lemma agree_update: "agree A B \<Longrightarrow> same_entry e e' \<Longrightarrow> agree (A(m := (e, u))) (B(m := (e', u')))"
  by (simp add: agree_def)

lemma same_entry_Processing: "same_entry e e' \<Longrightarrow> (e = Processing n l) = (e' = Processing n l)"
  by (cases e; cases e') auto

lemma agree_claim:
  assumes "agree A B"
  shows "fst (a_claim cfg f now l m A) = fst (a_claim cfg g now l m B)"
    "agree (snd (a_claim cfg f now l m A)) (snd (a_claim cfg g now l m B))"
proof -
  note same = agreeD [OF assms, of m]
  obtain e u e' u' where c: "A m = (e, u)" "B m = (e', u')" by (cases "A m"; cases "B m")
  show "fst (a_claim cfg f now l m A) = fst (a_claim cfg g now l m B)"
    by (simp add: a_claim_won may_claim_same [OF same])
  show "agree (snd (a_claim cfg f now l m A)) (snd (a_claim cfg g now l m B))"
    using assms same may_claim_same [of e e'] next_attempt_same [of e e']
    by (auto simp: a_claim_def c intro: agree_update)
qed

lemma agree_finish:
  assumes "agree A B" "same_value v v'"
  shows "agree (a_complete v m A) (a_complete v' m B)" "agree (a_fail n m A) (a_fail n m B)"
proof -
  note same = agreeD [OF assms(1), of m]
  show "agree (a_complete v m A) (a_complete v' m B)"
  proof (cases "\<exists>k l. fst (A m) = Processing k l")
    case True
    then obtain k l where p: "fst (A m) = Processing k l" by blast
    with same_entry_Processing [OF same, of k l] have "fst (B m) = Processing k l" by blast
    with p assms show ?thesis by (simp add: a_complete_simps agree_update)
  next
    case False
    with same_entry_Processing [OF same] assms(1) show ?thesis by (simp add: a_idle)
  qed
  show "agree (a_fail n m A) (a_fail n m B)"
  proof (cases "\<exists>k l. fst (A m) = Processing k l")
    case True
    then obtain k l where p: "fst (A m) = Processing k l" by blast
    with same_entry_Processing [OF same, of k l] have "fst (B m) = Processing k l" by blast
    with p assms show ?thesis by (simp add: a_fail_simps agree_update)
  next
    case False
    with same_entry_Processing [OF same] assms(1) show ?thesis by (simp add: a_idle)
  qed
qed

lemma agree_delete: "agree A B \<Longrightarrow> agree (a_delete m A) (a_delete m B)"
  by (simp add: a_delete_def agree_update)

lemma lease_end_ms:
  assumes "1000 dvd now"
  shows "(time_ms now + processing_timeout_seconds cfg * 1000) * 1000 = lease_end cfg now"
proof -
  from assms have "now div 1000 * 1000 = now" by simp
  then show ?thesis by (simp add: time_ms_eq lease_end_def algebra_simps)
qed

text \<open>A claim at a whole millisecond gives both records the same lease.\<close>

lemma claims_agree:
  assumes "redis_backend env cfg stored expiry" "redis_backend.redis_ok env stored r" "r_fault env now r = None"
    and "redis_backend.redis_range cfg stored now r m" "1000 dvd now" "agree (mem_cells now st) (redis_backend.redis_cells stored now r)"
  shows "\<exists>b r'. mem_claim cfg m now st = (Inr b, snd (mem_claim cfg m now st)) \<and> redis_claim env cfg m now r = (Inr b, r')
        \<and> agree (mem_cells now (snd (mem_claim cfg m now st))) (redis_backend.redis_cells stored now r')"
proof -
  from assms(1,2,4,3) obtain b r' where c: "redis_claim env cfg m now r = (Inr b, r')"
    "(b, redis_backend.redis_cells stored now r') = a_claim cfg (redis_backend.fresh_until cfg expiry) now
       (redis_backend.lease_ms cfg now * 1000) m (redis_backend.redis_cells stored now r)"
    by (rule redis_backend.claim_answered)
  have "redis_backend.lease_ms cfg now * 1000 = lease_end cfg now"
    using lease_end_ms [OF assms(5)] by (simp add: redis_backend.lease_ms_def [OF assms(1)])
  with c(2) have red: "b = fst (a_claim cfg (redis_backend.fresh_until cfg expiry) now (lease_end cfg now) m (redis_backend.redis_cells stored now r))"
    "redis_backend.redis_cells stored now r' =
       snd (a_claim cfg (redis_backend.fresh_until cfg expiry) now (lease_end cfg now) m (redis_backend.redis_cells stored now r))"
    by (metis fst_conv, metis snd_conv)
  have mem: "fst (mem_claim cfg m now st) = Inr (fst (a_claim cfg (\<lambda>_. None) now (lease_end cfg now) m (mem_cells now st)))"
    "mem_cells now (snd (mem_claim cfg m now st)) = snd (a_claim cfg (\<lambda>_. None) now (lease_end cfg now) m (mem_cells now st))"
    by (auto simp: mem_claim_eq a_claim_def mem_cells_update next_attempt_claimed mem_cells_at)
  show ?thesis
    using c(1) agree_claim [OF assms(6)] unfolding mem(2)
    by (intro exI [of _ b] exI [of _ r']) (auto simp: red mem(1) intro!: prod_eqI)
qed

text \<open>
  C23. Where the in-memory store and the Redis store agree: called at a whole millisecond on records that agree, with a server that
  answers, an instant and an attempt number within range and a result that \<open>cjson\<close> can carry, the methods \<open>claim\<close>,
  \<open>mark_completed\<close>, \<open>mark_failed\<close>, \<open>delete\<close> and \<open>get_status\<close> of the two give the same answers and leave records that agree, in status,
  attempts, lease and result. For \<open>mark_failed\<close> the records are claimed to agree only for a message that is being processed:
  of any other the two stores differ (C26).
\<close>

theorem memory_redis_equivalent:
  assumes "redis_backend env cfg stored expiry" "redis_backend.redis_ok env stored r" "r_fault env now r = None"
    and "redis_backend.redis_range cfg stored now r m" "storable_in_redis v" "redis_backend.redis_reportable err n"
    and "1000 dvd now" "agree (mem_cells now st) (redis_backend.redis_cells stored now r)"
  shows "(\<exists>b r'. mem_claim cfg m now st = (Inr b, snd (mem_claim cfg m now st)) \<and> redis_claim env cfg m now r = (Inr b, r')
        \<and> agree (mem_cells now (snd (mem_claim cfg m now st))) (redis_backend.redis_cells stored now r'))
    \<and> (\<exists>r'. redis_mark_completed env m v now r = (Inr (), r')
        \<and> agree (mem_cells now (snd (mem_mark_completed m v now st))) (redis_backend.redis_cells stored now r'))
    \<and> (\<exists>r'. redis_mark_failed env m err n now r = (Inr (), r') \<and> ((\<exists>k l. fst (mem_cells now st m) = Processing k l) \<longrightarrow>
          agree (mem_cells now (snd (mem_mark_failed m err n now st))) (redis_backend.redis_cells stored now r')))
    \<and> (\<exists>r'. redis_delete env m now r = (Inr (), r')
        \<and> agree (mem_cells now (snd (mem_delete m now st))) (redis_backend.redis_cells stored now r'))
    \<and> (\<exists>p. redis_get_status env m now r = (Inr p, r) \<and> same_entry (entry_of (map_of st m)) (entry_of p))"
proof (intro conjI)
  show "\<exists>b r'. mem_claim cfg m now st = (Inr b, snd (mem_claim cfg m now st)) \<and> redis_claim env cfg m now r = (Inr b, r')
        \<and> agree (mem_cells now (snd (mem_claim cfg m now st))) (redis_backend.redis_cells stored now r')"
    by (rule claims_agree [OF assms(1-4,7,8)])
next
  from assms(1,2,5,3) obtain r' v' where "redis_mark_completed env m v now r = (Inr (), r')" "same_value v v'"
    "redis_backend.redis_cells stored now r' = a_complete v' m (redis_backend.redis_cells stored now r)"
    by (rule redis_backend.complete_answered)
  then show "\<exists>r'. redis_mark_completed env m v now r = (Inr (), r')
      \<and> agree (mem_cells now (snd (mem_mark_completed m v now st))) (redis_backend.redis_cells stored now r')"
    using agree_finish(1) [OF assms(8)] by (simp add: mem_mark_completed_refines)
next
  from assms(1,2,6,3) obtain r' where "redis_mark_failed env m err n now r = (Inr (), r')"
    "redis_backend.redis_cells stored now r' = a_fail n m (redis_backend.redis_cells stored now r)"
    by (rule redis_backend.fail_answered)
  then show "\<exists>r'. redis_mark_failed env m err n now r = (Inr (), r') \<and> ((\<exists>k l. fst (mem_cells now st m) = Processing k l) \<longrightarrow>
      agree (mem_cells now (snd (mem_mark_failed m err n now st))) (redis_backend.redis_cells stored now r'))"
    using agree_finish(2) [OF assms(8) same_value_refl] by (auto simp: mem_mark_failed_refines)
next
  from assms(1,2,3) obtain r' where "redis_delete env m now r = (Inr (), r')"
    "redis_backend.redis_cells stored now r' = a_delete m (redis_backend.redis_cells stored now r)"
    by (rule redis_backend.delete_answered)
  then show "\<exists>r'. redis_delete env m now r = (Inr (), r')
      \<and> agree (mem_cells now (snd (mem_delete m now st))) (redis_backend.redis_cells stored now r')"
    using agree_delete [OF assms(8)] by (simp add: mem_delete_refines)
next
  from assms(1,2,3) obtain p where "redis_get_status env m now r = (Inr p, r)"
    "entry_of p = fst (redis_backend.redis_cells stored now r m)"
    by (rule redis_backend.status_answered)
  then show "\<exists>p. redis_get_status env m now r = (Inr p, r) \<and> same_entry (entry_of (map_of st m)) (entry_of p)"
    using agreeD [OF assms(8), of m] by (simp add: mem_cells_at)
qed

theorem memory_redis_equivalent_witness:
  "\<exists>r'. fst (mem_claim default_config ''m'' 0 mem_init) = Inr True
     \<and> redis_claim calm_server default_config ''m'' 0 Map.empty = (Inr True, r')"
proof -
  have range: "redis_backend.redis_range default_config (\<lambda>ks. ks) 0 Map.empty ''m''"
    by (rule server_range) (simp_all add: server_empty)
  have v: "storable_in_redis PNone" by (simp add: storable_in_redis_def)
  have err: "redis_backend.redis_reportable ''boom'' 1"
    by (simp add: server.redis_reportable_def printable_utf8_ok)
  have same: "agree (mem_cells 0 mem_init) (redis_backend.redis_cells (\<lambda>ks. ks) 0 Map.empty)"
    by (simp add: agree_def server_empty mem_cells_def mem_init_def entry_of_def)
  have "fst (mem_claim default_config ''m'' 0 mem_init) = Inr True"
    by (simp add: mem_claim_def mem_init_def)
  moreover obtain b r' where
    "mem_claim default_config ''m'' 0 mem_init = (Inr b, snd (mem_claim default_config ''m'' 0 mem_init))"
    "redis_claim calm_server default_config ''m'' 0 Map.empty = (Inr b, r')"
    using memory_redis_equivalent [OF server.redis_backend_axioms server_empty(1) _ range v err _ same, of "\<lambda>_ _. None"]
    by auto
  ultimately show ?thesis by (metis fst_conv sum.inject(2))
qed

end
