(* ===== verification/Runtime.thy ===== *)
theory Runtime
  imports Dedup_Store
begin

section \<open>The runtime around a task\<close>

text \<open>
  What an \<open>async\<close> task of the program sees. The clock, the shared store and everything else
  outside the task (brokers, databases, the user's handler, other tasks and processes) form
  the \<open>outside\<close>: \<open>(clock, store, rest)\<close>. At every \<open>await\<close> the outside may change in any way,
  the store included: other consumers act on it while this task waits.
  \<^item> \<open>platform\<close> collects what the program calls that is not its own code: the client
    libraries of Kafka, \<open>asyncio.sleep\<close>, the text \<open>repr\<close> gives a value, on which texts \<open>json.loads\<close> exhausts the
    interpreter's stack (\<open>pf_overflows\<close>), and \<open>pf_lag\<close>, what
    happens outside while a request to the store is under way. Each may return or raise.
  \<^item> \<open>ext_call\<close> runs such a call, \<open>store_call\<close> a method of the store at the current instant.
    Both append to \<open>rt_trace\<close>, the history of the task's calls and their outcomes, which
    no definition reads and the theorems speak about.
\<close>

type_synonym ('s, 'u) outside = "int \<times> 's \<times> 'u"

text \<open>Where the consumer calls \<open>json.loads\<close>: in \<open>_extract_message_id\<close> and in \<open>_execute_and_commit\<close>.\<close>

datatype loads_site = For_id | For_payload

record ('s, 'u) platform =
  pf_lag :: "('s, 'u) outside \<Rightarrow> ('s, 'u) outside"
  pf_sleep :: "int \<Rightarrow> (('s, 'u) outside, unit) eff"
  pf_kafka_start :: "(('s, 'u) outside, unit) eff"
  pf_kafka_stop :: "(('s, 'u) outside, unit) eff"
  pf_commit :: "(('s, 'u) outside, unit) eff"
  pf_producer_start :: "(('s, 'u) outside, unit) eff"
  pf_producer_stop :: "(('s, 'u) outside, unit) eff"
  pf_send :: "string \<Rightarrow> string \<Rightarrow> string option \<Rightarrow> (('s, 'u) outside, unit) eff"
  pf_repr :: "pyval \<Rightarrow> string"
  pf_overflows :: "loads_site \<Rightarrow> string \<Rightarrow> bool"

datatype event =
    EvHandle pyval "pyval res"
  | EvClaim string "bool res"
  | EvStatus string "ProcessingStatus option res"
  | EvCompleted string pyval "unit res"
  | EvFailed string string int "unit res"
  | EvSleep int "unit res"
  | EvCommit "unit res"
  | EvSend string string "string option" "unit res"
  | EvStart "unit res"
  | EvStop "unit res"

record ('s, 'u) runtime =
  rt_clock :: int
  rt_store :: 's
  rt_ext :: 'u
  rt_trace :: "event list"

definition outside :: "('s, 'u, 'z) runtime_scheme \<Rightarrow> ('s, 'u) outside" where
  "outside w = (rt_clock w, rt_store w, rt_ext w)"

definition set_outside ::
    "('s, 'u) outside \<Rightarrow> ('s, 'u, 'z) runtime_scheme \<Rightarrow> ('s, 'u, 'z) runtime_scheme" where
  "set_outside x w = (case x of (t, s, u) \<Rightarrow> w\<lparr>rt_clock := t, rt_store := s, rt_ext := u\<rparr>)"

definition log_event :: "event \<Rightarrow> ('s, 'u, 'z) runtime_scheme \<Rightarrow> ('s, 'u, 'z) runtime_scheme" where
  "log_event ev w = w\<lparr>rt_trace := rt_trace w @ [ev]\<rparr>"

definition ext_call ::
    "('a res \<Rightarrow> event) \<Rightarrow> (('s, 'u) outside, 'a) eff \<Rightarrow> (('s, 'u, 'z) runtime_scheme, 'a) eff" where
  "ext_call ev f w = (case f (outside w) of (r, x) \<Rightarrow> (r, log_event (ev r) (set_outside x w)))"

definition store_call ::
    "('s, 'u) platform \<Rightarrow> ('a res \<Rightarrow> event) \<Rightarrow> (int \<Rightarrow> ('s, 'a) eff)
     \<Rightarrow> (('s, 'u, 'z) runtime_scheme, 'a) eff" where
  "store_call pf ev f w = (case pf_lag pf (outside w) of (t, s, u) \<Rightarrow>
     (case f t s of (r, s') \<Rightarrow> (r, log_event (ev r) (set_outside (t, s', u) w))))"

lemma trace_log_event [simp]: "rt_trace (log_event ev w) = rt_trace w @ [ev]"
  by (simp add: log_event_def)

lemma trace_set_outside [simp]: "rt_trace (set_outside x w) = rt_trace w"
  by (simp add: set_outside_def split: prod.splits)

lemma more_log_event [simp]: "runtime.more (log_event ev w) = runtime.more w"
  by (simp add: log_event_def)

lemma more_set_outside [simp]: "runtime.more (set_outside x w) = runtime.more w"
  by (simp add: set_outside_def split: prod.splits)

lemma ext_call_trace: "ext_call ev f w = (r, w') \<Longrightarrow> rt_trace w' = rt_trace w @ [ev r]"
  by (auto simp: ext_call_def split: prod.splits)

lemma store_call_trace: "store_call pf ev f w = (r, w') \<Longrightarrow> rt_trace w' = rt_trace w @ [ev r]"
  by (auto simp: store_call_def split: prod.splits)

lemma ext_call_more: "ext_call ev f w = (r, w') \<Longrightarrow> runtime.more w' = runtime.more w"
  by (auto simp: ext_call_def split: prod.splits)

lemma store_call_more: "store_call pf ev f w = (r, w') \<Longrightarrow> runtime.more w' = runtime.more w"
  by (auto simp: store_call_def split: prod.splits)

text \<open>The calls made between two states.\<close>

definition calls :: "('s, 'u, 'z) runtime_scheme \<Rightarrow> ('s, 'u, 'z) runtime_scheme \<Rightarrow> event list" where
  "calls w w' = drop (length (rt_trace w)) (rt_trace w')"

lemma calls_eq: "rt_trace w' = rt_trace w @ es \<Longrightarrow> calls w w' = es"
  by (simp add: calls_def)

text \<open>The runs of the handler among them.\<close>

fun is_handle :: "event \<Rightarrow> bool" where
  "is_handle (EvHandle p x) = True"
| "is_handle _ = False"

definition handles :: "event list \<Rightarrow> nat" where
  "handles es = length (filter is_handle es)"

subsection \<open>Reasoning about histories\<close>

text \<open>
  An automaton \<open>step\<close> reads the events of a history one by one; \<open>follow\<close> reads them all, and
  \<open>None\<close> is refusal. \<open>tracks I step q m Q\<close>: started in the automaton's state \<open>q\<close>, whatever the
  outside does, \<open>m\<close> keeps \<open>I\<close>, its history is accepted and ends in a state that \<open>Q\<close> relates to what
  \<open>m\<close> returns or raises. The rules follow the structure of the code.
\<close>

fun follow :: "('q \<Rightarrow> event \<Rightarrow> 'q option) \<Rightarrow> 'q \<Rightarrow> event list \<Rightarrow> 'q option" where
  "follow step q [] = Some q"
| "follow step q (e # es) = (case step q e of None \<Rightarrow> None | Some q' \<Rightarrow> follow step q' es)"

lemma follow_append:
  "follow step q (es @ es') = (case follow step q es of None \<Rightarrow> None | Some q' \<Rightarrow> follow step q' es')"
  by (induction es arbitrary: q) (auto split: option.splits)

lemma follow_snoc:
  assumes "follow step q es = Some q'"
  obtains (empty) "es = []" "q' = q"
    | (snoc) xs e q0 where "es = xs @ [e]" "follow step q xs = Some q0" "step q0 e = Some q'"
  using assms by (cases es rule: rev_cases) (auto simp: follow_append split: option.splits)

lemma follow_split:
  assumes "follow step q (xs @ e # ys) = Some q'"
  obtains q0 q1 where "follow step q xs = Some q0" "step q0 e = Some q1" "follow step q1 ys = Some q'"
  using assms by (auto simp: follow_append split: option.splits)

text \<open>A bound on the runs of the handler, from a measure that each of them uses up.\<close>

lemma follow_measure:
  assumes "\<And>q e q'. step q e = Some q' \<Longrightarrow> ok q \<Longrightarrow>
      ok q' \<and> (if is_handle e then 1 else 0) + left q' \<le> (left q :: nat)"
  shows "follow step q es = Some q' \<Longrightarrow> ok q \<Longrightarrow> ok q' \<and> handles es + left q' \<le> left q"
proof (induction es arbitrary: q)
  case (Cons e es)
  then obtain q1 where q1: "step q e = Some q1" "follow step q1 es = Some q'" by (auto split: option.splits)
  from assms [OF q1(1) Cons.prems(2)] Cons.IH [OF q1(2)] show ?case
    by (simp add: handles_def split: if_splits)
qed (simp add: handles_def)

definition tracks ::
    "(('s, 'u, 'z) runtime_scheme \<Rightarrow> bool) \<Rightarrow> ('q \<Rightarrow> event \<Rightarrow> 'q option) \<Rightarrow> 'q
     \<Rightarrow> (('s, 'u, 'z) runtime_scheme, 'a) eff \<Rightarrow> ('a res \<Rightarrow> 'q \<Rightarrow> bool) \<Rightarrow> bool" where
  "tracks I step q m Q \<longleftrightarrow> (\<forall>w r w'. I w \<longrightarrow> m w = (r, w') \<longrightarrow> I w' \<and>
     (\<exists>es q'. rt_trace w' = rt_trace w @ es \<and> follow step q es = Some q' \<and> Q r q'))"

definition stable :: "(('s, 'u, 'z) runtime_scheme \<Rightarrow> bool) \<Rightarrow> bool" where
  "stable I \<longleftrightarrow> (\<forall>x ev w. I w \<longrightarrow> I (log_event ev (set_outside x w)))"

lemma stableD: "stable I \<Longrightarrow> I w \<Longrightarrow> I (log_event ev (set_outside x w))"
  unfolding stable_def by blast

lemma tracksD:
  assumes "tracks I step q m Q" "I w" "m w = (r, w')"
  obtains es q' where "I w'" "rt_trace w' = rt_trace w @ es" "follow step q es = Some q'" "Q r q'"
  using assms unfolding tracks_def by blast

lemma tracksI:
  assumes "\<And>w r w'. I w \<Longrightarrow> m w = (r, w') \<Longrightarrow> I w' \<and>
    (\<exists>es q'. rt_trace w' = rt_trace w @ es \<and> follow step q es = Some q' \<and> Q r q')"
  shows "tracks I step q m Q"
  using assms unfolding tracks_def by blast

lemma tracks_silent:
  assumes "\<And>w. I w \<Longrightarrow> I (f w) \<and> rt_trace (f w) = rt_trace w" "\<And>w. m w = (r, f w)" "Q r q"
  shows "tracks I step q m Q"
proof (rule tracksI)
  fix w r' w' assume "I w" "m w = (r', w')"
  with assms have "I w'" "rt_trace w' = rt_trace w @ []" "follow step q [] = Some q" "Q r' q" by auto
  then show "I w' \<and> (\<exists>es q'. rt_trace w' = rt_trace w @ es \<and> follow step q es = Some q' \<and> Q r' q')"
    by blast
qed

lemma tracks_ret: "Q (Inr x) q \<Longrightarrow> tracks I step q (ret x) Q"
  by (rule tracks_silent [where f = "\<lambda>w. w"]) (auto simp: ret_def)

lemma tracks_raise: "Q (Inl e) q \<Longrightarrow> tracks I step q (raise e) Q"
  by (rule tracks_silent [where f = "\<lambda>w. w"]) (auto simp: raise_def)

lemma tracks_modify:
  assumes "\<And>w. I w \<Longrightarrow> I (f w) \<and> rt_trace (f w) = rt_trace w" "Q (Inr ()) q"
  shows "tracks I step q (modify f) Q"
  by (rule tracks_silent [where f = f]) (auto simp: modify_def assms)

lemma tracks_mono:
  assumes "tracks I step q m P" "\<And>r q'. P r q' \<Longrightarrow> Q r q'"
  shows "tracks I step q m Q"
  using assms unfolding tracks_def by blast

lemma tracks_replace:
  assumes "tracks I step q m' Q" "\<And>w. I w \<Longrightarrow> m w = m' w"
  shows "tracks I step q m Q"
  using assms unfolding tracks_def by metis

lemma tracks_bind:
  assumes m: "tracks I step q m P"
    and exn: "\<And>e q'. P (Inl e) q' \<Longrightarrow> Q (Inl e) q'"
    and k: "\<And>x q'. P (Inr x) q' \<Longrightarrow> tracks I step q' (k x) Q"
  shows "tracks I step q (bind_eff m k) Q"
proof (rule tracksI)
  fix w r w' assume w: "I w" and "bind_eff m k w = (r, w')"
  from this(2) show "I w' \<and> (\<exists>es q'. rt_trace w' = rt_trace w @ es \<and> follow step q es = Some q' \<and> Q r q')"
  proof (cases rule: bind_eff_cases)
    case (exn e)
    with m w obtain es q' where "I w'" "rt_trace w' = rt_trace w @ es" "follow step q es = Some q'" "P (Inl e) q'"
      by (blast elim: tracksD)
    with exn assms(2) show ?thesis by blast
  next
    case (ok x w1)
    with m w obtain es q' where es: "I w1" "rt_trace w1 = rt_trace w @ es" "follow step q es = Some q'"
      "P (Inr x) q'" by (blast elim: tracksD)
    from k [OF es(4)] es(1) ok(2) obtain es' q'' where "I w'" "rt_trace w' = rt_trace w1 @ es'"
      "follow step q' es' = Some q''" "Q r q''" by (blast elim: tracksD)
    with es have "I w'" "rt_trace w' = rt_trace w @ es @ es'" "follow step q (es @ es') = Some q''" "Q r q''"
      by (simp_all add: follow_append)
    then show ?thesis by blast
  qed
qed

lemma tracks_one:
  assumes "\<And>w r w'. m w = (r, w') \<Longrightarrow> \<exists>x. w' = log_event (ev r) (set_outside x w)" "stable I"
    and "\<And>r. \<exists>q'. step q (ev r) = Some q' \<and> Q r q'"
  shows "tracks I step q m Q"
proof (rule tracksI)
  fix w r w' assume w: "I w" and "m w = (r, w')"
  then obtain x where w': "w' = log_event (ev r) (set_outside x w)" using assms(1) by blast
  obtain q' where q': "step q (ev r) = Some q'" "Q r q'" using assms(3) by blast
  have "I w'" "rt_trace w' = rt_trace w @ [ev r]" "follow step q [ev r] = Some q'" "Q r q'"
    using q' w w' stableD [OF assms(2)] by simp_all
  then show "I w' \<and> (\<exists>es q'. rt_trace w' = rt_trace w @ es \<and> follow step q es = Some q' \<and> Q r q')"
    by blast
qed

lemma tracks_ext_call:
  assumes "stable I" "\<And>r. \<exists>q'. step q (ev r) = Some q' \<and> Q r q'"
  shows "tracks I step q (ext_call ev f) Q"
proof (rule tracks_one [where ev = ev])
  show "\<exists>x. w' = log_event (ev r) (set_outside x w)" if "ext_call ev f w = (r, w')" for w r w'
    using that by (auto simp: ext_call_def split: prod.splits)
qed (fact assms)+

lemma tracks_store_call:
  assumes "stable I" "\<And>r. \<exists>q'. step q (ev r) = Some q' \<and> Q r q'"
  shows "tracks I step q (store_call pf ev f) Q"
proof (rule tracks_one [where ev = ev])
  show "\<exists>x. w' = log_event (ev r) (set_outside x w)" if "store_call pf ev f w = (r, w')" for w r w'
    using that by (auto simp: store_call_def split: prod.splits)
qed (fact assms)+

lemma tracks_catch_exc:
  assumes m: "tracks I step q m P"
    and "\<And>x q'. P (Inr x) q' \<Longrightarrow> Q (Inr (Inr x)) q'"
    and "\<And>q'. P (Inl Cancelled) q' \<Longrightarrow> Q (Inl Cancelled) q'"
    and "\<And>t s q'. P (Inl (Exc t s)) q' \<Longrightarrow> Q (Inr (Inl (Exc t s))) q'"
  shows "tracks I step q (catch_exc m) Q"
proof (rule tracksI)
  fix w r w' assume w: "I w" and run: "catch_exc m w = (r, w')"
  from run obtain r' where r': "m w = (r', w')"
    by (auto simp: catch_exc_def split: prod.splits sum.splits exn.splits)
  with m w obtain es q' where "I w'" "rt_trace w' = rt_trace w @ es" "follow step q es = Some q'" "P r' q'"
    by (rule tracksD)
  moreover from this(4) run r' assms(2-4) have "Q r q'"
    by (auto simp: catch_exc_def split: prod.splits sum.splits exn.splits)
  ultimately show "I w' \<and> (\<exists>es q'. rt_trace w' = rt_trace w @ es \<and> follow step q es = Some q' \<and> Q r q')"
    by blast
qed

lemma try_except_catch:
  "try_except m h = bind_eff (catch_exc m) (\<lambda>r. case r of Inr x \<Rightarrow> ret x | Inl e \<Rightarrow> h e)"
  by (auto simp: fun_eq_iff eff_simps split: prod.splits sum.splits exn.splits)

lemma tracks_try_finally:
  assumes m: "tracks I step q m Q" and f: "\<And>w. I w \<Longrightarrow> I (f w) \<and> rt_trace (f w) = rt_trace w"
  shows "tracks I step q (try_finally m f) Q"
proof (rule tracksI)
  fix w r w' assume w: "I w" and "try_finally m f w = (r, w')"
  then obtain w1 where "m w = (r, w1)" and w': "w' = f w1"
    by (auto simp: try_finally_def split: prod.splits)
  with m w obtain es q' where "I w1" "rt_trace w1 = rt_trace w @ es" "follow step q es = Some q'" "Q r q'"
    by (blast elim: tracksD)
  with f w' show "I w' \<and> (\<exists>es q'. rt_trace w' = rt_trace w @ es \<and> follow step q es = Some q' \<and> Q r q')"
    by auto
qed

subsection \<open>A calm platform\<close>

text \<open>For examples: no call to it raises, every request takes a microsecond, a sleep advances the clock.\<close>

definition calm :: "(pyval \<Rightarrow> string) \<Rightarrow> ('s, nat) platform" where
  "calm rp = \<lparr>pf_lag = (\<lambda>(t, s, u). (t + 1, s, u)),
     pf_sleep = (\<lambda>ms (t, s, u). (Inr (), (t + ms * 1000, s, u))),
     pf_kafka_start = ret (), pf_kafka_stop = ret (), pf_commit = ret (),
     pf_producer_start = ret (), pf_producer_stop = ret (),
     pf_send = (\<lambda>_ _ _. ret ()), pf_repr = rp, pf_overflows = (\<lambda>_ _. False)\<rparr>"

lemma calm_texts [simp]: "pf_repr (calm rp) = rp" "pf_overflows (calm rp) site b = False"
  by (simp_all add: calm_def)

end
