(* ===== verification/Metrics.thy ===== *)
theory Metrics
  imports Prelude
begin

section \<open>Prometheus metrics\<close>

text \<open>
  \<open>src/metrics/dedup_metrics.py\<close>: the module-level counters, histograms and the gauge, and the
  recording methods of \<open>DeduplicationMetrics\<close>. A labelled counter is a function of its labels
  that starts at zero, as \<open>labels(...)\<close> creates a child on first use; a histogram keeps the
  values it has observed, in microseconds. The two timing context managers wrap effects and
  are defined over the consumer's state in \<open>Runtime\<close> and \<open>Consumer\<close>.
\<close>

record metrics =
  messages_total :: "string \<times> string \<Rightarrow> nat"
  processing_duration_seconds :: "string \<Rightarrow> int list"
  store_operation_duration_seconds :: "string \<Rightarrow> int list"
  retry_attempts_total :: "string \<Rightarrow> nat"
  dlq_messages_total :: "string \<Rightarrow> nat"
  active_processing :: "string \<Rightarrow> int"
  consumer_errors_total :: "string \<times> string \<Rightarrow> nat"

definition metrics_init :: metrics where
  "metrics_init = \<lparr>messages_total = (\<lambda>_. 0), processing_duration_seconds = (\<lambda>_. []),
     store_operation_duration_seconds = (\<lambda>_. []), retry_attempts_total = (\<lambda>_. 0),
     dlq_messages_total = (\<lambda>_. 0), active_processing = (\<lambda>_. 0),
     consumer_errors_total = (\<lambda>_. 0)\<rparr>"

definition inc :: "'l \<Rightarrow> ('l \<Rightarrow> nat) \<Rightarrow> ('l \<Rightarrow> nat)" where
  "inc l f = f(l := Suc (f l))"

definition record_processed :: "string \<Rightarrow> metrics \<Rightarrow> metrics" where
  "record_processed topic mx = mx\<lparr>messages_total := inc (topic, ''processed'') (messages_total mx)\<rparr>"

definition record_duplicate :: "string \<Rightarrow> metrics \<Rightarrow> metrics" where
  "record_duplicate topic mx = mx\<lparr>messages_total := inc (topic, ''duplicate'') (messages_total mx)\<rparr>"

definition record_claim_lost :: "string \<Rightarrow> metrics \<Rightarrow> metrics" where
  "record_claim_lost topic mx = mx\<lparr>messages_total := inc (topic, ''claim_lost'') (messages_total mx)\<rparr>"

definition record_no_message_id :: "string \<Rightarrow> metrics \<Rightarrow> metrics" where
  "record_no_message_id topic mx = mx\<lparr>messages_total := inc (topic, ''no_id'') (messages_total mx)\<rparr>"

definition record_dlq :: "string \<Rightarrow> metrics \<Rightarrow> metrics" where
  "record_dlq topic mx = mx\<lparr>messages_total := inc (topic, ''dlq'') (messages_total mx),
     dlq_messages_total := inc topic (dlq_messages_total mx)\<rparr>"

definition record_retry :: "string \<Rightarrow> metrics \<Rightarrow> metrics" where
  "record_retry topic mx = mx\<lparr>retry_attempts_total := inc topic (retry_attempts_total mx)\<rparr>"

definition record_error :: "string \<Rightarrow> string \<Rightarrow> metrics \<Rightarrow> metrics" where
  "record_error topic error_type mx =
     mx\<lparr>consumer_errors_total := inc (topic, error_type) (consumer_errors_total mx)\<rparr>"

text \<open>The two ends of \<open>measure_processing\<close> and the end of \<open>measure_store_op\<close>.\<close>

definition enter_processing :: "string \<Rightarrow> metrics \<Rightarrow> metrics" where
  "enter_processing topic mx =
     mx\<lparr>active_processing := (active_processing mx)(topic := active_processing mx topic + 1)\<rparr>"

definition exit_processing :: "string \<Rightarrow> int \<Rightarrow> metrics \<Rightarrow> metrics" where
  "exit_processing topic elapsed mx =
     mx\<lparr>active_processing := (active_processing mx)(topic := active_processing mx topic - 1),
        processing_duration_seconds := (processing_duration_seconds mx)
          (topic := processing_duration_seconds mx topic @ [elapsed])\<rparr>"

definition observe_store_op :: "string \<Rightarrow> int \<Rightarrow> metrics \<Rightarrow> metrics" where
  "observe_store_op operation elapsed mx =
     mx\<lparr>store_operation_duration_seconds := (store_operation_duration_seconds mx)
          (operation := store_operation_duration_seconds mx operation @ [elapsed])\<rparr>"

lemmas metrics_defs = record_processed_def record_duplicate_def record_claim_lost_def
  record_no_message_id_def record_dlq_def record_retry_def record_error_def
  enter_processing_def exit_processing_def observe_store_op_def inc_def

text \<open>Only the context manager touches the gauge.\<close>

lemma gauge_simps [simp]:
  "active_processing (record_processed t mx) = active_processing mx"
  "active_processing (record_duplicate t mx) = active_processing mx"
  "active_processing (record_claim_lost t mx) = active_processing mx"
  "active_processing (record_no_message_id t mx) = active_processing mx"
  "active_processing (record_dlq t mx) = active_processing mx"
  "active_processing (record_retry t mx) = active_processing mx"
  "active_processing (record_error t e mx) = active_processing mx"
  "active_processing (observe_store_op oper d mx) = active_processing mx"
  by (simp_all add: metrics_defs)

end
