(* ===== verification/Consumer.thy ===== *)
theory Consumer
  imports Runtime Metrics Json_Roundtrip
begin

section \<open>DedupConsumer\<close>

text \<open>
  \<open>src/consumer/dedup_consumer.py\<close> over \<open>src/consumer/base.py\<close>: the identification of a
  message, the claim, the retry loop, completion, the dead-letter queue, and the loop over the
  records Kafka delivers. \<open>consumer\<close> holds the attributes \<open>__init__\<close> sets and that stay; the
  attributes that change (\<open>_consumer\<close>, \<open>_dlq_producer\<close>, \<open>_running\<close>) and the metrics are fields
  of the state \<open>world\<close>, beside the outside of \<open>Runtime\<close>. \<open>c_handle\<close> is the subclass's
  \<open>handle\<close>.
  A coroutine becomes an effect with the same name; a log line has no effect.
\<close>

record ConsumerRecord =
  cr_topic :: string
  cr_partition :: int
  cr_offset :: int
  cr_key :: "string option"
  cr_value :: "string option"
  cr_headers :: "(string \<times> string option) list"

record ('s, 'u) consumer =
  c_topics :: "string list"
  c_store :: "'s store_ops"
  c_config :: DeduplicationConfig
  c_dlq_topic :: "string option"
  c_bootstrap :: string
  c_group_id :: string
  c_handle :: "pyval \<Rightarrow> (('s, 'u) outside, pyval) eff"

record ('s, 'u) world = "('s, 'u) runtime" +
  w_metrics :: metrics
  w_consumer :: bool
  w_producer :: bool
  w_running :: bool

text \<open>\<open>x or y\<close> on optional strings, and the truth value of one.\<close>

definition str_or :: "string option \<Rightarrow> string \<Rightarrow> string" where
  "str_or x y = (case x of Some s \<Rightarrow> if s = [] then y else s | None \<Rightarrow> y)"

definition nonempty :: "string option \<Rightarrow> bool" where
  "nonempty x = (case x of Some s \<Rightarrow> s \<noteq> [] | None \<Rightarrow> False)"

definition consumer_init ::
    "Settings \<Rightarrow> string list \<Rightarrow> 's store_ops \<Rightarrow> string option \<Rightarrow> string option \<Rightarrow> string option
     \<Rightarrow> DeduplicationConfig option \<Rightarrow> (pyval \<Rightarrow> (('s, 'u) outside, pyval) eff) \<Rightarrow> ('s, 'u) consumer" where
  "consumer_init settings topics store group_id bootstrap_servers dlq_topic config hdl =
     \<lparr>c_topics = topics, c_store = store,
      c_config = (case config of Some cfg \<Rightarrow> cfg | None \<Rightarrow> default_config),
      c_dlq_topic = dlq_topic,
      c_bootstrap = str_or bootstrap_servers (kafka_bootstrap_servers settings),
      c_group_id = str_or group_id (kafka_group_id settings),
      c_handle = hdl\<rparr>"

subsection \<open>The message id\<close>

fun header_id :: "(string \<times> string option) list \<Rightarrow> string option" where
  "header_id [] = None"
| "header_id ((key, value) # hs) =
     (if key = ''X-Message-Id'' \<and> nonempty value then value else header_id hs)"

definition py_or :: "pyval \<Rightarrow> pyval \<Rightarrow> pyval" where
  "py_or a b = (if truthy a then a else b)"

text \<open>\<open>json.loads\<close> on the value of a message, which may exhaust the stack of either caller.\<close>

definition loads :: "('s, 'u) platform \<Rightarrow> loads_site \<Rightarrow> string \<Rightarrow> pyval res" where
  "loads pf site b = (if pf_overflows pf site b then Inl RecursionError else json_loads_bytes b)"

definition extract_message_id :: "('s, 'u) platform \<Rightarrow> ConsumerRecord \<Rightarrow> string option res" where
  "extract_message_id pf r = (case header_id (cr_headers r) of
       Some v \<Rightarrow> if utf8_ok v then Inr (Some v) else Inl UnicodeDecodeError
     | None \<Rightarrow> (case cr_value r of
           None \<Rightarrow> Inr None
         | Some b \<Rightarrow> if b = [] then Inr None else (case loads pf For_id b of
               Inl e \<Rightarrow> if e = JSONDecodeError \<or> e = UnicodeDecodeError then Inr None else Inl e
             | Inr payload \<Rightarrow> (case payload of
                   PDict d \<Rightarrow>
                     (let mid = py_or (dict_get ''message_id'' d) (dict_get ''id'' d)
                      in Inr (if truthy mid then Some (py_str (pf_repr pf) mid) else None))
                 | _ \<Rightarrow> Inr None))))"

definition parse_payload :: "('s, 'u) platform \<Rightarrow> ConsumerRecord \<Rightarrow> pyval res" where
  "parse_payload pf r = (case cr_value r of
       None \<Rightarrow> Inr (PDict [])
     | Some b \<Rightarrow> if b = [] then Inr (PDict []) else (case loads pf For_payload b of
           Inl e \<Rightarrow> if e = JSONDecodeError \<or> e = UnicodeDecodeError
                    then Inr (PDict [(''raw'', PBytes b)]) else Inl e
         | Inr v \<Rightarrow> Inr v))"

subsection \<open>Metrics around a call\<close>

definition metric :: "(metrics \<Rightarrow> metrics) \<Rightarrow> (('s, 'u) world, unit) eff" where
  "metric f = modify (\<lambda>w. w\<lparr>w_metrics := f (w_metrics w)\<rparr>)"

definition measure_store_op :: "string \<Rightarrow> (('s, 'u) world, 'a) eff \<Rightarrow> (('s, 'u) world, 'a) eff" where
  "measure_store_op operation m w =
     try_finally m (\<lambda>w'. w'\<lparr>w_metrics :=
       observe_store_op operation (rt_clock w' - rt_clock w) (w_metrics w')\<rparr>) w"

definition measure_processing :: "string \<Rightarrow> (('s, 'u) world, 'a) eff \<Rightarrow> (('s, 'u) world, 'a) eff" where
  "measure_processing topic m w =
     try_finally m (\<lambda>w'. w'\<lparr>w_metrics :=
       exit_processing topic (rt_clock w' - rt_clock w) (w_metrics w')\<rparr>)
       (w\<lparr>w_metrics := enter_processing topic (w_metrics w)\<rparr>)"

subsection \<open>The calls of the life cycle\<close>

definition call_handle ::
    "('s, 'u) consumer \<Rightarrow> pyval \<Rightarrow> (('s, 'u) world, pyval) eff" where
  "call_handle c payload = ext_call (EvHandle payload) (c_handle c payload)"

definition store_claim ::
    "('s, 'u) platform \<Rightarrow> ('s, 'u) consumer \<Rightarrow> string \<Rightarrow> (('s, 'u) world, bool) eff" where
  "store_claim pf c m = measure_store_op ''claim'' (store_call pf (EvClaim m) (op_claim (c_store c) m))"

definition store_get_status ::
    "('s, 'u) platform \<Rightarrow> ('s, 'u) consumer \<Rightarrow> string
     \<Rightarrow> (('s, 'u) world, ProcessingStatus option) eff" where
  "store_get_status pf c m =
     measure_store_op ''get_status'' (store_call pf (EvStatus m) (op_get_status (c_store c) m))"

definition store_mark_failed ::
    "('s, 'u) platform \<Rightarrow> ('s, 'u) consumer \<Rightarrow> string \<Rightarrow> string \<Rightarrow> int \<Rightarrow> (('s, 'u) world, unit) eff" where
  "store_mark_failed pf c m error attempts = measure_store_op ''mark_failed''
     (store_call pf (EvFailed m error attempts) (op_mark_failed (c_store c) m error attempts))"

definition store_mark_completed ::
    "('s, 'u) platform \<Rightarrow> ('s, 'u) consumer \<Rightarrow> string \<Rightarrow> pyval \<Rightarrow> (('s, 'u) world, unit) eff" where
  "store_mark_completed pf c m result = measure_store_op ''mark_completed''
     (store_call pf (EvCompleted m result) (op_mark_completed (c_store c) m result))"

definition commit_offset :: "('s, 'u) platform \<Rightarrow> ('s, 'u) consumer \<Rightarrow> ConsumerRecord \<Rightarrow> (('s, 'u) world, unit) eff" where
  "commit_offset pf c r w = (if w_consumer w then ext_call EvCommit (pf_commit pf) w else (Inr (), w))"

definition decoded_value :: "string option \<Rightarrow> pyval" where
  "decoded_value v =
     (case v of Some b \<Rightarrow> if b = [] then PNone else PStr (utf8_replace b) | None \<Rightarrow> PNone)"

definition dlq_payload :: "ConsumerRecord \<Rightarrow> string \<Rightarrow> pyval" where
  "dlq_payload r error = PDict
     [(''original_topic'', PStr (cr_topic r)),
      (''original_offset'', PInt (cr_offset r)),
      (''original_partition'', PInt (cr_partition r)),
      (''original_value'', decoded_value (cr_value r)),
      (''error'', PStr error)]"

definition send_to_dlq ::
    "('s, 'u) platform \<Rightarrow> ('s, 'u) consumer \<Rightarrow> ConsumerRecord \<Rightarrow> string \<Rightarrow> (('s, 'u) world, unit) eff" where
  "send_to_dlq pf c r error w =
     (case c_dlq_topic c of
        None \<Rightarrow> (Inr (), w)
      | Some topic \<Rightarrow>
          if \<not> w_producer w \<or> topic = [] then (Inr (), w)
          else (case json_dumps (pf_repr pf) (dlq_payload r error) of
              Inl e \<Rightarrow> (Inl e, w)
            | Inr value \<Rightarrow>
                ext_call (EvSend topic value (cr_key r)) (pf_send pf topic value (cr_key r)) w))"

definition complete ::
    "('s, 'u) platform \<Rightarrow> ('s, 'u) consumer \<Rightarrow> ConsumerRecord \<Rightarrow> string option \<Rightarrow> pyval
     \<Rightarrow> (('s, 'u) world, unit) eff" where
  "complete pf c r mid result =
     bind_eff (if nonempty mid
               then try_except (store_mark_completed pf c (the mid) result)
                      (\<lambda>exc. metric (record_error (cr_topic r) (exc_type exc)))
               else ret ()) (\<lambda>_.
     bind_eff (commit_offset pf c r) (\<lambda>_.
     metric (record_processed (cr_topic r))))"

text \<open>
  The body of \<open>except Exception as exc\<close> in the retry loop. It answers whether the loop goes
  on: \<open>False\<close> is the \<open>break\<close> after a lost re-claim.
\<close>

definition on_failure ::
    "('s, 'u) platform \<Rightarrow> ('s, 'u) consumer \<Rightarrow> ConsumerRecord \<Rightarrow> string option \<Rightarrow> int \<Rightarrow> exn
     \<Rightarrow> (('s, 'u) world, bool) eff" where
  "on_failure pf c r mid attempts exc =
     bind_eff (metric (record_error (cr_topic r) (exc_type exc))) (\<lambda>_.
     bind_eff (when_eff (nonempty mid) (store_mark_failed pf c (the mid) (exc_str exc) attempts)) (\<lambda>_.
     if attempts < max_retries (c_config c) then
       bind_eff (let backoff = retry_backoff_ms (c_config c) * attempts
                 in ext_call (EvSleep backoff) (pf_sleep pf backoff)) (\<lambda>_.
       bind_eff (metric (record_retry (cr_topic r))) (\<lambda>_.
       if nonempty mid then store_claim pf c (the mid) else ret True))
     else ret True))"

datatype loop_exit = Done | Exhausted "exn option"

function execute_loop ::
    "('s, 'u) platform \<Rightarrow> ('s, 'u) consumer \<Rightarrow> ConsumerRecord \<Rightarrow> string option \<Rightarrow> pyval \<Rightarrow> int
     \<Rightarrow> exn option \<Rightarrow> (('s, 'u) world, loop_exit) eff" where
  "execute_loop pf c r mid payload attempts last_exc =
     (if attempts \<le> max_retries (c_config c) then
        bind_eff (catch_exc (call_handle c payload)) (\<lambda>outcome.
          case outcome of
            Inr result \<Rightarrow> bind_eff (complete pf c r mid result) (\<lambda>_. ret Done)
          | Inl exc \<Rightarrow> bind_eff (on_failure pf c r mid attempts exc) (\<lambda>again.
              if again then execute_loop pf c r mid payload (attempts + 1) (Some exc)
              else ret (Exhausted (Some exc))))
      else ret (Exhausted last_exc))"
  by pat_completeness auto
termination
  by (relation "measure (\<lambda>(pf, c, r, mid, payload, attempts, last_exc).
       nat (max_retries (c_config c) + 1 - attempts))") auto

declare execute_loop.simps [simp del]

definition str_exc :: "exn option \<Rightarrow> string" where
  "str_exc last_exc = (case last_exc of
       None \<Rightarrow> ''None'' | Some (Exc t s) \<Rightarrow> s | Some Cancelled \<Rightarrow> [])"

definition execute_and_commit ::
    "('s, 'u) platform \<Rightarrow> ('s, 'u) consumer \<Rightarrow> ConsumerRecord \<Rightarrow> string option
     \<Rightarrow> (('s, 'u) world, unit) eff" where
  "execute_and_commit pf c r mid =
     (case parse_payload pf r of
        Inl e \<Rightarrow> raise e
      | Inr payload \<Rightarrow>
          bind_eff (execute_loop pf c r mid payload 1 None) (\<lambda>exit.
            case exit of
              Done \<Rightarrow> ret ()
            | Exhausted last_exc \<Rightarrow>
                bind_eff (metric (record_dlq (cr_topic r))) (\<lambda>_.
                bind_eff (send_to_dlq pf c r (str_exc last_exc)) (\<lambda>_.
                commit_offset pf c r))))"

subsection \<open>One record\<close>

definition process_record ::
    "('s, 'u) platform \<Rightarrow> ('s, 'u) consumer \<Rightarrow> ConsumerRecord \<Rightarrow> (('s, 'u) world, unit) eff" where
  "process_record pf c r =
     (case extract_message_id pf r of
        Inl e \<Rightarrow> raise e
      | Inr None \<Rightarrow>
          bind_eff (metric (record_no_message_id (cr_topic r))) (\<lambda>_.
          execute_and_commit pf c r None)
      | Inr (Some message_id) \<Rightarrow>
          bind_eff (store_claim pf c message_id) (\<lambda>claimed.
          if \<not> claimed then
            bind_eff (store_get_status pf c message_id) (\<lambda>existing.
            bind_eff (metric (if (case existing of
                                    Some p \<Rightarrow> ps_status p = PROCESSING | None \<Rightarrow> False)
                              then record_claim_lost (cr_topic r)
                              else record_duplicate (cr_topic r))) (\<lambda>_.
            commit_offset pf c r))
          else measure_processing (cr_topic r) (execute_and_commit pf c r (Some message_id))))"

subsection \<open>start, stop, run\<close>

definition start_consumer :: "('s, 'u) platform \<Rightarrow> ('s, 'u) consumer \<Rightarrow> (('s, 'u) world, unit) eff" where
  "start_consumer pf c =
     bind_eff (modify (\<lambda>w. w\<lparr>w_consumer := True\<rparr>)) (\<lambda>_.
     bind_eff (ext_call EvStart (pf_kafka_start pf)) (\<lambda>_.
     bind_eff (when_eff (nonempty (c_dlq_topic c))
        (bind_eff (modify (\<lambda>w. w\<lparr>w_producer := True\<rparr>)) (\<lambda>_.
         ext_call EvStart (pf_producer_start pf)))) (\<lambda>_.
     bind_eff (case op_connect (c_store c) of
          Some conn \<Rightarrow> store_call pf EvStart conn | None \<Rightarrow> ret ()) (\<lambda>_.
     modify (\<lambda>w. w\<lparr>w_running := True\<rparr>)))))"

definition stop_consumer :: "('s, 'u) platform \<Rightarrow> ('s, 'u) consumer \<Rightarrow> (('s, 'u) world, unit) eff" where
  "stop_consumer pf c =
     bind_eff (modify (\<lambda>w. w\<lparr>w_running := False\<rparr>)) (\<lambda>_.
     bind_eff (\<lambda>w. when_eff (w_consumer w) (ext_call EvStop (pf_kafka_stop pf)) w) (\<lambda>_.
     bind_eff (\<lambda>w. when_eff (w_producer w) (ext_call EvStop (pf_producer_stop pf)) w) (\<lambda>_.
     store_call pf EvStop (op_close (c_store c)))))"

text \<open>
  \<open>run\<close> over what \<open>async for record in self._consumer\<close> meets, one item for each wait for the next record: whether \<open>stop()\<close> has
  set \<open>_running\<close> to \<open>False\<close> by its end, and the record it delivers or the exception it raises (the cancellation of the task, an
  error of the Kafka client). At the end of the list the iteration ends, as it does when the client is stopped.
\<close>

type_synonym poll = "bool \<times> ConsumerRecord res"

fun run_loop ::
    "('s, 'u) platform \<Rightarrow> ('s, 'u) consumer \<Rightarrow> poll list \<Rightarrow> (('s, 'u) world, unit) eff" where
  "run_loop pf c [] = ret ()"
| "run_loop pf c ((stopped, x) # ds) =
     bind_eff (modify (\<lambda>w. if stopped then w\<lparr>w_running := False\<rparr> else w)) (\<lambda>_.
       case x of
         Inl e \<Rightarrow> raise e
       | Inr r \<Rightarrow> (\<lambda>w. if \<not> w_running w then (Inr (), w)
           else bind_eff (process_record pf c r) (\<lambda>_. run_loop pf c ds) w))"

definition run_consumer ::
    "('s, 'u) platform \<Rightarrow> ('s, 'u) consumer \<Rightarrow> poll list \<Rightarrow> (('s, 'u) world, unit) eff" where
  "run_consumer pf c ds w =
     (if \<not> w_consumer w then (Inl (Exc ''RuntimeError'' ''Call start() before run()''), w)
      else run_loop pf c ds w)"

text \<open>The default \<open>handle\<close> only logs.\<close>

definition default_handle :: "pyval \<Rightarrow> (('s, 'u) outside, pyval) eff" where
  "default_handle message = ret PNone"

end
