(* ===== verification/Lifecycle.thy ===== *)
theory Lifecycle
  imports Consumer
begin

section \<open>The life cycle of a record\<close>

text \<open>
  What \<open>DedupConsumer\<close> promises about one record, as an automaton over the calls it makes.
  \<open>life\<close> reads the history of calls and refuses every history that breaks the protocol of
  \<open>_process_record\<close>: claim, run \<open>handle\<close>, note the failure, back off, claim again, and so on,
  then either completion or the dead-letter queue, and the commit of the offset at the very end.
  The phases:
  \<^item> \<open>Fresh\<close>: nothing done; \<open>Lost\<close>/\<open>Seen\<close>: the claim was lost, its record looked up;
  \<^item> \<open>Held k s\<close>: attempt \<open>k\<close> may run; \<open>s\<close> is the text of the last failure;
  \<^item> \<open>Raised k s\<close>/\<open>Noted k s\<close>/\<open>Rested k s\<close>: attempt \<open>k\<close> failed with \<open>s\<close>, the failure is in the
    store, the back-off is over;
  \<^item> \<open>Spent s\<close>: no attempt is left; \<open>Sent\<close>: the dead-letter message is acknowledged;
  \<^item> \<open>Succeeded v\<close>/\<open>Filed\<close>: \<open>handle\<close> returned \<open>v\<close>, its completion was attempted;
  \<^item> \<open>Committed\<close>: the offset is committed; \<open>Aborted\<close>: a call raised.
  The refinement of \<open>process_record\<close> by \<open>life\<close> holds whatever the store, the broker, the handler
  and the other consumers do.
\<close>

datatype phase =
    Fresh | Lost | Seen
  | Held int string | Raised int string | Noted int string | Rested int string
  | Spent string | Sent | Succeeded pyval | Filed | Committed | Aborted

definition held :: "('s, 'u) consumer \<Rightarrow> int \<Rightarrow> string \<Rightarrow> phase" where
  "held c k s = (if k \<le> max_retries (c_config c) then Held k s else Spent s)"

definition noted :: "('s, 'u) consumer \<Rightarrow> int \<Rightarrow> string \<Rightarrow> phase" where
  "noted c k s = (if k < max_retries (c_config c) then Noted k s else Spent s)"

fun settle :: "phase \<Rightarrow> 'a res \<Rightarrow> phase option" where
  "settle q (Inr _) = Some q"
| "settle q (Inl _) = Some Aborted"

definition life ::
    "('s, 'u) platform \<Rightarrow> ('s, 'u) consumer \<Rightarrow> ConsumerRecord \<Rightarrow> string option \<Rightarrow> pyval
     \<Rightarrow> phase \<Rightarrow> event \<Rightarrow> phase option" where
  "life pf c r mid payload q ev = (case (q, ev) of
       (Fresh, EvClaim m x) \<Rightarrow> if mid = Some m
          then settle (if x = Inr True then held c 1 ''None'' else Lost) x else None
     | (Lost, EvStatus m x) \<Rightarrow> if mid = Some m then settle Seen x else None
     | (Seen, EvCommit x) \<Rightarrow> settle Committed x
     | (Held k s, EvHandle p x) \<Rightarrow> if p \<noteq> payload then None else (case x of
            Inr v \<Rightarrow> Some (Succeeded v)
          | Inl Cancelled \<Rightarrow> Some Aborted
          | Inl (Exc t s') \<Rightarrow> Some (if nonempty mid then Raised k s' else noted c k s'))
     | (Raised k s, EvFailed m e n x) \<Rightarrow> if mid = Some m \<and> e = s \<and> n = k
          then settle (noted c k s) x else None
     | (Noted k s, EvSleep d x) \<Rightarrow> if d = retry_backoff_ms (c_config c) * k
          then settle (if nonempty mid then Rested k s else held c (k + 1) s) x else None
     | (Rested k s, EvClaim m x) \<Rightarrow> if mid = Some m
          then settle (if x = Inr True then held c (k + 1) s else Spent s) x else None
     | (Spent s, EvSend topic value key x) \<Rightarrow>
          if c_dlq_topic c = Some topic \<and> topic \<noteq> [] \<and> key = cr_key r
             \<and> json_dumps (pf_repr pf) (dlq_payload r s) = Inr value
          then settle Sent x else None
     | (Spent s, EvCommit x) \<Rightarrow> if nonempty (c_dlq_topic c) then None else settle Committed x
     | (Sent, EvCommit x) \<Rightarrow> settle Committed x
     | (Succeeded v, EvCompleted m v' x) \<Rightarrow> if mid = Some m \<and> v' = v
          then Some (if x = Inl Cancelled then Aborted else Filed) else None
     | (Succeeded v, EvCommit x) \<Rightarrow> if nonempty mid then None else settle Committed x
     | (Filed, EvCommit x) \<Rightarrow> settle Committed x
     | _ \<Rightarrow> None)"

definition first_phase :: "('s, 'u) consumer \<Rightarrow> string option \<Rightarrow> phase" where
  "first_phase c mid = (if mid = None then held c 1 ''None'' else Fresh)"

text \<open>A started consumer: connected, running, with a dead-letter producer exactly when a topic is set.\<close>

definition ready :: "('s, 'u) consumer \<Rightarrow> ('s, 'u) world \<Rightarrow> bool" where
  "ready c w \<longleftrightarrow> w_consumer w \<and> w_running w \<and> (w_producer w \<longleftrightarrow> nonempty (c_dlq_topic c))"

named_theorems life_rules "history rules for the calls of the consumer"

lemma world_of_more:
  "runtime.more w = runtime.more w' \<Longrightarrow>
     w_metrics w = w_metrics w' \<and> w_consumer w = w_consumer w' \<and> w_producer w = w_producer w' \<and>
     w_running w = w_running w'"
  by (cases w; cases w') simp

lemma world_fields [simp]:
  "w_metrics (log_event ev w) = w_metrics w" "w_metrics (set_outside x w) = w_metrics w"
  "w_consumer (log_event ev w) = w_consumer w" "w_consumer (set_outside x w) = w_consumer w"
  "w_producer (log_event ev w) = w_producer w" "w_producer (set_outside x w) = w_producer w"
  "w_running (log_event ev w) = w_running w" "w_running (set_outside x w) = w_running w"
  using world_of_more [OF more_log_event] world_of_more [OF more_set_outside] by blast+

lemma stable_ready: "stable (ready c)"
  by (simp add: stable_def ready_def)

lemma tracks_metric [life_rules]: "Q (Inr ()) q \<Longrightarrow> tracks (ready c) step q (metric f) Q"
  unfolding metric_def by (rule tracks_modify) (simp_all add: ready_def)

lemma tracks_metric_then:
  assumes "tracks (ready c) step q k Q"
  shows "tracks (ready c) step q (bind_eff (metric f) (\<lambda>_. k)) Q"
proof (rule tracks_bind)
  show "tracks (ready c) step q (metric f) (\<lambda>x q'. x = Inr () \<and> q' = q)" by (rule tracks_metric) simp
qed (use assms in auto)

lemma tracks_measure_store_op [life_rules]:
  assumes "tracks (ready c) step q m Q"
  shows "tracks (ready c) step q (measure_store_op operation m) Q"
proof (rule tracksI)
  fix w r w' assume w: "ready c w" and run: "measure_store_op operation m w = (r, w')"
  let ?f = "\<lambda>t w'. w'\<lparr>w_metrics := observe_store_op operation (rt_clock w' - t) (w_metrics w')\<rparr>"
  have f: "ready c (?f t w) \<and> rt_trace (?f t w) = rt_trace w" if "ready c w" for t w
    using that by (simp add: ready_def)
  have "tracks (ready c) step q (try_finally m (?f (rt_clock w))) Q"
    by (rule tracks_try_finally [OF assms f])
  with w run show "ready c w' \<and>
      (\<exists>es q'. rt_trace w' = rt_trace w @ es \<and> follow step q es = Some q' \<and> Q r q')"
    unfolding measure_store_op_def by (blast elim: tracksD)
qed

lemma tracks_measure_processing [life_rules]:
  assumes "tracks (ready c) step q m Q"
  shows "tracks (ready c) step q (measure_processing topic m) Q"
proof (rule tracksI)
  fix w r w' assume w: "ready c w" and run: "measure_processing topic m w = (r, w')"
  let ?f = "\<lambda>w'. w'\<lparr>w_metrics := exit_processing topic (rt_clock w' - rt_clock w) (w_metrics w')\<rparr>"
  let ?w = "w\<lparr>w_metrics := enter_processing topic (w_metrics w)\<rparr>"
  have f: "ready c (?f w) \<and> rt_trace (?f w) = rt_trace w" if "ready c w" for w
    using that by (simp add: ready_def)
  have m: "tracks (ready c) step q (try_finally m ?f) Q"
    by (rule tracks_try_finally [OF assms f])
  have "ready c ?w" using w by (simp add: ready_def)
  with m run obtain es q' where "ready c w'" "rt_trace w' = rt_trace ?w @ es"
    "follow step q es = Some q'" "Q r q'"
    unfolding measure_processing_def by (blast elim: tracksD)
  then show "ready c w' \<and>
      (\<exists>es q'. rt_trace w' = rt_trace w @ es \<and> follow step q es = Some q' \<and> Q r q')" by auto
qed

lemmas call_rules [life_rules] = tracks_ext_call [OF stable_ready] tracks_store_call [OF stable_ready]

subsection \<open>The code follows the automaton\<close>

text \<open>
  \<open>outcome\<close> relates what a piece of code answers to the phase it leaves: when it returns, \<open>P\<close> holds;
  when it raises, a call raised, or the dead-letter message could not be written as JSON.
\<close>

definition outcome ::
    "('s, 'u) platform \<Rightarrow> ConsumerRecord \<Rightarrow> ('a \<Rightarrow> phase \<Rightarrow> bool) \<Rightarrow> 'a res \<Rightarrow> phase \<Rightarrow> bool" where
  "outcome pf r P x q \<longleftrightarrow> (case x of
       Inr a \<Rightarrow> P a q
     | Inl e \<Rightarrow> q = Aborted \<or> (\<exists>s. q = Spent s \<and> json_dumps (pf_repr pf) (dlq_payload r s) = Inl e))"

lemma outcome_simps [simp]:
  "outcome pf r P (Inr a) q \<longleftrightarrow> P a q"
  "outcome pf r P (Inl e) q \<longleftrightarrow>
     q = Aborted \<or> (\<exists>s. q = Spent s \<and> json_dumps (pf_repr pf) (dlq_payload r s) = Inl e)"
  by (simp_all add: outcome_def)

lemma settle_outcome:
  "\<exists>q'. settle q (x :: 'a res) = Some q' \<and> outcome pf r (\<lambda>a q'. q' = q) x q'"
  by (cases x) simp_all

lemma tracks_commit [life_rules]:
  assumes "\<And>x. life pf c r mid payload q (EvCommit x) = settle Committed x"
  shows "tracks (ready c) (life pf c r mid payload) q (commit_offset pf c r) (outcome pf r (\<lambda>_ q. q = Committed))"
proof -
  have "tracks (ready c) (life pf c r mid payload) q (ext_call EvCommit (pf_commit pf))
      (outcome pf r (\<lambda>_ q. q = Committed))"
    by (rule call_rules) (simp add: assms settle_outcome)
  then show ?thesis
    by (rule tracks_replace) (simp add: commit_offset_def ready_def)
qed

lemma tracks_send [life_rules]:
  "tracks (ready c) (life pf c r mid payload) (Spent s) (send_to_dlq pf c r s)
     (outcome pf r (\<lambda>_ q. q = (if nonempty (c_dlq_topic c) then Sent else Spent s)))"
  (is "tracks _ ?L _ _ ?Q")
proof (cases "nonempty (c_dlq_topic c)")
  case False
  then have "tracks (ready c) ?L (Spent s) (ret ()) ?Q"
    by (intro tracks_ret) simp
  then show ?thesis
    by (rule tracks_replace)
       (use False in \<open>auto simp: send_to_dlq_def ready_def ret_def nonempty_def split: option.splits\<close>)
next
  case True
  then obtain topic where topic: "c_dlq_topic c = Some topic" "topic \<noteq> []"
    by (auto simp: nonempty_def split: option.splits)
  show ?thesis
  proof (cases "json_dumps (pf_repr pf) (dlq_payload r s)")
    case (Inl e)
    have "tracks (ready c) ?L (Spent s) (raise e) ?Q" by (rule tracks_raise) (simp add: Inl)
    then show ?thesis
      by (rule tracks_replace) (use topic Inl True in \<open>simp add: send_to_dlq_def ready_def raise_def\<close>)
  next
    case (Inr body)
    have "tracks (ready c) ?L (Spent s)
        (ext_call (EvSend topic body (cr_key r)) (pf_send pf topic body (cr_key r))) ?Q"
      by (rule call_rules) (simp add: life_def topic Inr nonempty_def settle_outcome)
    then show ?thesis
      by (rule tracks_replace) (use topic Inr True in \<open>simp add: send_to_dlq_def ready_def\<close>)
  qed
qed

lemma tracks_complete [life_rules]:
  "tracks (ready c) (life pf c r mid payload) (Succeeded v) (complete pf c r mid v)
     (outcome pf r (\<lambda>_ q. q = Committed))"
  (is "tracks _ ?L _ _ ?Q")
proof -
  have mark: "tracks (ready c) ?L (Succeeded v) (store_mark_completed pf c (the mid) v)
      (\<lambda>x q. q = (if x = Inl Cancelled then Aborted else Filed))" if "nonempty mid"
    unfolding store_mark_completed_def using that
    by (intro life_rules) (auto simp: life_def nonempty_def split: option.splits)
  have mark': "tracks (ready c) ?L (Succeeded v)
     (try_except (store_mark_completed pf c (the mid) v) (\<lambda>exc. metric (f exc)))
     (outcome pf r (\<lambda>_ q. q = Filed))" if "nonempty mid" for f
    unfolding try_except_catch
    by (rule tracks_bind [where P = "outcome pf r (\<lambda>_ q. q = Filed)"], rule tracks_catch_exc [OF mark [OF that]])
       (auto intro!: life_rules tracks_ret split: sum.splits)
  have commit: "tracks (ready c) ?L q (commit_offset pf c r) ?Q"
    if "q = (if nonempty mid then Filed else Succeeded v)" for q
    using that by (intro life_rules) (simp add: life_def)
  show ?thesis
    unfolding complete_def
  proof (rule tracks_bind [where P = "outcome pf r (\<lambda>_ q. q = (if nonempty mid then Filed else Succeeded v))"])
    show "tracks (ready c) ?L (Succeeded v)
        (if nonempty mid then try_except (store_mark_completed pf c (the mid) v)
           (\<lambda>exc. metric (record_error (cr_topic r) (exc_type exc))) else ret ())
        (outcome pf r (\<lambda>_ q. q = (if nonempty mid then Filed else Succeeded v)))"
      using mark' by (auto intro: tracks_ret)
    show "tracks (ready c) ?L q (bind_eff (commit_offset pf c r)
        (\<lambda>_. metric (record_processed (cr_topic r)))) ?Q"
      if "outcome pf r (\<lambda>_ q. q = (if nonempty mid then Filed else Succeeded v)) (Inr x) q" for x q
      by (rule tracks_bind [OF commit]) (use that in \<open>auto intro: life_rules\<close>)
  qed simp
qed

lemma tracks_reclaim:
  assumes "k < max_retries (c_config c)"
  shows "tracks (ready c) (life pf c r mid payload) (if nonempty mid then Rested k s else held c (k + 1) s)
     (if nonempty mid then store_claim pf c (the mid) else ret True)
     (outcome pf r (\<lambda>again q. q = (if again then held c (k + 1) s else Spent s)))"
proof (cases "nonempty mid")
  case True
  then obtain m where m: "mid = Some m" by (auto simp: nonempty_def split: option.splits)
  have "\<exists>q'. settle (if x = Inr True then held c (k + 1) s else Spent s) x = Some q' \<and>
      outcome pf r (\<lambda>again q. q = (if again then held c (k + 1) s else Spent s)) x q'" for x
    by (cases x) auto
  then have "tracks (ready c) (life pf c r mid payload) (Rested k s) (store_claim pf c m)
     (outcome pf r (\<lambda>again q. q = (if again then held c (k + 1) s else Spent s)))"
    unfolding store_claim_def by (intro life_rules) (simp add: life_def m)
  with True m show ?thesis by simp
next
  case False
  then show ?thesis by (auto intro: tracks_ret)
qed

lemma tracks_note:
  "tracks (ready c) (life pf c r mid payload) (if nonempty mid then Raised k s else noted c k s)
     (when_eff (nonempty mid) (store_mark_failed pf c (the mid) s k)) (outcome pf r (\<lambda>_ q. q = noted c k s))"
proof (cases "nonempty mid")
  case True
  then obtain m where m: "mid = Some m" by (auto simp: nonempty_def split: option.splits)
  have "tracks (ready c) (life pf c r mid payload) (Raised k s) (store_mark_failed pf c m s k)
      (outcome pf r (\<lambda>_ q. q = noted c k s))"
    unfolding store_mark_failed_def by (intro life_rules) (simp add: life_def m settle_outcome)
  with True m show ?thesis by (simp add: when_eff_def)
next
  case False
  then show ?thesis by (auto simp: when_eff_def intro: tracks_ret)
qed

lemma tracks_on_failure:
  "tracks (ready c) (life pf c r mid payload) (if nonempty mid then Raised k s else noted c k s)
     (on_failure pf c r mid k (Exc t s))
     (outcome pf r (\<lambda>again q. q = (if again then held c (k + 1) s else Spent s)))"
  (is "tracks _ ?L _ _ ?Q")
proof -
  let ?b = "retry_backoff_ms (c_config c) * k"
  have sleep: "tracks (ready c) ?L (Noted k s) (ext_call (EvSleep ?b) (pf_sleep pf ?b))
     (outcome pf r (\<lambda>_ q. q = (if nonempty mid then Rested k s else held c (k + 1) s)))"
    by (rule call_rules) (simp add: life_def settle_outcome)
  have again: "tracks (ready c) ?L (noted c k s)
     (if k < max_retries (c_config c) then
        bind_eff (ext_call (EvSleep ?b) (pf_sleep pf ?b)) (\<lambda>_.
        bind_eff (metric f) (\<lambda>_. if nonempty mid then store_claim pf c (the mid) else ret True))
      else ret True) ?Q" for f
  proof (cases "k < max_retries (c_config c)")
    case True
    have "tracks (ready c) ?L q (bind_eff (metric f)
        (\<lambda>_. if nonempty mid then store_claim pf c (the mid) else ret True)) ?Q"
      if "q = (if nonempty mid then Rested k s else held c (k + 1) s)" for q
      unfolding that by (rule tracks_metric_then [OF tracks_reclaim [OF True]])
    then have "tracks (ready c) ?L (Noted k s) (bind_eff (ext_call (EvSleep ?b) (pf_sleep pf ?b)) (\<lambda>_.
        bind_eff (metric f) (\<lambda>_. if nonempty mid then store_claim pf c (the mid) else ret True))) ?Q"
      by (intro tracks_bind [OF sleep]) auto
    with True show ?thesis by (simp add: noted_def)
  next
    case False
    then show ?thesis by (auto simp: noted_def held_def intro: tracks_ret)
  qed
  have "tracks (ready c) ?L (if nonempty mid then Raised k s else noted c k s)
     (bind_eff (when_eff (nonempty mid) (store_mark_failed pf c (the mid) s k)) (\<lambda>_.
      if k < max_retries (c_config c) then
        bind_eff (ext_call (EvSleep ?b) (pf_sleep pf ?b)) (\<lambda>_.
        bind_eff (metric f) (\<lambda>_. if nonempty mid then store_claim pf c (the mid) else ret True))
      else ret True)) ?Q" for f
    by (rule tracks_bind [OF tracks_note]) (use again in auto)
  then show ?thesis
    unfolding on_failure_def Let_def exn.sel
    by (rule tracks_metric_then)
qed

text \<open>What is left of the record when the loop ends.\<close>

fun after_loop :: "loop_exit \<Rightarrow> phase" where
  "after_loop Done = Committed"
| "after_loop (Exhausted last_exc) = Spent (str_exc last_exc)"

text \<open>What one attempt leaves.\<close>

fun attempted :: "('s, 'u) consumer \<Rightarrow> string option \<Rightarrow> int \<Rightarrow> exn + pyval \<Rightarrow> phase \<Rightarrow> bool" where
  "attempted c mid k (Inr v) q \<longleftrightarrow> q = Succeeded v"
| "attempted c mid k (Inl (Exc t s)) q \<longleftrightarrow> q = (if nonempty mid then Raised k s else noted c k s)"
| "attempted c mid k (Inl Cancelled) q \<longleftrightarrow> False"

lemma tracks_attempt:
  "tracks (ready c) (life pf c r mid payload) (Held k s) (catch_exc (call_handle c payload))
     (outcome pf r (attempted c mid k))"
proof -
  have "tracks (ready c) (life pf c r mid payload) (Held k s) (call_handle c payload)
     (\<lambda>x q. if x = Inl Cancelled then q = Aborted else attempted c mid k x q)"
    unfolding call_handle_def
    by (rule call_rules) (auto simp: life_def split: sum.splits exn.splits)
  then show ?thesis
    by (rule tracks_catch_exc) auto
qed

text \<open>After an attempt that returned, and after one that raised when \<open>retry\<close> is the rest of the loop.\<close>

lemma tracks_succeeded:
  "tracks (ready c) (life pf c r mid payload) (Succeeded v) (bind_eff (complete pf c r mid v) (\<lambda>_. ret Done))
     (outcome pf r (\<lambda>x q. q = after_loop x))"
  by (rule tracks_bind [OF tracks_complete]) (auto intro: tracks_ret)

lemma tracks_failed:
  assumes "tracks (ready c) (life pf c r mid payload) (held c (k + 1) s) retry (outcome pf r (\<lambda>x q. q = after_loop x))"
  shows "tracks (ready c) (life pf c r mid payload) (if nonempty mid then Raised k s else noted c k s)
     (bind_eff (on_failure pf c r mid k (Exc t s)) (\<lambda>again. if again then retry else ret (Exhausted (Some (Exc t s)))))
     (outcome pf r (\<lambda>x q. q = after_loop x))"
proof (rule tracks_bind [OF tracks_on_failure])
  fix again q' assume "outcome pf r (\<lambda>again q. q = (if again then held c (k + 1) s else Spent s)) (Inr again) q'"
  with assms show "tracks (ready c) (life pf c r mid payload) q' (if again then retry else ret (Exhausted (Some (Exc t s))))
      (outcome pf r (\<lambda>x q. q = after_loop x))"
    by (cases again) (simp_all add: str_exc_def tracks_ret)
qed simp

lemma tracks_loop:
  "tracks (ready c) (life pf c r mid payload) (held c k (str_exc last_exc))
     (execute_loop pf c r mid payload k last_exc) (outcome pf r (\<lambda>x q. q = after_loop x))"
  (is "tracks _ ?L _ _ ?Q")
proof (induction pf c r mid payload k last_exc rule: execute_loop.induct)
  case (1 pf c r mid payload k last_exc)
  let ?L = "life pf c r mid payload" and ?Q = "outcome pf r (\<lambda>x q. q = after_loop x)"
  show ?case
  proof (cases "k \<le> max_retries (c_config c)")
    case False
    then show ?thesis
      by (simp add: execute_loop.simps [of pf c r mid payload k] held_def tracks_ret)
  next
    case True
    have ih: "tracks (ready c) ?L (held c (k + 1) s)
        (execute_loop pf c r mid payload (k + 1) (Some (Exc t s))) ?Q" for s t
      using 1 [OF True, of True "Exc t s"] by (simp add: str_exc_def)
    have "tracks (ready c) ?L (Held k (str_exc last_exc))
        (bind_eff (catch_exc (call_handle c payload)) (\<lambda>outcome.
          case outcome of
            Inr result \<Rightarrow> bind_eff (complete pf c r mid result) (\<lambda>_. ret Done)
          | Inl exc \<Rightarrow> bind_eff (on_failure pf c r mid k exc) (\<lambda>again.
              if again then execute_loop pf c r mid payload (k + 1) (Some exc)
              else ret (Exhausted (Some exc))))) ?Q"
    proof (rule tracks_bind [OF tracks_attempt])
      fix x q' assume "outcome pf r (attempted c mid k) (Inr x) q'"
      then consider v where "x = Inr v" "q' = Succeeded v"
        | t s where "x = Inl (Exc t s)" "q' = (if nonempty mid then Raised k s else noted c k s)"
        by (auto elim: attempted.elims)
      then show "tracks (ready c) ?L q' (case x of
            Inr result \<Rightarrow> bind_eff (complete pf c r mid result) (\<lambda>_. ret Done)
          | Inl exc \<Rightarrow> bind_eff (on_failure pf c r mid k exc) (\<lambda>again.
              if again then execute_loop pf c r mid payload (k + 1) (Some exc)
              else ret (Exhausted (Some exc)))) ?Q"
        by cases (simp_all only: tracks_succeeded tracks_failed [OF ih] sum.case)
    qed simp
    then show ?thesis
      using True by (simp add: execute_loop.simps [of pf c r mid payload k] held_def)
  qed
qed

lemma tracks_execute_and_commit:
  assumes "parse_payload pf r = Inr payload"
  shows "tracks (ready c) (life pf c r mid payload) (held c 1 ''None'') (execute_and_commit pf c r mid)
     (outcome pf r (\<lambda>_ q. q = Committed))"
  (is "tracks _ ?L _ _ ?Q")
proof -
  have spent: "tracks (ready c) ?L (Spent s)
      (bind_eff (metric f) (\<lambda>_. bind_eff (send_to_dlq pf c r s) (\<lambda>_. commit_offset pf c r))) ?Q" for s f
  proof (rule tracks_metric_then, rule tracks_bind [OF tracks_send])
    show "tracks (ready c) ?L q (commit_offset pf c r) ?Q"
      if "outcome pf r (\<lambda>_ q. q = (if nonempty (c_dlq_topic c) then Sent else Spent s)) (Inr x) q" for x q
      using that by (intro tracks_commit) (simp add: life_def)
  qed simp
  have "tracks (ready c) ?L (held c 1 (str_exc None)) (bind_eff (execute_loop pf c r mid payload 1 None)
      (\<lambda>exit. case exit of
         Done \<Rightarrow> ret ()
       | Exhausted last_exc \<Rightarrow> bind_eff (metric (record_dlq (cr_topic r))) (\<lambda>_.
           bind_eff (send_to_dlq pf c r (str_exc last_exc)) (\<lambda>_. commit_offset pf c r)))) ?Q"
  proof (rule tracks_bind [OF tracks_loop])
    show "tracks (ready c) ?L q (case x of
         Done \<Rightarrow> ret ()
       | Exhausted last_exc \<Rightarrow> bind_eff (metric (record_dlq (cr_topic r))) (\<lambda>_.
           bind_eff (send_to_dlq pf c r (str_exc last_exc)) (\<lambda>_. commit_offset pf c r))) ?Q"
      if "outcome pf r (\<lambda>x q. q = after_loop x) (Inr x) q" for x q
      using that spent by (cases x) (simp_all add: tracks_ret)
  qed simp
  moreover have "str_exc None = ''None''" by (simp add: str_exc_def)
  ultimately show ?thesis
    unfolding execute_and_commit_def assms sum.case by (simp only:)
qed

lemma tracks_process_record:
  assumes mid: "extract_message_id pf r = Inr mid" and "parse_payload pf r = Inr payload"
  shows "tracks (ready c) (life pf c r mid payload) (first_phase c mid) (process_record pf c r)
     (outcome pf r (\<lambda>_ q. q = Committed))"
  (is "tracks _ ?L _ _ ?Q")
proof (cases mid)
  case None
  with mid tracks_metric_then [OF tracks_execute_and_commit [OF assms(2)]] show ?thesis
    by (simp add: process_record_def first_phase_def)
next
  case (Some m)
  let ?claimed = "outcome pf r (\<lambda>b q. q = (if b then held c 1 ''None'' else Lost))"
  have settled: "\<exists>q'. settle (if x = Inr True then held c 1 ''None'' else Lost) x = Some q' \<and> ?claimed x q'" for x
    by (cases x) auto
  have claim: "tracks (ready c) ?L Fresh (store_claim pf c m) ?claimed"
    unfolding store_claim_def
    by (intro life_rules) (use settled in \<open>simp add: life_def Some\<close>)
  have status: "tracks (ready c) ?L Lost (store_get_status pf c m) (outcome pf r (\<lambda>_ q. q = Seen))"
    unfolding store_get_status_def
    by (intro life_rules) (simp add: life_def Some settle_outcome)
  have lost: "tracks (ready c) ?L Lost (bind_eff (store_get_status pf c m) (\<lambda>existing.
      bind_eff (metric (f existing)) (\<lambda>_. commit_offset pf c r))) ?Q" for f
  proof (rule tracks_bind [OF status])
    show "tracks (ready c) ?L q (bind_eff (metric (f x)) (\<lambda>_. commit_offset pf c r)) ?Q"
      if "outcome pf r (\<lambda>_ q. q = Seen) (Inr x) q" for x q
      using that by (intro tracks_metric_then tracks_commit) (simp add: life_def)
  qed simp
  show ?thesis
    unfolding process_record_def mid Some first_phase_def sum.case option.case
    by (simp, rule tracks_bind [OF claim [unfolded Some]])
       (use lost tracks_measure_processing [OF tracks_execute_and_commit [OF assms(2)]] Some in auto)
qed

end
