(* ===== verification/Example_Run.thy ===== *)
theory Example_Run
  imports Lifecycle Memory_Store
begin

section \<open>A concrete run\<close>

text \<open>
  A consumer on the in-memory store, beside the platform \<open>calm\<close> whose calls succeed, on which the
  theorems about the consumer are instantiated. \<open>flaky n\<close> is a handler that raises in its first
  \<open>n\<close> runs, counting them in the outside, and then returns.
\<close>

definition flaky :: "nat \<Rightarrow> pyval \<Rightarrow> (('s, nat) outside, pyval) eff" where
  "flaky n payload = (\<lambda>(t, s, u).
     if u < n then (Inl (Exc ''ValueError'' ''boom''), (t, s, u + 1))
     else (Inr (PInt 7), (t, s, u)))"

definition example_consumer :: "nat \<Rightarrow> (mem_state, nat) consumer" where
  "example_consumer n = \<lparr>c_topics = [''orders''], c_store = mem_ops default_config,
     c_config = default_config, c_dlq_topic = Some ''dlq'', c_bootstrap = ''b'',
     c_group_id = ''g'', c_handle = flaky n\<rparr>"

definition example_record :: ConsumerRecord where
  "example_record = \<lparr>cr_topic = ''orders'', cr_partition = 0, cr_offset = 4, cr_key = None,
     cr_value = None, cr_headers = [(''X-Message-Id'', Some ''m'')]\<rparr>"

definition example_world :: "mem_state \<Rightarrow> (mem_state, nat) world" where
  "example_world st = \<lparr>rt_clock = 0, rt_store = st, rt_ext = 0, rt_trace = [],
     w_metrics = metrics_init, w_consumer = True, w_producer = True, w_running = True\<rparr>"

lemma example_ready: "ready (example_consumer n) (example_world st)"
  by (simp add: ready_def example_world_def example_consumer_def nonempty_def)

lemma example_id: "extract_message_id pf example_record = Inr (Some ''m'')"
  by code_simp

lemma example_payload: "parse_payload pf example_record = Inr (PDict [])"
  by code_simp

text \<open>
  The delivery of \<open>example_record\<close> to a handler that fails \<open>n\<close> times, from a store in the state \<open>st\<close>.
\<close>

definition example_result :: "nat \<Rightarrow> mem_state \<Rightarrow> unit res" where
  "example_result n st =
     fst (process_record (calm (\<lambda>_. [])) (example_consumer n) example_record (example_world st))"

definition example_after :: "nat \<Rightarrow> mem_state \<Rightarrow> (mem_state, nat) world" where
  "example_after n st =
     snd (process_record (calm (\<lambda>_. [])) (example_consumer n) example_record (example_world st))"

lemma example_run:
  "process_record (calm (\<lambda>_. [])) (example_consumer n) example_record (example_world st) =
     (example_result n st, example_after n st)"
  by (simp add: example_result_def example_after_def)

lemmas example_facts = example_ready example_id example_payload example_run

lemmas run_simps = example_after_def example_result_def process_record_def execute_and_commit_def
  execute_loop.simps complete_def on_failure_def store_claim_def store_get_status_def
  store_mark_failed_def store_mark_completed_def measure_store_op_def measure_processing_def
  call_handle_def commit_offset_def store_call_def ext_call_def eff_simps metric_def when_eff_def
  log_event_def set_outside_def outside_def calm_def flaky_def example_consumer_def
  example_world_def default_config_def mem_ops_def mem_defs lease_end_def nonempty_def calls_def
  is_failed_def send_to_dlq_def str_exc_def example_id example_payload

lemma example_calls_retry:
  "calls (example_world []) (example_after 1 []) =
     [EvClaim ''m'' (Inr True), EvHandle (PDict []) (Inl (Exc ''ValueError'' ''boom'')),
      EvFailed ''m'' ''boom'' 1 (Inr ()), EvSleep 500 (Inr ()), EvClaim ''m'' (Inr True),
      EvHandle (PDict []) (Inr (PInt 7)), EvCompleted ''m'' (PInt 7) (Inr ()), EvCommit (Inr ())]"
  by (simp add: run_simps)

definition example_lost :: mem_state where
  "example_lost = [(''m'', \<lparr>ps_message_id = ''m'', ps_status = COMPLETED, ps_attempts = 1,
     ps_result = PNone, ps_error = None, ps_lease_expires_at = None, ps_created_at = 0,
     ps_updated_at = 0\<rparr>)]"

lemma example_calls_lost:
  "calls (example_world example_lost) (example_after 0 example_lost) =
     [EvClaim ''m'' (Inr False), EvStatus ''m'' (Inr (map_of example_lost ''m'')), EvCommit (Inr ())]"
  by (simp add: run_simps example_lost_def)

text \<open>The history of a delivery that ends in the dead-letter queue, up to the message sent there.\<close>

definition example_failed :: "event list" where
  "example_failed =
     [EvClaim ''m'' (Inr True), EvHandle (PDict []) (Inl (Exc ''ValueError'' ''boom'')),
      EvFailed ''m'' ''boom'' 1 (Inr ()), EvSleep 500 (Inr ()), EvClaim ''m'' (Inr True),
      EvHandle (PDict []) (Inl (Exc ''ValueError'' ''boom'')),
      EvFailed ''m'' ''boom'' 2 (Inr ()), EvSleep 1000 (Inr ()), EvClaim ''m'' (Inr True),
      EvHandle (PDict []) (Inl (Exc ''ValueError'' ''boom'')),
      EvFailed ''m'' ''boom'' 3 (Inr ())]"

definition example_dead_letter :: string where
  "example_dead_letter = dump_text (\<lambda>_. []) (dlq_payload example_record ''boom'')"

lemma example_payload_ok: "json_ok (dlq_payload example_record ''boom'')"
  by code_simp

lemma example_dumps: "json_dumps rp (dlq_payload example_record ''boom'') =
    Inr (dump_text rp (dlq_payload example_record ''boom''))"
  using loads_dumps [OF example_payload_ok] by blast

lemma example_calls_failed:
  "calls (example_world []) (example_after 3 []) =
     example_failed @ [EvSend ''dlq'' example_dead_letter None (Inr ()), EvCommit (Inr ())]"
  by (simp add: run_simps example_failed_def example_dead_letter_def example_dumps)
     (simp add: example_record_def)

end
