(* ===== verification/Consumer_Metrics.thy ===== *)
theory Consumer_Metrics
  imports Example_Run
begin

section \<open>What the consumer's metrics say\<close>

text \<open>
  Two readings of the metrics around \<open>process_record\<close>: the gauge of the records in progress
  returns to its value on every path, and every record that is dealt with counts under exactly
  one outcome. \<open>adds g D m\<close>: the reading \<open>g\<close> of the metrics grows by one of the amounts that
  \<open>D\<close> allows for the answer of \<open>m\<close>; \<open>keeps\<close> is the special case that it does not change.
\<close>

definition adds ::
    "(metrics \<Rightarrow> nat) \<Rightarrow> ('a res \<Rightarrow> nat set) \<Rightarrow> (('s, 'u) world, 'a) eff \<Rightarrow> bool" where
  "adds g D m \<longleftrightarrow> (\<forall>w r w'. m w = (r, w') \<longrightarrow> (\<exists>d \<in> D r. g (w_metrics w') = g (w_metrics w) + d))"

definition keeps :: "(metrics \<Rightarrow> 'n) \<Rightarrow> (('s, 'u) world, 'a) eff \<Rightarrow> bool" where
  "keeps g m \<longleftrightarrow> (\<forall>w r w'. m w = (r, w') \<longrightarrow> g (w_metrics w') = g (w_metrics w))"

named_theorems keep_rules "effects that leave a reading of the metrics as it is"

lemma keeps_ret [keep_rules]: "keeps g (ret x)"
  by (simp add: keeps_def ret_def)

lemma keeps_raise [keep_rules]: "keeps g (raise e)"
  by (simp add: keeps_def raise_def)

lemma keeps_ext_call [keep_rules]: "keeps g (ext_call ev f)"
  by (auto simp: keeps_def ext_call_def split: prod.splits)

lemma keeps_store_call [keep_rules]: "keeps g (store_call pf ev f)"
  by (auto simp: keeps_def store_call_def split: prod.splits)

lemma keeps_metric [keep_rules]: "(\<And>mx. g (f mx) = g mx) \<Longrightarrow> keeps g (metric f)"
  by (simp add: keeps_def metric_def modify_def)

lemma keeps_measure_store_op [keep_rules]:
  assumes "keeps g m" "\<And>d mx. g (observe_store_op operation d mx) = g mx"
  shows "keeps g (measure_store_op operation m)"
  using assms by (auto simp: keeps_def measure_store_op_def try_finally_def split: prod.splits)

lemma keeps_bind [keep_rules]:
  assumes "keeps g m" "\<And>x. keeps g (k x)"
  shows "keeps g (bind_eff m k)"
  unfolding keeps_def
proof (intro allI impI)
  fix w r w' assume "bind_eff m k w = (r, w')"
  then show "g (w_metrics w') = g (w_metrics w)"
    by (cases rule: bind_eff_cases) (use assms in \<open>fastforce simp: keeps_def\<close>)+
qed

lemma keeps_catch_exc [keep_rules]: "keeps g m \<Longrightarrow> keeps g (catch_exc m)"
  by (auto simp: keeps_def catch_exc_def split: prod.splits sum.splits exn.splits)

lemma keeps_try_except [keep_rules]:
  "keeps g m \<Longrightarrow> (\<And>e. keeps g (h e)) \<Longrightarrow> keeps g (try_except m h)"
  unfolding try_except_catch
  by (intro keeps_bind keeps_catch_exc) (auto intro: keep_rules split: sum.splits)

lemma keeps_when [keep_rules]: "keeps g m \<Longrightarrow> keeps g (when_eff b m)"
  by (simp add: when_eff_def keep_rules)

lemmas keepsD = keeps_def [THEN iffD1, rule_format]

lemma keeps_commit [keep_rules]: "keeps g (commit_offset pf c r)"
  by (auto simp: keeps_def commit_offset_def dest: keepsD [OF keeps_ext_call] split: if_splits)

lemma keeps_send [keep_rules]: "keeps g (send_to_dlq pf c r e)"
  by (auto simp: keeps_def send_to_dlq_def dest: keepsD [OF keeps_ext_call]
      split: option.splits sum.splits if_splits)

lemma keeps_handle [keep_rules]: "keeps g (call_handle c payload)"
  by (simp add: call_handle_def keep_rules)

text \<open>A reading of the metrics that counts neither store operations nor errors and retries.\<close>

definition coarse :: "(metrics \<Rightarrow> 'n) \<Rightarrow> bool" where
  "coarse g \<longleftrightarrow> (\<forall>mx oper d t e. g (observe_store_op oper d mx) = g mx \<and>
     g (record_error t e mx) = g mx \<and> g (record_retry t mx) = g mx \<and> g (record_no_message_id t mx) = g mx)"

lemma coarse_simps:
  assumes "coarse g"
  shows "g (observe_store_op oper d mx) = g mx" "g (record_error t e mx) = g mx"
    "g (record_retry t mx) = g mx" "g (record_no_message_id t mx) = g mx"
  using assms by (simp_all add: coarse_def)

lemma keeps_store_ops [keep_rules]:
  assumes "coarse g"
  shows "keeps g (store_claim pf c m)" "keeps g (store_get_status pf c m)"
    "keeps g (store_mark_failed pf c m e n)" "keeps g (store_mark_completed pf c m v)"
  unfolding store_claim_def store_get_status_def store_mark_failed_def store_mark_completed_def
  by (intro keep_rules coarse_simps [OF assms])+

lemma keeps_on_failure [keep_rules]:
  assumes "coarse g"
  shows "keeps g (on_failure pf c r mid k exc)"
  unfolding on_failure_def Let_def
  by (auto intro!: keep_rules coarse_simps [OF assms] assms)

lemma adds_bind:
  assumes "keeps g m" "\<And>x. adds g D (k x)" "\<And>e. 0 \<in> D (Inl e)"
  shows "adds g D (bind_eff m k)"
  unfolding adds_def
proof (intro allI impI)
  fix w r w' assume "bind_eff m k w = (r, w')"
  then show "\<exists>d \<in> D r. g (w_metrics w') = g (w_metrics w) + d"
  proof (cases rule: bind_eff_cases)
    case (exn e)
    with assms(1) have "g (w_metrics w') = g (w_metrics w) + 0" by (auto simp: keeps_def)
    with exn assms(3) show ?thesis by blast
  next
    case (ok x w1)
    with assms(1) have "g (w_metrics w1) = g (w_metrics w)" by (auto simp: keeps_def)
    moreover from ok(2) assms(2) obtain d where "d \<in> D r" "g (w_metrics w') = g (w_metrics w1) + d"
      unfolding adds_def by blast
    ultimately show ?thesis by auto
  qed
qed

subsection \<open>The gauge\<close>

lemma coarse_gauge: "coarse active_processing"
  by (simp add: coarse_def)

lemma keeps_gauge_complete: "keeps active_processing (complete pf c r mid v)"
  unfolding complete_def by (auto intro!: keep_rules coarse_gauge)

lemma keeps_gauge_loop: "keeps active_processing (execute_loop pf c r mid payload k last_exc)"
proof (induction pf c r mid payload k last_exc rule: execute_loop.induct)
  case (1 pf c r mid payload k last_exc)
  show ?case
    unfolding execute_loop.simps [of pf c r mid payload k]
    using 1 by (auto intro!: keep_rules keeps_gauge_complete coarse_gauge split: sum.splits)
qed

lemma keeps_gauge_execute: "keeps active_processing (execute_and_commit pf c r mid)"
  unfolding execute_and_commit_def
  by (auto intro!: keep_rules keeps_gauge_loop split: sum.splits loop_exit.splits)

lemma keeps_gauge_measure:
  assumes "keeps active_processing m"
  shows "keeps active_processing (measure_processing topic m)"
  using assms
  by (fastforce simp: keeps_def measure_processing_def try_finally_def enter_processing_def
      exit_processing_def fun_eq_iff split: prod.splits)

text \<open>
  The gauge \<open>dedup_active_processing\<close> counts the records in progress: whatever happens while a record is
  processed, exceptions and cancellation included, every label of it ends at the value it had
  before.
\<close>

theorem gauge_restored:
  "active_processing (w_metrics (snd (process_record pf c r w))) = active_processing (w_metrics w)"
proof -
  have "keeps active_processing (process_record pf c r)"
    unfolding process_record_def
    by (auto intro!: keep_rules keeps_gauge_execute keeps_gauge_measure coarse_gauge
        split: sum.splits option.splits)
  then show ?thesis by (rule keepsD) (rule surjective_pairing)
qed

subsection \<open>One outcome per record\<close>

text \<open>Records of a topic that \<open>dedup_messages_total\<close> counts under a final outcome.\<close>

definition outcomes :: "string \<Rightarrow> metrics \<Rightarrow> nat" where
  "outcomes t mx = messages_total mx (t, ''processed'') + messages_total mx (t, ''duplicate'')
     + messages_total mx (t, ''claim_lost'') + messages_total mx (t, ''dlq'')"

lemma coarse_outcomes: "coarse (outcomes t)"
  by (simp add: coarse_def outcomes_def metrics_defs)

lemma outcomes_simps:
  "outcomes t (record_processed t mx) = outcomes t mx + 1"
  "outcomes t (record_duplicate t mx) = outcomes t mx + 1"
  "outcomes t (record_claim_lost t mx) = outcomes t mx + 1"
  "outcomes t (record_dlq t mx) = outcomes t mx + 1"
  "outcomes t (enter_processing t' mx) = outcomes t mx"
  "outcomes t (exit_processing t' d mx) = outcomes t mx"
  by (simp_all add: outcomes_def metrics_defs)

text \<open>A record counts once when it is dealt with, and at most once when an exception ends it.\<close>

fun once :: "'a res \<Rightarrow> nat set" where
  "once (Inr x) = {1}"
| "once (Inl e) = {0, 1}"

fun once_done :: "loop_exit res \<Rightarrow> nat set" where
  "once_done (Inr Done) = {1}"
| "once_done (Inr (Exhausted x)) = {0}"
| "once_done (Inl e) = {0}"

lemma once_pos: "(0::nat) \<in> once (Inl e)" "(0::nat) \<in> once_done (Inl e)"
  by simp_all

lemma adds_metric_then:
  assumes "\<And>mx. g (f mx) = g mx + 1" "keeps g m" "\<And>r. 1 \<in> D r"
  shows "adds g D (bind_eff (metric f) (\<lambda>_. m))"
  unfolding adds_def
proof (intro allI impI)
  fix w r w' assume "bind_eff (metric f) (\<lambda>_. m) w = (r, w')"
  then have "m (w\<lparr>w_metrics := f (w_metrics w)\<rparr>) = (r, w')"
    by (simp add: bind_eff_def metric_def modify_def)
  with assms(1,2) have "g (w_metrics w') = g (w_metrics w) + 1" by (auto dest: keepsD)
  with assms(3) show "\<exists>d \<in> D r. g (w_metrics w') = g (w_metrics w) + d" by blast
qed

lemma adds_keeps:
  assumes "keeps g m" "\<And>r. 0 \<in> D r"
  shows "adds g D m"
  using assms by (fastforce simp: adds_def keeps_def)

lemma once_one: "Suc 0 \<in> once r"
  by (cases r) auto

lemma adds_outcomes_complete:
  "adds (outcomes (cr_topic r)) once_done (bind_eff (complete pf c r mid v) (\<lambda>_. ret Done))"
proof -
  let ?g = "outcomes (cr_topic r)"
  have processed: "adds ?g once_done (bind_eff (metric (record_processed (cr_topic r))) (\<lambda>_. ret Done))"
    by (auto simp: adds_def bind_eff_def metric_def modify_def ret_def outcomes_simps)
  have committed: "adds ?g once_done (bind_eff (commit_offset pf c r) (\<lambda>_.
      bind_eff (metric (record_processed (cr_topic r))) (\<lambda>_. ret Done)))"
    by (rule adds_bind [OF keeps_commit processed]) simp
  show ?thesis
    unfolding complete_def bind_eff_assoc
  proof (rule adds_bind [OF _ committed])
    show "keeps ?g (if nonempty mid then try_except (store_mark_completed pf c (the mid) v)
        (\<lambda>exc. metric (record_error (cr_topic r) (exc_type exc))) else ret ())"
      by (auto intro!: keep_rules coarse_outcomes coarse_simps [OF coarse_outcomes])
  qed simp
qed

lemma adds_outcomes_loop:
  "adds (outcomes (cr_topic r)) once_done (execute_loop pf c r mid payload k last_exc)"
proof (induction pf c r mid payload k last_exc rule: execute_loop.induct)
  case (1 pf c r mid payload k last_exc)
  let ?g = "outcomes (cr_topic r)"
  have stop: "adds ?g once_done (ret (Exhausted x))" for x
    by (simp add: adds_def ret_def)
  show ?case
  proof (cases "k \<le> max_retries (c_config c)")
    case False
    then show ?thesis by (simp add: execute_loop.simps [of pf c r mid payload k] stop)
  next
    case True
    have again: "adds ?g once_done (execute_loop pf c r mid payload (k + 1) (Some exc))" for exc
      using 1 [OF True, of True exc] by simp
    have "adds ?g once_done (case x of
        Inr result \<Rightarrow> bind_eff (complete pf c r mid result) (\<lambda>_. ret Done)
      | Inl exc \<Rightarrow> bind_eff (on_failure pf c r mid k exc) (\<lambda>again.
          if again then execute_loop pf c r mid payload (k + 1) (Some exc)
          else ret (Exhausted (Some exc))))" for x
      by (cases x) (auto intro!: adds_bind adds_outcomes_complete again stop keep_rules coarse_outcomes)
    then show ?thesis
      using True unfolding execute_loop.simps [of pf c r mid payload k]
      by (auto intro!: adds_bind keep_rules)
  qed
qed

lemma adds_outcomes_execute: "adds (outcomes (cr_topic r)) once (execute_and_commit pf c r mid)"
proof (cases "parse_payload pf r")
  case (Inl e)
  then show ?thesis by (simp add: execute_and_commit_def adds_def raise_def)
next
  case (Inr payload)
  let ?g = "outcomes (cr_topic r)"
  let ?rest = "\<lambda>x. case x of Done \<Rightarrow> ret () | Exhausted last_exc \<Rightarrow>
     bind_eff (metric (record_dlq (cr_topic r))) (\<lambda>_.
     bind_eff (send_to_dlq pf c r (str_exc last_exc)) (\<lambda>_. commit_offset pf c r))"
  have rest: "adds ?g once (?rest (Exhausted x))" for x
    by (auto intro!: adds_metric_then keep_rules simp: outcomes_simps once_one)
  have "adds ?g once (bind_eff (execute_loop pf c r mid payload 1 None) ?rest)"
    unfolding adds_def
  proof (intro allI impI)
    fix w y w' assume "bind_eff (execute_loop pf c r mid payload 1 None) ?rest w = (y, w')"
    then show "\<exists>d \<in> once y. ?g (w_metrics w') = ?g (w_metrics w) + d"
    proof (cases rule: bind_eff_cases)
      case (exn e)
      with adds_outcomes_loop show ?thesis by (fastforce simp: adds_def)
    next
      case (ok x w1)
      then obtain d where d: "d \<in> once_done (Inr x)" "?g (w_metrics w1) = ?g (w_metrics w) + d"
        using adds_outcomes_loop [of r pf c mid payload 1 None] unfolding adds_def by blast
      show ?thesis
      proof (cases x)
        case Done
        with ok d show ?thesis by (auto simp: ret_def)
      next
        case (Exhausted z)
        with rest [of z] ok(2) obtain d' where "d' \<in> once y" "?g (w_metrics w') = ?g (w_metrics w1) + d'"
          unfolding adds_def by blast
        with d Exhausted show ?thesis by auto
      qed
    qed
  qed
  with Inr show ?thesis by (simp add: execute_and_commit_def)
qed

text \<open>
  C25. \<open>dedup_messages_total\<close> adds up: a record that is dealt with counts exactly once among processed,
  duplicate, claim_lost and dlq of its topic; one that ends in an exception at most once.
\<close>

theorem one_outcome_per_record:
  assumes "process_record pf c r w = (res, w')"
  shows "\<exists>d \<le> 1. outcomes (cr_topic r) (w_metrics w') = outcomes (cr_topic r) (w_metrics w) + d
     \<and> (res = Inr () \<longrightarrow> d = 1)"
proof -
  let ?g = "outcomes (cr_topic r)"
  note coarse = coarse_outcomes [of "cr_topic r"]
  have lost: "adds ?g once (bind_eff (metric (if P then record_claim_lost (cr_topic r)
      else record_duplicate (cr_topic r))) (\<lambda>_. commit_offset pf c r))" for P
    by (intro adds_metric_then keep_rules) (simp_all add: outcomes_simps once_one)
  have measured: "adds ?g once (measure_processing (cr_topic r) (execute_and_commit pf c r mid))" for mid
    using adds_outcomes_execute [of r pf c mid]
    by (fastforce simp: adds_def measure_processing_def try_finally_def outcomes_simps split: prod.splits)
  have "adds ?g once (process_record pf c r)"
  proof (cases "extract_message_id pf r")
    case (Inl e)
    then show ?thesis by (simp add: process_record_def adds_def raise_def)
  next
    case (Inr mid)
    show ?thesis
    proof (cases mid)
      case None
      with Inr show ?thesis
        by (auto simp: process_record_def intro!: adds_bind adds_outcomes_execute keep_rules
            coarse_simps [OF coarse])
    next
      case (Some m)
      have skip: "adds ?g once (bind_eff (store_get_status pf c m) (\<lambda>existing.
          bind_eff (metric (if (case existing of Some p \<Rightarrow> ps_status p = PROCESSING | None \<Rightarrow> False)
                            then record_claim_lost (cr_topic r) else record_duplicate (cr_topic r)))
            (\<lambda>_. commit_offset pf c r)))"
        by (rule adds_bind [OF keeps_store_ops(2) [OF coarse] lost]) simp
      show ?thesis
        unfolding process_record_def Inr Some sum.case option.case
        by (rule adds_bind [OF keeps_store_ops(1) [OF coarse]]) (simp_all add: skip measured)
    qed
  qed
  with assms obtain d where "d \<in> once res" "?g (w_metrics w') = ?g (w_metrics w) + d"
    unfolding adds_def by blast
  then show ?thesis by (cases res) auto
qed

theorem one_outcome_per_record_witness:
  "outcomes (cr_topic example_record) (w_metrics (example_after 1 [])) \<le> 1"
  using one_outcome_per_record [OF example_run, of 1 "[]"]
  by (auto simp: example_world_def outcomes_def metrics_init_def)

end
