(* ===== verification/Guard.thy ===== *)
theory Guard
  imports Runtime Py_Values
begin

section \<open>IdempotencyGuard and idempotent\<close>

text \<open>
  \<open>src/idempotency/guard.py\<close>: the context manager \<open>IdempotencyGuard\<close> and the decorator \<open>@idempotent\<close>, over
  the same runtime as the consumer.
  \<^item> \<open>guard\<close> holds the attributes a guard changes; \<open>guard_enter\<close> and \<open>guard_exit\<close> are \<open>__aenter__\<close> and
    \<open>__aexit__\<close>, \<open>with_guard\<close> is the statement \<open>async with IdempotencyGuard(store, key) as guard:\<close> around a body, and
    \<open>guarded_work\<close> the body of the class's documentation.
  \<^item> \<open>idempotent_call\<close> is the wrapper that the decorator puts around a function, \<open>idempotent_loop\<close> its
    retry loop. \<open>key_fn\<close> and the function are parameters; a call's arguments are its positional and its keyword arguments.
  The automaton \<open>idem\<close> says which calls the wrapper makes and \<open>idem_result\<close> what it answers; \<open>guard_run\<close>
  lists the runs of the documented use of a guard.
\<close>

subsection \<open>The context manager\<close>

record guard =
  already_processed :: bool
  previous_result :: pyval
  guard_result :: pyval

definition guard_init :: guard where
  "guard_init = \<lparr>already_processed = False, previous_result = PNone, guard_result = PNone\<rparr>"

definition completed_status :: "ProcessingStatus option \<Rightarrow> bool" where
  "completed_status existing = (case existing of Some p \<Rightarrow> ps_status p = COMPLETED | None \<Rightarrow> False)"

definition guard_enter ::
    "('s, 'u) platform \<Rightarrow> 's store_ops \<Rightarrow> string \<Rightarrow> guard \<Rightarrow> (('s, 'u) runtime, guard) eff" where
  "guard_enter pf store key g =
     bind_eff (store_call pf (EvStatus key) (op_get_status store key)) (\<lambda>existing.
     if completed_status existing
     then ret (g\<lparr>already_processed := True, previous_result := ps_result (the existing)\<rparr>)
     else
       bind_eff (store_call pf (EvClaim key) (op_claim store key)) (\<lambda>claimed.
       ret (if \<not> claimed then g\<lparr>already_processed := True\<rparr> else g)))"

text \<open>\<open>f"{exc_type.__name__}: {exc_val}"\<close>\<close>

definition exc_text :: "exn \<Rightarrow> string" where
  "exc_text e = (case e of
       Exc t s \<Rightarrow> t @ '': '' @ s
     | Cancelled \<Rightarrow> ''CancelledError: '')"

text \<open>The argument is the exception that leaves the body, if one does; the answer \<open>False\<close> lets it through.\<close>

definition guard_exit ::
    "('s, 'u) platform \<Rightarrow> 's store_ops \<Rightarrow> string \<Rightarrow> guard \<Rightarrow> exn option \<Rightarrow> (('s, 'u) runtime, bool) eff" where
  "guard_exit pf store key g exc =
     (if already_processed g then ret False
      else case exc of
        Some e \<Rightarrow>
          (let error_msg = exc_text e in
           bind_eff (store_call pf (EvFailed key error_msg 1) (op_mark_failed store key error_msg 1)) (\<lambda>_.
           ret False))
      | None \<Rightarrow>
          bind_eff (store_call pf (EvCompleted key (guard_result g)) (op_mark_completed store key (guard_result g))) (\<lambda>_.
          ret False))"

text \<open>
  \<open>async with\<close>: the body answers its value and what it assigned to \<open>guard.result\<close>. An exception goes on unless
  \<open>__aexit__\<close> answers \<open>True\<close> or raises one of its own.
\<close>

definition with_guard ::
    "('s, 'u) platform \<Rightarrow> 's store_ops \<Rightarrow> string \<Rightarrow> (guard \<Rightarrow> (('s, 'u) runtime, pyval \<times> pyval) eff)
     \<Rightarrow> (('s, 'u) runtime, pyval) eff" where
  "with_guard pf store key body =
     bind_eff (guard_enter pf store key guard_init) (\<lambda>g w.
       case body g w of
         (Inr (x, v), w') \<Rightarrow>
           bind_eff (guard_exit pf store key (g\<lparr>guard_result := v\<rparr>) None) (\<lambda>_. ret x) w'
       | (Inl e, w') \<Rightarrow>
           bind_eff (guard_exit pf store key g (Some e)) (\<lambda>suppress. if suppress then ret PNone else raise e) w')"

definition guarded_work ::
    "pyval \<Rightarrow> (('s, 'u) outside, pyval) eff \<Rightarrow> guard \<Rightarrow> (('s, 'u) runtime, pyval \<times> pyval) eff" where
  "guarded_work request work g =
     (if already_processed g then ret (previous_result g, guard_result g)
      else bind_eff (ext_call (EvHandle request) work) (\<lambda>result. ret (result, result)))"

subsection \<open>The decorator\<close>

type_synonym kwargs = "(string, pyval) dict"

definition call_args :: "pyval list \<Rightarrow> kwargs \<Rightarrow> pyval" where
  "call_args args kwargs = PList [PList args, PDict kwargs]"

definition em_dash :: string where
  "em_dash = [CHR 0xE2, CHR 0x80, CHR 0x94]"

definition idempotency_key ::
    "(pyval \<Rightarrow> string) \<Rightarrow> (pyval list \<Rightarrow> kwargs \<Rightarrow> string res) option \<Rightarrow> pyval list \<Rightarrow> kwargs \<Rightarrow> string res" where
  "idempotency_key rp key_fn args kwargs = (case key_fn of
       Some f \<Rightarrow> f args kwargs
     | None \<Rightarrow> (case args of
           a # _ \<Rightarrow> Inr (py_str rp a)
         | [] \<Rightarrow> Inl (Exc ''ValueError'' (''@idempotent: cannot derive idempotency key '' @ em_dash
           @ '' supply key_fn or pass the key as the first positional argument''))))"

text \<open>\<open>raise last_exc\<close>; raising \<open>None\<close> is a \<open>TypeError\<close>.\<close>

definition raise_last :: "exn option \<Rightarrow> exn" where
  "raise_last last_exc = (case last_exc of
       Some e \<Rightarrow> e | None \<Rightarrow> Exc ''TypeError'' ''exceptions must derive from BaseException'')"

function idempotent_loop ::
    "('s, 'u) platform \<Rightarrow> 's store_ops \<Rightarrow> DeduplicationConfig \<Rightarrow> string \<Rightarrow> pyval \<Rightarrow> (('s, 'u) outside, pyval) eff
     \<Rightarrow> int \<Rightarrow> exn option \<Rightarrow> (('s, 'u) runtime, pyval) eff" where
  "idempotent_loop pf store cfg key call func attempts last_exc =
     (if attempts \<le> max_retries cfg then
        bind_eff (catch_exc (ext_call (EvHandle call) func)) (\<lambda>outcome.
          case outcome of
            Inl exc \<Rightarrow>
              bind_eff (store_call pf (EvFailed key (exc_str exc) attempts)
                  (op_mark_failed store key (exc_str exc) attempts)) (\<lambda>_.
              if attempts < max_retries cfg then
                bind_eff (let backoff = retry_backoff_ms cfg * attempts
                          in ext_call (EvSleep backoff) (pf_sleep pf backoff)) (\<lambda>_.
                bind_eff (store_call pf (EvClaim key) (op_claim store key)) (\<lambda>reclaimed.
                if \<not> reclaimed then raise (raise_last (Some exc))
                else idempotent_loop pf store cfg key call func (attempts + 1) (Some exc)))
              else idempotent_loop pf store cfg key call func (attempts + 1) (Some exc))
          | Inr result \<Rightarrow>
              bind_eff (try_except (store_call pf (EvCompleted key result) (op_mark_completed store key result))
                 (\<lambda>_. ret ())) (\<lambda>_.
              ret result))
      else raise (raise_last last_exc))"
  by pat_completeness auto
termination
  by (relation "measure (\<lambda>(pf, store, cfg, key, call, func, attempts, last_exc).
       nat (max_retries cfg + 1 - attempts))") auto

declare idempotent_loop.simps [simp del]

definition idempotent_call ::
    "('s, 'u) platform \<Rightarrow> 's store_ops \<Rightarrow> (pyval list \<Rightarrow> kwargs \<Rightarrow> string res) option \<Rightarrow> DeduplicationConfig option
     \<Rightarrow> (pyval list \<Rightarrow> kwargs \<Rightarrow> (('s, 'u) outside, pyval) eff) \<Rightarrow> pyval list \<Rightarrow> kwargs
     \<Rightarrow> (('s, 'u) runtime, pyval) eff" where
  "idempotent_call pf store key_fn config func args kwargs =
     (case idempotency_key (pf_repr pf) key_fn args kwargs of
        Inl e \<Rightarrow> raise e
      | Inr key \<Rightarrow>
          bind_eff (store_call pf (EvStatus key) (op_get_status store key)) (\<lambda>existing.
          if completed_status existing then ret (ps_result (the existing))
          else
            bind_eff (store_call pf (EvClaim key) (op_claim store key)) (\<lambda>claimed.
            if \<not> claimed then ret PNone
            else idempotent_loop pf store (case config of Some cfg \<Rightarrow> cfg | None \<Rightarrow> default_config) key
                   (call_args args kwargs) (func args kwargs) 1 None)))"

end
