(* ===== verification/Guard_Props.thy ===== *)
theory Guard_Props
  imports Guard Memory_Store
begin

section \<open>What the guard and the decorator guarantee\<close>

text \<open>
  \<open>idem\<close> is the protocol of the decorator as an automaton over the calls of one invocation, in the manner of
  \<open>Lifecycle\<close>: \<open>Asked\<close> before the status is read, \<open>Known v\<close> a completed message, \<open>Open\<close> and \<open>Refused\<close> around the
  claim, \<open>Turn k\<close> before attempt \<open>k\<close>, \<open>Threw\<close>, \<open>Marked\<close>, \<open>Rested\<close> after its failure, \<open>GaveUp\<close> when no attempt is left,
  \<open>Got v\<close> and \<open>Stored v\<close> after success, \<open>Broken e\<close> when a call raised \<open>e\<close>. \<open>idem_result\<close> gives the answer for each.
\<close>

datatype idem_phase =
    Asked | Known pyval | Open | Refused
  | Turn int | Threw int exn | Marked int exn | Rested int exn | GaveUp "exn option"
  | Got pyval | Stored pyval | Broken exn

definition turn :: "DeduplicationConfig \<Rightarrow> int \<Rightarrow> exn option \<Rightarrow> idem_phase" where
  "turn cfg k prev = (if k \<le> max_retries cfg then Turn k else GaveUp prev)"

fun or_broken :: "('a \<Rightarrow> idem_phase) \<Rightarrow> 'a res \<Rightarrow> idem_phase option" where
  "or_broken f (Inr x) = Some (f x)"
| "or_broken f (Inl e) = Some (Broken e)"

definition idem :: "DeduplicationConfig \<Rightarrow> string \<Rightarrow> pyval \<Rightarrow> idem_phase \<Rightarrow> event \<Rightarrow> idem_phase option" where
  "idem cfg key call q ev = (case (q, ev) of
       (Asked, EvStatus m x) \<Rightarrow> if m \<noteq> key then None
          else or_broken (\<lambda>p. if completed_status p then Known (ps_result (the p)) else Open) x
     | (Open, EvClaim m x) \<Rightarrow> if m \<noteq> key then None
          else or_broken (\<lambda>won. if won then turn cfg 1 None else Refused) x
     | (Turn k, EvHandle a x) \<Rightarrow> if a \<noteq> call then None else (case x of
            Inr v \<Rightarrow> Some (Got v)
          | Inl Cancelled \<Rightarrow> Some (Broken Cancelled)
          | Inl e \<Rightarrow> Some (Threw k e))
     | (Threw k e, EvFailed m s n x) \<Rightarrow> if m \<noteq> key \<or> s \<noteq> exc_str e \<or> n \<noteq> k then None
          else or_broken (\<lambda>_. if k < max_retries cfg then Marked k e else GaveUp (Some e)) x
     | (Marked k e, EvSleep d x) \<Rightarrow> if d \<noteq> retry_backoff_ms cfg * k then None else or_broken (\<lambda>_. Rested k e) x
     | (Rested k e, EvClaim m x) \<Rightarrow> if m \<noteq> key then None
          else or_broken (\<lambda>won. if won then turn cfg (k + 1) (Some e) else GaveUp (Some e)) x
     | (Got v, EvCompleted m v' x) \<Rightarrow> if m \<noteq> key \<or> v' \<noteq> v then None
          else Some (if x = Inl Cancelled then Broken Cancelled else Stored v)
     | _ \<Rightarrow> None)"

fun idem_result :: "idem_phase \<Rightarrow> pyval res option" where
  "idem_result (Known v) = Some (Inr v)"
| "idem_result Refused = Some (Inr PNone)"
| "idem_result (GaveUp prev) = Some (Inl (raise_last prev))"
| "idem_result (Stored v) = Some (Inr v)"
| "idem_result (Broken e) = Some (Inl e)"
| "idem_result _ = None"

abbreviation always :: "('s, 'u) runtime \<Rightarrow> bool" where
  "always \<equiv> \<lambda>_. True"

lemma stable_always: "stable always"
  by (simp add: stable_def)

lemmas idem_calls = tracks_ext_call [OF stable_always] tracks_store_call [OF stable_always]

text \<open>What a call that leads to \<open>f\<close> of its answer leaves.\<close>

abbreviation leads :: "('a \<Rightarrow> idem_phase) \<Rightarrow> 'a res \<Rightarrow> idem_phase \<Rightarrow> bool" where
  "leads f x q \<equiv> (case x of Inr a \<Rightarrow> q = f a | Inl e \<Rightarrow> q = Broken e)"

lemma or_broken_leads: "\<exists>q. or_broken f x = Some q \<and> leads f x q"
  by (cases x) auto

abbreviation idem_done :: "pyval res \<Rightarrow> idem_phase \<Rightarrow> bool" where
  "idem_done x q \<equiv> idem_result q = Some x"

lemma tracks_idem_call:
  assumes "\<And>x. idem cfg key call q (ev x) = or_broken f x"
  shows "tracks always (idem cfg key call) q (ext_call ev g) (leads f)"
    "tracks always (idem cfg key call) q (store_call pf ev h) (leads f)"
  by (rule idem_calls; simp add: assms or_broken_leads)+

lemma tracks_idem_bind:
  assumes "tracks always (idem cfg key call) q m (leads f)"
    and "\<And>x. tracks always (idem cfg key call) (f x) (k x) idem_done"
  shows "tracks always (idem cfg key call) q (bind_eff m k) idem_done"
  by (rule tracks_bind [OF assms(1)]) (use assms(2) in auto)

lemma tracks_store_result:
  "tracks always (idem cfg key call) (Got v)
     (bind_eff (try_except (store_call pf (EvCompleted key v) g) (\<lambda>_. ret ())) (\<lambda>_. ret v)) idem_done"
proof -
  have "tracks always (idem cfg key call) (Got v) (store_call pf (EvCompleted key v) g)
      (\<lambda>x q. q = (if x = Inl Cancelled then Broken Cancelled else Stored v))"
    by (rule idem_calls) (simp add: idem_def)
  then have "tracks always (idem cfg key call) (Got v) (catch_exc (store_call pf (EvCompleted key v) g))
      (\<lambda>x q. case x of Inr y \<Rightarrow> q = Stored v | Inl e \<Rightarrow> q = Broken e)"
    by (rule tracks_catch_exc) auto
  then have "tracks always (idem cfg key call) (Got v)
      (try_except (store_call pf (EvCompleted key v) g) (\<lambda>_. ret ())) (leads (\<lambda>_. Stored v))"
    unfolding try_except_catch by (rule tracks_bind) (auto split: sum.splits intro: tracks_ret)
  then show ?thesis by (rule tracks_idem_bind) (simp add: tracks_ret)
qed

text \<open>What follows an attempt that raised, when \<open>retry\<close> is the rest of the loop.\<close>

lemma tracks_idem_failure:
  assumes again: "tracks always (idem cfg key call) (turn cfg (k + 1) (Some e)) retry idem_done"
  shows "tracks always (idem cfg key call) (Threw k e)
      (bind_eff (store_call pf (EvFailed key (exc_str e) k) (op_mark_failed store key (exc_str e) k)) (\<lambda>_.
        if k < max_retries cfg then
          bind_eff (ext_call (EvSleep (retry_backoff_ms cfg * k)) (pf_sleep pf (retry_backoff_ms cfg * k))) (\<lambda>_.
          bind_eff (store_call pf (EvClaim key) (op_claim store key)) (\<lambda>reclaimed.
          if \<not> reclaimed then raise (raise_last (Some e)) else retry))
        else retry)) idem_done"
  (is "tracks always ?L _ _ _")
proof (rule tracks_idem_bind [where f = "\<lambda>_. if k < max_retries cfg then Marked k e else GaveUp (Some e)"])
  show "tracks always ?L (Threw k e) (store_call pf (EvFailed key (exc_str e) k) (op_mark_failed store key (exc_str e) k))
      (leads (\<lambda>_. if k < max_retries cfg then Marked k e else GaveUp (Some e)))"
    by (rule tracks_idem_call) (simp add: idem_def)
  have reclaim: "tracks always ?L (Rested k e) (bind_eff (store_call pf (EvClaim key) (op_claim store key)) (\<lambda>reclaimed.
      if \<not> reclaimed then raise (raise_last (Some e)) else retry)) idem_done"
    by (rule tracks_idem_bind [OF tracks_idem_call(2) [where f = "\<lambda>won. if won then turn cfg (k + 1) (Some e) else GaveUp (Some e)"]])
       (use again in \<open>auto simp: idem_def tracks_raise\<close>)
  have "tracks always ?L (Marked k e)
      (bind_eff (ext_call (EvSleep (retry_backoff_ms cfg * k)) (pf_sleep pf (retry_backoff_ms cfg * k))) (\<lambda>_.
        bind_eff (store_call pf (EvClaim key) (op_claim store key)) (\<lambda>reclaimed.
        if \<not> reclaimed then raise (raise_last (Some e)) else retry))) idem_done"
    by (rule tracks_idem_bind [OF tracks_idem_call(1) [where f = "\<lambda>_. Rested k e"]])
       (use reclaim in \<open>simp_all add: idem_def\<close>)
  with again show "tracks always ?L (if k < max_retries cfg then Marked k e else GaveUp (Some e))
      (if k < max_retries cfg then
        bind_eff (ext_call (EvSleep (retry_backoff_ms cfg * k)) (pf_sleep pf (retry_backoff_ms cfg * k))) (\<lambda>_.
        bind_eff (store_call pf (EvClaim key) (op_claim store key)) (\<lambda>reclaimed.
        if \<not> reclaimed then raise (raise_last (Some e)) else retry))
      else retry) idem_done"
    by (cases "k < max_retries cfg") (simp_all add: turn_def)
qed

lemma tracks_idempotent_loop:
  "tracks always (idem cfg key call) (turn cfg k prev) (idempotent_loop pf store cfg key call func k prev) idem_done"
proof (induction pf store cfg key call func k prev rule: idempotent_loop.induct)
  case (1 pf store cfg key call func k prev)
  let ?L = "idem cfg key call"
  show ?case
  proof (cases "k \<le> max_retries cfg")
    case False
    then show ?thesis
      by (simp add: idempotent_loop.simps [of pf store cfg key call func k] turn_def tracks_raise)
  next
    case True
    have run: "tracks always ?L (Turn k) (catch_exc (ext_call (EvHandle call) func))
        (\<lambda>x q. case x of Inr (Inr v) \<Rightarrow> q = Got v | Inr (Inl e) \<Rightarrow> q = Threw k e | Inl e \<Rightarrow> q = Broken e)"
    proof (rule tracks_catch_exc)
      show "tracks always ?L (Turn k) (ext_call (EvHandle call) func)
          (\<lambda>x q. case x of Inr v \<Rightarrow> q = Got v | Inl e \<Rightarrow> q = (if e = Cancelled then Broken e else Threw k e))"
        by (rule idem_calls) (auto simp: idem_def split: sum.splits exn.splits)
    qed auto
    have again: "tracks always ?L (turn cfg (k + 1) (Some e))
        (idempotent_loop pf store cfg key call func (k + 1) (Some e)) idem_done" for e
      by (cases "k < max_retries cfg")
         (use 1(1) [OF True] 1(2) [OF True] in \<open>simp_all add: turn_def tracks_raise idempotent_loop.simps [where attempts = "k + 1"]\<close>)
    note fail = tracks_idem_failure [OF again]
    show ?thesis
      unfolding idempotent_loop.simps [of pf store cfg key call func k] turn_def Let_def
      using True fail tracks_store_result
      by (simp only: if_True, intro tracks_bind [OF run]) (auto split: sum.splits)
  qed
qed

lemma tracks_idempotent_call:
  assumes "idempotency_key (pf_repr pf) key_fn args kwargs = Inr key"
  shows "tracks always (idem (case config of Some cfg \<Rightarrow> cfg | None \<Rightarrow> default_config) key (call_args args kwargs)) Asked
     (idempotent_call pf store key_fn config func args kwargs) idem_done"
proof -
  let ?cfg = "case config of Some cfg \<Rightarrow> cfg | None \<Rightarrow> default_config"
  let ?L = "idem ?cfg key (call_args args kwargs)"
  have claim: "tracks always ?L Open (bind_eff (store_call pf (EvClaim key) (op_claim store key)) (\<lambda>claimed.
      if \<not> claimed then ret PNone
      else idempotent_loop pf store ?cfg key (call_args args kwargs) (func args kwargs) 1 None)) idem_done"
    by (rule tracks_idem_bind [OF tracks_idem_call(2) [where f = "\<lambda>won. if won then turn ?cfg 1 None else Refused"]])
       (auto simp: idem_def tracks_ret tracks_idempotent_loop)
  show ?thesis
    unfolding idempotent_call_def assms sum.case
    by (rule tracks_idem_bind [OF tracks_idem_call(2) [where f = "\<lambda>p. if completed_status p then Known (ps_result (the p)) else Open"]])
       (use claim in \<open>auto simp: idem_def tracks_ret\<close>)
qed

text \<open>An example: the function raises in its first \<open>n\<close> runs.\<close>

definition shaky :: "nat \<Rightarrow> pyval list \<Rightarrow> kwargs \<Rightarrow> (('s, nat) outside, pyval) eff" where
  "shaky n args kwargs = (\<lambda>(t, s, u).
     if u < n then (Inl (Exc ''ValueError'' ''boom''), (t, s, u + 1)) else (Inr (PInt 7), (t, s, u)))"

definition shop :: "(mem_state, nat) runtime" where
  "shop = \<lparr>rt_clock = 0, rt_store = mem_init, rt_ext = 0, rt_trace = []\<rparr>"

abbreviation shop_call :: "DeduplicationConfig \<Rightarrow> nat \<Rightarrow> pyval res \<times> (mem_state, nat) runtime" where
  "shop_call cfg n \<equiv> idempotent_call (calm (\<lambda>_. [])) (mem_ops cfg) None (Some cfg) (shaky n) [PStr ''m''] [] shop"

lemma shop_key: "idempotency_key rp None [PStr ''m''] kwargs = Inr ''m''"
  by (simp add: idempotency_key_def py_str_def)

lemmas shop_simps = idempotent_call_def shop_key idempotent_loop.simps store_call_def ext_call_def eff_simps
  log_event_def set_outside_def outside_def calm_def shaky_def shop_def default_config_def mem_ops_def
  mem_defs mem_init_def lease_end_def is_failed_def calls_def completed_status_def raise_last_def

lemma shop_retry:
  "fst (shop_call default_config 1) = Inr (PInt 7)"
  "calls shop (snd (shop_call default_config 1)) =
     [EvStatus ''m'' (Inr None), EvClaim ''m'' (Inr True),
      EvHandle (call_args [PStr ''m''] []) (Inl (Exc ''ValueError'' ''boom'')),
      EvFailed ''m'' ''boom'' 1 (Inr ()), EvSleep 500 (Inr ()), EvClaim ''m'' (Inr True),
      EvHandle (call_args [PStr ''m''] []) (Inr (PInt 7)), EvCompleted ''m'' (PInt 7) (Inr ())]"
  by (simp_all add: shop_simps)

subsection \<open>The decorator\<close>

lemma idem_history:
  assumes "idempotency_key (pf_repr pf) key_fn args kwargs = Inr key"
    and "idempotent_call pf store key_fn (Some cfg) func args kwargs w = (r, w')"
  obtains q where "follow (idem cfg key (call_args args kwargs)) Asked (calls w w') = Some q" "idem_result q = Some r"
proof -
  have "tracks always (idem cfg key (call_args args kwargs)) Asked
      (idempotent_call pf store key_fn (Some cfg) func args kwargs) idem_done"
    using tracks_idempotent_call [OF assms(1), of "Some cfg"] by simp
  from tracksD [OF this TrueI assms(2)] that show ?thesis by (metis calls_eq)
qed

text \<open>The example, as the theorems take it.\<close>

lemma shop_run:
  "idempotent_call (calm (\<lambda>_. [])) (mem_ops default_config) None (Some default_config) (shaky 1) [PStr ''m''] [] shop
     = (Inr (PInt 7), snd (shop_call default_config 1))"
  by (rule prod_eqI) (simp_all only: shop_retry(1) fst_conv snd_conv)

text \<open>
  C27. One invocation of a decorated function makes exactly the calls of the protocol, whatever the store, the function
  and everything else do: it reads the status, claims, runs the function, notes a failure, sleeps, claims again, and
  files the result of a success. It answers the stored result, \<open>None\<close> for a refused claim, the function's result, or
  the exception that ended it, as the protocol says.
\<close>

theorem idempotent_protocol:
  assumes "idempotency_key (pf_repr pf) key_fn args kwargs = Inr key"
    and "idempotent_call pf store key_fn (Some cfg) func args kwargs w = (r, w')"
  shows "\<exists>q. follow (idem cfg key (call_args args kwargs)) Asked (calls w w') = Some q \<and> idem_result q = Some r"
  by (rule idem_history [OF assms]) blast

theorem idempotent_protocol_witness:
  "\<exists>q. follow (idem default_config ''m'' (call_args [PStr ''m''] [])) Asked (calls shop (snd (shop_call default_config 1))) = Some q
     \<and> idem_result q = Some (Inr (PInt 7))"
  by (rule idempotent_protocol [OF shop_key shop_run])

fun idem_left :: "int \<Rightarrow> idem_phase \<Rightarrow> nat" where
  "idem_left n Asked = nat n"
| "idem_left n Open = nat n"
| "idem_left n (Turn k) = nat (n + 1 - k)"
| "idem_left n (Threw k e) = nat (n - k)"
| "idem_left n (Marked k e) = nat (n - k)"
| "idem_left n (Rested k e) = nat (n - k)"
| "idem_left n _ = 0"

definition idem_ok :: "int \<Rightarrow> idem_phase \<Rightarrow> bool" where
  "idem_ok n q \<longleftrightarrow> (case q of Turn k \<Rightarrow> k \<le> n | _ \<Rightarrow> True)"

lemma or_broken_Some: "or_broken f x = Some q \<longleftrightarrow> (case x of Inr a \<Rightarrow> q = f a | Inl e \<Rightarrow> q = Broken e)"
  by (cases x) auto

lemmas idem_cases = idem_def or_broken_Some turn_def

lemma idem_step_measure:
  "idem cfg key call q e = Some q' \<Longrightarrow> idem_ok (max_retries cfg) q \<Longrightarrow>
     idem_ok (max_retries cfg) q' \<and>
     (if is_handle e then 1 else 0) + idem_left (max_retries cfg) q' \<le> idem_left (max_retries cfg) q"
  by (auto simp: idem_ok_def idem_cases split: idem_phase.splits event.splits if_splits sum.splits exn.splits)

lemma idem_attempts_le:
  assumes "follow (idem cfg key call) Asked es = Some q"
  shows "handles es \<le> nat (max_retries cfg)"
proof -
  have "idem_ok (max_retries cfg) Asked" by (simp add: idem_ok_def)
  from follow_measure [where step = "idem cfg key call" and ok = "idem_ok (max_retries cfg)" and left = "idem_left (max_retries cfg)",
      OF idem_step_measure [of cfg key call] assms this]
  show ?thesis by simp
qed

lemma idem_into_Turn:
  "idem cfg key call q e = Some (Turn k) \<Longrightarrow> e = EvClaim key (Inr True)"
  by (auto simp: idem_cases split: idem_phase.splits event.splits if_splits sum.splits exn.splits)

lemma idem_handle:
  assumes "idem cfg key call q (EvHandle a x) = Some q'"
  obtains k where "q = Turn k" "x = Inr v \<Longrightarrow> q' = Got v"
  using assms by (auto simp: idem_cases split: idem_phase.splits if_splits sum.splits exn.splits)

text \<open>
  C28. The decorated function runs at most \<open>max_retries\<close> times in one invocation, and each run is immediately preceded by a
  claim of the key that the store granted.
\<close>

theorem idempotent_attempts:
  assumes "idempotency_key (pf_repr pf) key_fn args kwargs = Inr key"
    and "idempotent_call pf store key_fn (Some cfg) func args kwargs w = (r, w')"
  shows "handles (calls w w') \<le> nat (max_retries cfg) \<and>
    (\<forall>xs a x ys. calls w w' = xs @ EvHandle a x # ys \<longrightarrow> (\<exists>zs. xs = zs @ [EvClaim key (Inr True)]))"
proof
  obtain q where q: "follow (idem cfg key (call_args args kwargs)) Asked (calls w w') = Some q"
    using idem_history [OF assms] by blast
  show "handles (calls w w') \<le> nat (max_retries cfg)" by (rule idem_attempts_le [OF q])
  show "\<forall>xs a x ys. calls w w' = xs @ EvHandle a x # ys \<longrightarrow> (\<exists>zs. xs = zs @ [EvClaim key (Inr True)])"
  proof (intro allI impI)
    fix xs a x ys assume "calls w w' = xs @ EvHandle a x # ys"
    with q obtain q0 q1 where q0: "follow (idem cfg key (call_args args kwargs)) Asked xs = Some q0"
      "idem cfg key (call_args args kwargs) q0 (EvHandle a x) = Some q1" by (auto elim: follow_split)
    then obtain k where "q0 = Turn k" by (auto elim: idem_handle)
    with q0(1) show "\<exists>zs. xs = zs @ [EvClaim key (Inr True)]"
      by (cases rule: follow_snoc) (auto dest: idem_into_Turn)
  qed
qed

theorem idempotent_attempts_witness:
  "handles (calls shop (snd (shop_call default_config 1))) \<le> 3"
  using idempotent_attempts [OF shop_key shop_run] by (simp add: default_config_def)

lemma idem_final:
  assumes "q = Stored v \<or> q = Broken e \<or> q = Known v"
  shows "idem cfg key call q ev = None"
  using assms by (auto simp: idem_def)

text \<open>
  After the decorated function has returned a value, it is not run again in the invocation: the one call that follows
  files the value as the key's result, and the value is returned even if that call fails.
\<close>

theorem idempotent_success_final:
  assumes "idempotency_key (pf_repr pf) key_fn args kwargs = Inr key"
    and "idempotent_call pf store key_fn (Some cfg) func args kwargs w = (r, w')"
    and "calls w w' = xs @ EvHandle a (Inr v) # ys"
  shows "\<exists>x. ys = [EvCompleted key v x] \<and> r = (if x = Inl Cancelled then Inl Cancelled else Inr v)"
proof -
  let ?L = "idem cfg key (call_args args kwargs)"
  obtain q where q: "follow ?L Asked (calls w w') = Some q" "idem_result q = Some r"
    using idem_history [OF assms(1,2)] by blast
  from q(1) obtain q0 q1 where q1: "?L q0 (EvHandle a (Inr v)) = Some q1" "follow ?L q1 ys = Some q"
    unfolding assms(3) by (rule follow_split)
  from q1 have got: "follow ?L (Got v) ys = Some q" by (auto elim: idem_handle)
  show ?thesis
  proof (cases ys)
    case Nil
    with got q(2) show ?thesis by auto
  next
    case (Cons e es)
    with got obtain q2 where q2: "?L (Got v) e = Some q2" "follow ?L q2 es = Some q" by (auto split: option.splits)
    then obtain x where x: "e = EvCompleted key v x" "q2 = (if x = Inl Cancelled then Broken Cancelled else Stored v)"
      by (auto simp: idem_def split: event.splits if_splits)
    with q2(2) have "es = [] \<and> q = q2" by (cases es) (auto simp: idem_final split: if_splits)
    with Cons x q(2) show ?thesis by auto
  qed
qed

theorem idempotent_success_final_witness:
  "\<exists>x. [EvCompleted ''m'' (PInt 7) (Inr ())] = [EvCompleted ''m'' (PInt 7) x] \<and>
     fst (shop_call default_config 1) = (if x = Inl Cancelled then Inl Cancelled else Inr (PInt 7))"
proof (rule idempotent_success_final [OF shop_key shop_run, folded shop_retry(1)])
  show "calls shop (snd (shop_call default_config 1)) =
      [EvStatus ''m'' (Inr None), EvClaim ''m'' (Inr True),
       EvHandle (call_args [PStr ''m''] []) (Inl (Exc ''ValueError'' ''boom'')),
       EvFailed ''m'' ''boom'' 1 (Inr ()), EvSleep 500 (Inr ()), EvClaim ''m'' (Inr True)]
      @ EvHandle (call_args [PStr ''m''] []) (Inr (PInt 7)) # [EvCompleted ''m'' (PInt 7) (Inr ())]"
    by (simp only: shop_retry append.simps)
qed

text \<open>
  With \<open>max_retries\<close> at most zero, an invocation whose claim is granted never runs the function: it ends with a
  \<open>TypeError\<close>, because \<open>raise last_exc\<close> raises \<open>None\<close>, and leaves the claimed key behind.
\<close>

theorem idempotent_no_attempt:
  assumes "idempotency_key (pf_repr pf) key_fn args kwargs = Inr key" "max_retries cfg \<le> 0"
    and "idempotent_call pf store key_fn (Some cfg) func args kwargs w = (r, w')"
    and "EvClaim key (Inr True) \<in> set (calls w w')"
  shows "r = Inl (raise_last None) \<and> (\<exists>p. calls w w' = [EvStatus key (Inr p), EvClaim key (Inr True)])"
  using assms(3) unfolding idempotent_call_def assms(1) sum.case
proof (cases rule: bind_eff_cases)
  case (exn e)
  from store_call_trace [OF exn(1)] assms(4) show ?thesis by (simp add: calls_eq)
next
  case (ok p w1)
  have t1: "rt_trace w1 = rt_trace w @ [EvStatus key (Inr p)]" by (rule store_call_trace [OF ok(1)])
  with ok(2) assms(4) have "\<not> completed_status p" by (auto simp: calls_eq ret_def)
  with ok(2) have "bind_eff (store_call pf (EvClaim key) (op_claim store key)) (\<lambda>claimed.
      if \<not> claimed then ret PNone
      else idempotent_loop pf store (case Some cfg of Some cfg \<Rightarrow> cfg | None \<Rightarrow> default_config) key
        (call_args args kwargs) (func args kwargs) 1 None) w1 = (r, w')" by simp
  then show ?thesis
  proof (cases rule: bind_eff_cases)
    case (exn e)
    from store_call_trace [OF exn(1)] t1 assms(4) show ?thesis by (simp add: calls_eq)
  next
    case (ok b w2)
    have t2: "rt_trace w2 = rt_trace w @ [EvStatus key (Inr p), EvClaim key (Inr b)]"
      using store_call_trace [OF ok(1)] t1 by simp
    show ?thesis
    proof (cases b)
      case True
      with ok(2) assms(2) have "r = Inl (raise_last None)" "w' = w2"
        by (simp_all add: idempotent_loop.simps raise_def)
      with t2 True show ?thesis by (simp add: calls_eq)
    next
      case False
      with ok(2) t2 assms(4) show ?thesis by (simp add: calls_eq ret_def)
    qed
  qed
qed

definition hopeless :: DeduplicationConfig where
  "hopeless = default_config\<lparr>max_retries := 0\<rparr>"

theorem idempotent_no_attempt_witness: "fst (shop_call hopeless 0) = Inl (raise_last None)"
proof -
  have "EvClaim ''m'' (Inr True) \<in> set (calls shop (snd (shop_call hopeless 0)))"
    by (simp add: shop_simps hopeless_def)
  from idempotent_no_attempt [OF shop_key _ surjective_pairing this] show ?thesis
    by (simp add: hopeless_def)
qed

subsection \<open>The context manager\<close>

text \<open>
  The runs of the documented use of a guard: what is called, and what leaves the \<open>async with\<close> statement.
\<close>

inductive guard_run :: "string \<Rightarrow> pyval \<Rightarrow> event list \<Rightarrow> pyval res \<Rightarrow> bool" for key request where
  unread: "guard_run key request [EvStatus key (Inl e)] (Inl e)"
| known: "completed_status (Some p) \<Longrightarrow> guard_run key request [EvStatus key (Inr (Some p))] (Inr (ps_result p))"
| unclaimed: "\<not> completed_status p \<Longrightarrow>
    guard_run key request [EvStatus key (Inr p), EvClaim key (Inl e)] (Inl e)"
| refused: "\<not> completed_status p \<Longrightarrow>
    guard_run key request [EvStatus key (Inr p), EvClaim key (Inr False)] (Inr PNone)"
| worked: "\<not> completed_status p \<Longrightarrow> guard_run key request
    [EvStatus key (Inr p), EvClaim key (Inr True), EvHandle request (Inr v), EvCompleted key v (Inr ())] (Inr v)"
| unsaved: "\<not> completed_status p \<Longrightarrow> guard_run key request
    [EvStatus key (Inr p), EvClaim key (Inr True), EvHandle request (Inr v), EvCompleted key v (Inl e)] (Inl e)"
| failed: "\<not> completed_status p \<Longrightarrow> guard_run key request
    [EvStatus key (Inr p), EvClaim key (Inr True), EvHandle request (Inl e), EvFailed key (exc_text e) 1 (Inr ())] (Inl e)"
| unmarked: "\<not> completed_status p \<Longrightarrow> guard_run key request
    [EvStatus key (Inr p), EvClaim key (Inr True), EvHandle request (Inl e), EvFailed key (exc_text e) 1 (Inl e')] (Inl e')"

lemma guard_exit_run:
  assumes "\<not> already_processed g" "guard_exit pf store key g exc w = (x, w')"
  obtains y where "x = map_sum (\<lambda>e. e) (\<lambda>_. False) y"
    "rt_trace w' = rt_trace w @ [case exc of Some e \<Rightarrow> EvFailed key (exc_text e) 1 y | None \<Rightarrow> EvCompleted key (guard_result g) y]"
proof (rule that [of "map_sum (\<lambda>e. e) (\<lambda>_. ()) x"])
  show "x = map_sum (\<lambda>e. e) (\<lambda>_. False) (map_sum (\<lambda>e. e) (\<lambda>_. ()) x)"
    using assms by (cases exc) (auto simp: guard_exit_def Let_def ret_def elim!: bind_eff_cases)
  show "rt_trace w' = rt_trace w @ [case exc of
      Some e \<Rightarrow> EvFailed key (exc_text e) 1 (map_sum (\<lambda>e. e) (\<lambda>_. ()) x)
    | None \<Rightarrow> EvCompleted key (guard_result g) (map_sum (\<lambda>e. e) (\<lambda>_. ()) x)]"
    using assms by (cases exc) (auto simp: guard_exit_def Let_def ret_def elim!: bind_eff_cases dest!: store_call_trace)
qed

text \<open>Entering the block, and what follows a claim that was granted.\<close>

lemma guard_enter_run:
  assumes "guard_enter pf store key guard_init w = (Inr g, w1)"
  obtains p where "rt_trace w1 = rt_trace w @ [EvStatus key (Inr (Some p))]" "completed_status (Some p)"
      "g = guard_init\<lparr>already_processed := True, previous_result := ps_result p\<rparr>"
    | p b where "\<not> completed_status p" "rt_trace w1 = rt_trace w @ [EvStatus key (Inr p), EvClaim key (Inr b)]"
      "g = (if b then guard_init else guard_init\<lparr>already_processed := True\<rparr>)"
  using assms unfolding guard_enter_def
  by (fastforce simp: ret_def completed_status_def split: if_splits option.splits elim!: bind_eff_cases dest!: store_call_trace)

lemma guard_enter_raises:
  assumes "guard_enter pf store key guard_init w = (Inl e, w')"
  shows "guard_run key request (calls w w') (Inl e)"
  using assms unfolding guard_enter_def
proof (cases rule: bind_eff_cases)
  case (exn e')
  then show ?thesis by (auto dest!: store_call_trace simp: calls_eq intro: guard_run.unread)
next
  case (ok p w1)
  from store_call_trace [OF ok(1)] ok(2) show ?thesis
    by (auto simp: ret_def calls_eq split: if_splits elim!: bind_eff_cases dest!: store_call_trace intro: guard_run.unclaimed)
qed

text \<open>The rest of the statement after \<open>__aenter__\<close>.\<close>

abbreviation guard_rest ::
    "('s, 'u) platform \<Rightarrow> 's store_ops \<Rightarrow> string \<Rightarrow> pyval \<Rightarrow> (('s, 'u) outside, pyval) eff \<Rightarrow> guard \<Rightarrow> (('s, 'u) runtime, pyval) eff" where
  "guard_rest pf store key request work g w \<equiv> (case guarded_work request work g w of
       (Inr (x, v), w') \<Rightarrow> bind_eff (guard_exit pf store key (g\<lparr>guard_result := v\<rparr>) None) (\<lambda>_. ret x) w'
     | (Inl e, w') \<Rightarrow> bind_eff (guard_exit pf store key g (Some e)) (\<lambda>suppress. if suppress then ret PNone else raise e) w')"

lemma guard_claimed_run:
  assumes "\<not> completed_status p" "rt_trace w1 = rt_trace w @ [EvStatus key (Inr p), EvClaim key (Inr True)]"
    and "guard_rest pf store key request work guard_init w1 = (r, w')"
  shows "guard_run key request (calls w w') r"
proof -
  obtain x w2 where work: "ext_call (EvHandle request) work w1 = (x, w2)"
    by (cases "ext_call (EvHandle request) work w1")
  have t2: "rt_trace w2 = rt_trace w @ [EvStatus key (Inr p), EvClaim key (Inr True), EvHandle request x]"
    using ext_call_trace [OF work] assms(2) by simp
  have g: "\<not> already_processed guard_init" "\<not> already_processed (guard_init\<lparr>guard_result := v\<rparr>)" for v
    by (simp_all add: guard_init_def)
  show ?thesis
  proof (cases x)
    case (Inr v)
    with assms(3) work g have "bind_eff (guard_exit pf store key (guard_init\<lparr>guard_result := v\<rparr>) None) (\<lambda>_. ret v) w2 = (r, w')"
      by (simp add: guarded_work_def bind_eff_def ret_def)
    then obtain z where z: "guard_exit pf store key (guard_init\<lparr>guard_result := v\<rparr>) None w2 = (z, w')"
      "r = map_sum (\<lambda>e. e) (\<lambda>_. v) z" by (cases rule: bind_eff_cases) (auto simp: ret_def)
    from g(2) z(1) obtain y where "z = map_sum (\<lambda>e. e) (\<lambda>_. False) y"
      "rt_trace w' = rt_trace w2 @ [EvCompleted key v y]" by (rule guard_exit_run) simp
    with t2 z(2) Inr assms(1) show ?thesis
      by (cases y) (auto simp: calls_eq intro: guard_run.worked guard_run.unsaved)
  next
    case (Inl e)
    with assms(3) work g have "bind_eff (guard_exit pf store key guard_init (Some e)) (\<lambda>suppress. if suppress then ret PNone else raise e) w2 = (r, w')"
      by (simp add: guarded_work_def bind_eff_def)
    then obtain z w3 where z: "guard_exit pf store key guard_init (Some e) w2 = (z, w3)"
      "case z of Inl e' \<Rightarrow> r = Inl e' \<and> w' = w3 | Inr s \<Rightarrow> (if s then ret PNone else raise e) w3 = (r, w')"
      by (cases rule: bind_eff_cases) auto
    from g(1) z(1) obtain y where y: "z = map_sum (\<lambda>e. e) (\<lambda>_. False) y"
      "rt_trace w3 = rt_trace w2 @ [EvFailed key (exc_text e) 1 y]" by (rule guard_exit_run) simp
    with z(2) have "w' = w3" "r = (case y of Inl e' \<Rightarrow> Inl e' | Inr u \<Rightarrow> Inl e)"
      by (cases y; simp add: raise_def)+
    with t2 y(2) Inl assms(1) show ?thesis
      by (cases y) (auto simp: calls_eq intro: guard_run.failed guard_run.unmarked)
  qed
qed

text \<open>
  C29. A guard used as its documentation shows makes the calls of \<open>guard_run\<close> and nothing else: the work runs at most once,
  only after a claim that the store granted; its result is filed, its exception is noted as a first failure and goes on; a
  completed key answers the stored result, a refused claim no result. An error of the store while a result is filed or a
  failure is noted leaves the statement in place of the outcome of the work.
\<close>

theorem guard_runs:
  assumes "with_guard pf store key (guarded_work request work) w = (r, w')"
  shows "guard_run key request (calls w w') r"
  using assms unfolding with_guard_def
proof (cases rule: bind_eff_cases)
  case (exn e)
  then show ?thesis by (simp add: guard_enter_raises)
next
  case (ok g w1)
  from ok(1) show ?thesis
  proof (cases rule: guard_enter_run)
    case (1 p)
    with ok(2) have "r = Inr (ps_result p)" "w' = w1" by (simp_all add: guarded_work_def guard_exit_def ret_def)
    with 1 show ?thesis by (simp add: calls_eq guard_run.known)
  next
    case (2 p b)
    show ?thesis
    proof (cases b)
      case False
      with 2 ok(2) have "r = Inr PNone" "w' = w1"
        by (simp_all add: guarded_work_def guard_exit_def ret_def guard_init_def)
      with 2 False show ?thesis by (simp add: calls_eq guard_run.refused)
    next
      case True
      with 2 have g: "g = guard_init" by simp
      show ?thesis by (rule guard_claimed_run [OF 2(1) _ ok(2) [unfolded g]]) (use 2 True in simp)
    qed
  qed
qed

abbreviation shop_guard :: "nat \<Rightarrow> pyval res \<times> (mem_state, nat) runtime" where
  "shop_guard n \<equiv> with_guard (calm (\<lambda>_. [])) (mem_ops default_config) ''m'' (guarded_work (PStr ''m'') (shaky n [] [])) shop"

theorem guard_runs_witness: "guard_run ''m'' (PStr ''m'') (calls shop (snd (shop_guard 0))) (fst (shop_guard 0))"
  by (rule guard_runs [OF surjective_pairing])

text \<open>
  A guard records every failure as the first one: whatever attempts the key has behind it, a failing block leaves it
  \<open>FAILED\<close> with one attempt, so with retries allowed (\<open>max_retries\<close> above one) the next claim is granted and
  \<open>max_retries\<close> never ends the retrying of a key through guards.
\<close>

theorem guard_forgets_attempts:
  assumes "guard_exit pf (mem_ops cfg) key g (Some e) w = (r, w')" "\<not> already_processed g"
    and "pf_lag pf (outside w) = (t, st, u)" "map_of st key = Some p" "retry_failed cfg" "1 < max_retries cfg"
  shows "r = Inr False \<and> fst (mem_claim cfg key later (rt_store w')) = Inr True \<and>
    (\<exists>p'. map_of (rt_store w') key = Some p' \<and> ps_status p' = FAILED \<and> ps_attempts p' = 1)"
  using assms
  by (auto simp: guard_exit_def Let_def bind_eff_def store_call_def mem_mark_failed_def ret_def log_event_def set_outside_def
      dict_simps mem_claim_eq entry_of_def)

theorem guard_forgets_attempts_witness:
  "\<exists>w'. guard_exit (calm (\<lambda>_. [])) (mem_ops default_config) ''m'' guard_init (Some Cancelled)
       (shop\<lparr>rt_store := [(''m'', (claimed_rec default_config ''m'' 0 None)\<lparr>ps_attempts := 99\<rparr>)]\<rparr>) = (Inr False, w')
     \<and> fst (mem_claim default_config ''m'' 5 (rt_store w')) = Inr True"
proof -
  let ?p = "(claimed_rec default_config ''m'' 0 None)\<lparr>ps_attempts := 99\<rparr>"
  let ?w = "shop\<lparr>rt_store := [(''m'', ?p)]\<rparr>"
  obtain r w' where run: "guard_exit (calm (\<lambda>_. [])) (mem_ops default_config) ''m'' guard_init (Some Cancelled) ?w = (r, w')"
    by (cases "guard_exit (calm (\<lambda>_. [])) (mem_ops default_config) ''m'' guard_init (Some Cancelled) ?w")
  have "pf_lag (calm (\<lambda>_. [])) (outside ?w) = (1, [(''m'', ?p)], 0)"
    by (simp add: calm_def outside_def shop_def)
  from guard_forgets_attempts [OF run _ this, of ?p 5] run show ?thesis
    by (simp add: guard_init_def default_config_def)
qed

end
