(* ===== verification/Outbox.thy ===== *)
theory Outbox
  imports Json
begin

section \<open>The transactional outbox\<close>

text \<open>
  \<open>src/idempotency/outbox.py\<close>: the entry, the writer and the relay, with the SQL statements they send to the
  table of \<open>scripts/init_db.sql\<close>.
  \<^item> \<open>outbox_db\<close> is the table and its sequence; \<open>apply_statement\<close> is the effect of each statement on it.
    \<open>'u tx\<close> is a database session inside a transaction: the table as the transaction sees it, whether an error has
    aborted the transaction (then every further statement is refused), and the outside.
  \<^item> \<open>outbox_env\<close> collects what is not the module's own: the producer, which statements fail and how, which rows
    other transactions have locked, the normal form that the \<open>JSONB\<close> column gives a text, the clock, and \<open>asyncio.sleep\<close>.
  \<^item> Rows that a relay has read are locked until its transaction ends, so nobody else changes them meanwhile; a batch is
    run on the table as it was when the transaction read it.
  \<^item> Two logs, which no definition reads: \<open>tx_tried\<close> and \<open>rw_tried\<close> list every call of \<open>send_and_wait\<close> with its message and
    how it ended, \<open>tx_sent\<close> and \<open>rw_sent\<close> the messages of the calls that returned, which the broker has acknowledged.
\<close>

subsection \<open>The table\<close>

datatype outbox_status = Pending | Published | Undelivered

text \<open>The texts \<open>PENDING\<close>, \<open>PUBLISHED\<close> and \<open>FAILED\<close> of the column \<open>status\<close>.\<close>

record outbox_row =
  row_id :: int
  row_topic :: string
  row_message_id :: string
  row_payload :: string
  row_status :: outbox_status
  row_created_at :: int
  row_published_at :: "int option"

record outbox_db =
  db_rows :: "outbox_row list"
  db_seq :: int

record OutboxEntry =
  oe_topic :: string
  oe_message_id :: string
  oe_payload :: "(string, pyval) dict"
  oe_created_at :: int

definition outbox_entry :: "int \<Rightarrow> string \<Rightarrow> string \<Rightarrow> (string, pyval) dict \<Rightarrow> int option \<Rightarrow> OutboxEntry" where
  "outbox_entry now topic message_id payload created_at =
     \<lparr>oe_topic = topic, oe_message_id = message_id, oe_payload = payload,
      oe_created_at = (case created_at of Some t \<Rightarrow> t | None \<Rightarrow> now)\<rparr>"

datatype statement =
    InsertRow string string string int
  | FetchPending nat
  | MarkPublished int int
  | MarkFailed int

record 'u outbox_env =
  ob_send :: "string \<Rightarrow> string \<Rightarrow> string \<Rightarrow> ('u, unit) eff"
  ob_begin :: "('u, unit) eff"
  ob_exec :: "statement \<Rightarrow> ('u, unit) eff"
  ob_locked :: "'u \<Rightarrow> int \<Rightarrow> bool"
  ob_commit :: "'u \<Rightarrow> (bool \<times> exn) option \<times> 'u"
  ob_rollback :: "('u, unit) eff"
  ob_sleep :: "('u, unit) eff"
  ob_clock :: "'u \<Rightarrow> int"
  ob_jsonb :: "string \<Rightarrow> string"
  ob_repr :: "pyval \<Rightarrow> string"

text \<open>
  \<open>_INSERT_SQL\<close>, with its \<open>ON CONFLICT (message_id) DO NOTHING\<close>, which has already drawn from the sequence;
  \<open>_MARK_PUBLISHED_SQL\<close> and \<open>_MARK_FAILED_SQL\<close>.
\<close>

definition insert_row :: "(string \<Rightarrow> string) \<Rightarrow> string \<Rightarrow> string \<Rightarrow> string \<Rightarrow> int \<Rightarrow> outbox_db \<Rightarrow> outbox_db" where
  "insert_row jsonb topic message_id payload created_at db =
     (let i = db_seq db + 1 in
      if message_id \<in> set (map row_message_id (db_rows db)) then db\<lparr>db_seq := i\<rparr>
      else \<lparr>db_rows = db_rows db @
              [\<lparr>row_id = i, row_topic = topic, row_message_id = message_id, row_payload = jsonb payload,
                row_status = Pending, row_created_at = created_at, row_published_at = None\<rparr>],
            db_seq = i\<rparr>)"

definition set_row :: "int \<Rightarrow> (outbox_row \<Rightarrow> outbox_row) \<Rightarrow> outbox_db \<Rightarrow> outbox_db" where
  "set_row i f db = db\<lparr>db_rows := map (\<lambda>r. if row_id r = i then f r else r) (db_rows db)\<rparr>"

definition apply_statement :: "'u outbox_env \<Rightarrow> statement \<Rightarrow> outbox_db \<Rightarrow> outbox_db" where
  "apply_statement env st db = (case st of
       InsertRow topic message_id payload created_at \<Rightarrow> insert_row (ob_jsonb env) topic message_id payload created_at db
     | FetchPending n \<Rightarrow> db
     | MarkPublished t i \<Rightarrow> set_row i (\<lambda>r. r\<lparr>row_status := Published, row_published_at := Some t\<rparr>) db
     | MarkFailed i \<Rightarrow> set_row i (\<lambda>r. r\<lparr>row_status := Undelivered\<rparr>) db)"

text \<open>\<open>_FETCH_SQL\<close>: the pending rows by id, without those that other transactions have locked, up to the limit.\<close>

definition fetch_pending :: "(int \<Rightarrow> bool) \<Rightarrow> nat \<Rightarrow> outbox_db \<Rightarrow> outbox_row list" where
  "fetch_pending locked n db =
     take n (filter (\<lambda>r. row_status r = Pending \<and> \<not> locked (row_id r)) (sort_key row_id (db_rows db)))"

subsection \<open>Statements inside a transaction\<close>

record 'u tx =
  tx_db :: outbox_db
  tx_aborted :: bool
  tx_outside :: 'u
  tx_sent :: "(string \<times> string \<times> string) list"
  tx_tried :: "((string \<times> string \<times> string) \<times> unit res) list"

definition InFailedSQLTransactionError :: exn where
  "InFailedSQLTransactionError = Exc ''InFailedSQLTransactionError'' []"

definition tx_execute :: "'u outbox_env \<Rightarrow> statement \<Rightarrow> ('u tx, unit) eff" where
  "tx_execute env st x =
     (if tx_aborted x then (Inl InFailedSQLTransactionError, x)
      else case ob_exec env st (tx_outside x) of
        (Inl e, u) \<Rightarrow> (Inl e, x\<lparr>tx_aborted := True, tx_outside := u\<rparr>)
      | (Inr _, u) \<Rightarrow> (Inr (), x\<lparr>tx_db := apply_statement env st (tx_db x), tx_outside := u\<rparr>))"

definition tx_send :: "'u outbox_env \<Rightarrow> string \<Rightarrow> string \<Rightarrow> string \<Rightarrow> ('u tx, unit) eff" where
  "tx_send env topic val key x = (case ob_send env topic val key (tx_outside x) of
       (Inl e, u) \<Rightarrow> (Inl e, x\<lparr>tx_outside := u, tx_tried := tx_tried x @ [((topic, val, key), Inl e)]\<rparr>)
     | (Inr _, u) \<Rightarrow> (Inr (), x\<lparr>tx_outside := u, tx_sent := tx_sent x @ [(topic, val, key)],
         tx_tried := tx_tried x @ [((topic, val, key), Inr ())]\<rparr>))"

subsection \<open>The writer\<close>

definition outbox_write :: "'u outbox_env \<Rightarrow> OutboxEntry \<Rightarrow> ('u tx, unit) eff" where
  "outbox_write env entry =
     (case json_dumps (ob_repr env) (PDict (oe_payload entry)) of
        Inl e \<Rightarrow> raise e
      | Inr payload \<Rightarrow>
          tx_execute env (InsertRow (oe_topic entry) (oe_message_id entry) payload (oe_created_at entry)))"

subsection \<open>The relay\<close>

text \<open>One row of a batch; the answer is what it adds to \<open>published\<close>.\<close>

definition relay_row :: "'u outbox_env \<Rightarrow> outbox_row \<Rightarrow> ('u tx, nat) eff" where
  "relay_row env row =
     try_except
       (bind_eff (tx_send env (row_topic row) (row_payload row) (row_message_id row)) (\<lambda>_ x.
        bind_eff (tx_execute env (MarkPublished (ob_clock env (tx_outside x)) (row_id row))) (\<lambda>_.
        ret 1) x))
       (\<lambda>exc. bind_eff (tx_execute env (MarkFailed (row_id row))) (\<lambda>_. ret 0))"

fun relay_rows :: "'u outbox_env \<Rightarrow> outbox_row list \<Rightarrow> nat \<Rightarrow> ('u tx, nat) eff" where
  "relay_rows env [] published = ret published"
| "relay_rows env (row # rows) published =
     bind_eff (relay_row env row) (\<lambda>n. relay_rows env rows (published + n))"

definition batch_body :: "'u outbox_env \<Rightarrow> nat \<Rightarrow> ('u tx, nat) eff" where
  "batch_body env batch_size x =
     bind_eff (tx_execute env (FetchPending batch_size)) (\<lambda>_.
     relay_rows env (fetch_pending (ob_locked env (tx_outside x)) batch_size (tx_db x)) 0) x"

record 'u relay_world =
  rw_db :: outbox_db
  rw_outside :: 'u
  rw_sent :: "(string \<times> string \<times> string) list"
  rw_tried :: "((string \<times> string \<times> string) \<times> unit res) list"
  rw_running :: bool

text \<open>
  \<open>async with pool.acquire() as conn, conn.transaction()\<close>: the body runs on a copy of the table, which replaces the
  table at \<open>COMMIT\<close> and is dropped when the body raises. A commit that raises may or may not have taken effect.
\<close>

definition in_transaction :: "'u outbox_env \<Rightarrow> ('u tx, 'a) eff \<Rightarrow> ('u relay_world, 'a) eff" where
  "in_transaction env body w = (case ob_begin env (rw_outside w) of
       (Inl e, u) \<Rightarrow> (Inl e, w\<lparr>rw_outside := u\<rparr>)
     | (Inr _, u) \<Rightarrow>
         (case body \<lparr>tx_db = rw_db w, tx_aborted = False, tx_outside = u, tx_sent = rw_sent w, tx_tried = rw_tried w\<rparr> of
            (Inl e, x) \<Rightarrow> (case ob_rollback env (tx_outside x) of
                (Inl e', u') \<Rightarrow> (Inl e', w\<lparr>rw_outside := u', rw_sent := tx_sent x, rw_tried := tx_tried x\<rparr>)
              | (Inr _, u') \<Rightarrow> (Inl e, w\<lparr>rw_outside := u', rw_sent := tx_sent x, rw_tried := tx_tried x\<rparr>))
          | (Inr a, x) \<Rightarrow> (case ob_commit env (tx_outside x) of
                (None, u') \<Rightarrow> (Inr a, w\<lparr>rw_db := tx_db x, rw_outside := u', rw_sent := tx_sent x, rw_tried := tx_tried x\<rparr>)
              | (Some (acted, e), u') \<Rightarrow>
                  (Inl e, w\<lparr>rw_db := (if acted then tx_db x else rw_db w), rw_outside := u', rw_sent := tx_sent x, rw_tried := tx_tried x\<rparr>))))"

definition process_batch :: "'u outbox_env \<Rightarrow> nat \<Rightarrow> ('u relay_world, nat) eff" where
  "process_batch env batch_size = in_transaction env (batch_body env batch_size)"

definition relay_sleep :: "'u outbox_env \<Rightarrow> ('u relay_world, unit) eff" where
  "relay_sleep env w = (case ob_sleep env (rw_outside w) of (r, u) \<Rightarrow> (r, w\<lparr>rw_outside := u\<rparr>))"

text \<open>
  \<open>_loop\<close>, over the rounds the relay makes: with each, whether \<open>stop()\<close> has been called by the time \<open>_running\<close> is read.
\<close>

fun relay_loop :: "'u outbox_env \<Rightarrow> nat \<Rightarrow> bool list \<Rightarrow> ('u relay_world, unit) eff" where
  "relay_loop env batch_size [] = ret ()"
| "relay_loop env batch_size (stopped # rounds) =
     bind_eff (modify (\<lambda>w. if stopped then w\<lparr>rw_running := False\<rparr> else w)) (\<lambda>_ w.
       if \<not> rw_running w then (Inr (), w)
       else bind_eff
         (try_except
            (bind_eff (process_batch env batch_size) (\<lambda>published. when_eff (published = 0) (relay_sleep env)))
            (\<lambda>exc. relay_sleep env))
         (\<lambda>_. relay_loop env batch_size rounds) w)"

definition relay_start :: "'u outbox_env \<Rightarrow> nat \<Rightarrow> bool list \<Rightarrow> ('u relay_world, unit) eff" where
  "relay_start env batch_size rounds =
     bind_eff (modify (\<lambda>w. w\<lparr>rw_running := True\<rparr>)) (\<lambda>_. relay_loop env batch_size rounds)"

definition relay_stop :: "('u relay_world, unit) eff" where
  "relay_stop = modify (\<lambda>w. w\<lparr>rw_running := False\<rparr>)"

end
