(* ===== verification/Outbox_Props.thy ===== *)
theory Outbox_Props
  imports Outbox
begin

section \<open>What the outbox guarantees\<close>

text \<open>
  First one batch: which rows it sends and how the table changes (\<open>settle_rows\<close>). Then any sequence of writers'
  transactions and batches, as the step relation \<open>outbox_step\<close>, with its invariant. Then what a relay achieves
  when nothing fails.
\<close>

definition message_of :: "outbox_row \<Rightarrow> string \<times> string \<times> string" where
  "message_of r = (row_topic r, row_payload r, row_message_id r)"

definition delivered :: "int \<Rightarrow> outbox_row \<Rightarrow> outbox_row" where
  "delivered t r = r\<lparr>row_status := Published, row_published_at := Some t\<rparr>"

definition undelivered :: "outbox_row \<Rightarrow> outbox_row" where
  "undelivered r = r\<lparr>row_status := Undelivered\<rparr>"

text \<open>What becomes of a row: the broker acknowledged it at an instant, or the attempt failed.\<close>

type_synonym verdict = "int option"

definition judge :: "verdict \<Rightarrow> outbox_row \<Rightarrow> outbox_row" where
  "judge d r = (case d of Some t \<Rightarrow> delivered t r | None \<Rightarrow> undelivered r)"

definition settle_rows :: "(int \<times> verdict) list \<Rightarrow> outbox_row list \<Rightarrow> outbox_row list" where
  "settle_rows vs rows = map (\<lambda>r. case map_of vs (row_id r) of Some d \<Rightarrow> judge d r | None \<Rightarrow> r) rows"

definition acknowledged :: "(outbox_row \<times> verdict) list \<Rightarrow> outbox_row list" where
  "acknowledged ps = map fst (filter (\<lambda>p. snd p \<noteq> None) ps)"

definition wf_outbox :: "outbox_db \<Rightarrow> bool" where
  "wf_outbox db \<longleftrightarrow> distinct (map row_id (db_rows db)) \<and> (\<forall>r \<in> set (db_rows db). row_id r \<le> db_seq db)
     \<and> distinct (map row_message_id (db_rows db))"

lemma judge_fields [simp]:
  "row_id (judge d r) = row_id r" "message_of (judge d r) = message_of r" "row_message_id (judge d r) = row_message_id r"
  by (simp_all add: judge_def delivered_def undelivered_def message_of_def split: option.splits)

lemma settle_rows_Nil [simp]: "settle_rows [] rows = rows"
  by (simp add: settle_rows_def)

lemma settle_fields [simp]:
  "map row_id (settle_rows vs rows) = map row_id rows"
  "map row_message_id (settle_rows vs rows) = map row_message_id rows"
  by (auto simp: settle_rows_def split: option.splits)

lemma settle_rows_Cons:
  "i \<notin> set (map fst vs) \<Longrightarrow>
     settle_rows ((i, d) # vs) rows = settle_rows vs (map (\<lambda>r. if row_id r = i then judge d r else r) rows)"
proof -
  assume "i \<notin> set (map fst vs)"
  then have "map_of vs i = None" by (simp add: map_of_eq_None_iff)
  then show ?thesis by (auto simp: settle_rows_def split: option.splits)
qed

lemma set_row_judge:
  "db_rows (set_row i (judge d) db) = map (\<lambda>r. if row_id r = i then judge d r else r) (db_rows db)"
  "db_seq (set_row i f db) = db_seq db"
  by (simp_all add: set_row_def)

subsection \<open>One batch\<close>

lemma apply_marks:
  "apply_statement env (MarkPublished t i) = set_row i (judge (Some t))"
  "apply_statement env (MarkFailed i) = set_row i (judge None)"
  by (rule ext, simp add: apply_statement_def set_row_def judge_def delivered_def undelivered_def)+

lemma tx_execute_cases:
  assumes "tx_execute env st x = (r, x')"
  obtains (ok) u where "r = Inr ()" "\<not> tx_aborted x" "x' = x\<lparr>tx_db := apply_statement env st (tx_db x), tx_outside := u\<rparr>"
    | (error) e u where "r = Inl e" "\<not> tx_aborted x" "x' = x\<lparr>tx_aborted := True, tx_outside := u\<rparr>"
    | (refused) e where "r = Inl e" "tx_aborted x" "x' = x"
proof (cases "tx_aborted x")
  case True
  then have "(r, x') = (Inl InFailedSQLTransactionError, x)" using assms by (simp add: tx_execute_def)
  with True show ?thesis by (intro refused) simp_all
next
  case False
  obtain y u where exec: "ob_exec env st (tx_outside x) = (y, u)" by (cases "ob_exec env st (tx_outside x)")
  show ?thesis
  proof (cases y)
    case (Inl e)
    then have "(r, x') = (Inl e, x\<lparr>tx_aborted := True, tx_outside := u\<rparr>)"
      using assms False exec by (simp add: tx_execute_def)
    with False show ?thesis by (intro error) simp_all
  next
    case (Inr z)
    then have "(r, x') = (Inr (), x\<lparr>tx_db := apply_statement env st (tx_db x), tx_outside := u\<rparr>)"
      using assms False exec by (simp add: tx_execute_def)
    with False show ?thesis by (intro ok) simp_all
  qed
qed

lemma tx_send_cases:
  assumes "tx_send env t v k x = (r, x')"
  obtains (ok) u where "r = Inr ()" "x' = x\<lparr>tx_outside := u, tx_sent := tx_sent x @ [(t, v, k)],
        tx_tried := tx_tried x @ [((t, v, k), Inr ())]\<rparr>"
    | (error) e u where "r = Inl e" "x' = x\<lparr>tx_outside := u, tx_tried := tx_tried x @ [((t, v, k), Inl e)]\<rparr>"
proof -
  obtain y u where "ob_send env t v k (tx_outside x) = (y, u)" by (cases "ob_send env t v k (tx_outside x)")
  then have "(r, x') = (case y of Inl e \<Rightarrow> (Inl e, x\<lparr>tx_outside := u, tx_tried := tx_tried x @ [((t, v, k), Inl e)]\<rparr>)
      | Inr _ \<Rightarrow> (Inr (), x\<lparr>tx_outside := u, tx_sent := tx_sent x @ [(t, v, k)],
          tx_tried := tx_tried x @ [((t, v, k), Inr ())]\<rparr>))"
    unfolding assms [symmetric] by (cases y) (simp_all add: tx_send_def)
  then show ?thesis by (cases y) (auto intro: ok error)
qed

text \<open>
  \<open>sends_of rows ds ts ts'\<close>: between the logs \<open>ts\<close> and \<open>ts'\<close> there was one call of \<open>send_and_wait\<close> for each of the rows, in their
  order and with their messages, and a row has a verdict with an instant exactly if its call returned.
\<close>

definition sends_of :: "outbox_row list \<Rightarrow> verdict list \<Rightarrow> ((string \<times> string \<times> string) \<times> unit res) list \<Rightarrow>
    ((string \<times> string \<times> string) \<times> unit res) list \<Rightarrow> bool" where
  "sends_of rows ds ts ts' \<longleftrightarrow> length ds = length rows \<and> (\<exists>ys. ts' = ts @ zip (map message_of rows) ys
     \<and> list_all2 (\<lambda>d y. d \<noteq> None \<longleftrightarrow> y = Inr ()) ds ys)"

lemma sends_of_Nil [simp]: "sends_of [] [] ts ts"
  by (simp add: sends_of_def)

lemma sends_length: "sends_of rows ds ts ts' \<Longrightarrow> length ds = length rows"
  by (simp add: sends_of_def)

lemma sends_of_Cons:
  assumes "sends_of rows ds ts1 ts'" "ts1 = ts @ [(message_of row, y)]" "d \<noteq> None \<longleftrightarrow> y = Inr ()"
  shows "sends_of (row # rows) (d # ds) ts ts'"
proof -
  from assms(1) obtain ys where "length ds = length rows" "ts' = ts1 @ zip (map message_of rows) ys"
    "list_all2 (\<lambda>d y. d \<noteq> None \<longleftrightarrow> y = Inr ()) ds ys" unfolding sends_of_def by blast
  with assms(2,3) show ?thesis unfolding sends_of_def by (intro conjI exI [of _ "y # ys"]) simp_all
qed

text \<open>A row that is dealt with is marked with its verdict, and its message counted exactly when it was acknowledged.\<close>

text \<open>The two ways through \<open>try\<close> and \<open>except\<close>.\<close>

definition mark_undelivered :: "'u outbox_env \<Rightarrow> outbox_row \<Rightarrow> ('u tx, nat) eff" where
  "mark_undelivered env row = bind_eff (tx_execute env (MarkFailed (row_id row))) (\<lambda>_. ret 0)"

lemma relay_row_eq:
  "relay_row env row x = (case tx_send env (row_topic row) (row_payload row) (row_message_id row) x of
       (Inr _, x1) \<Rightarrow> (case tx_execute env (MarkPublished (ob_clock env (tx_outside x1)) (row_id row)) x1 of
           (Inr _, x2) \<Rightarrow> (Inr 1, x2)
         | (Inl e, x2) \<Rightarrow> (if e = Cancelled then (Inl Cancelled, x2) else mark_undelivered env row x2))
     | (Inl e, x1) \<Rightarrow> (if e = Cancelled then (Inl Cancelled, x1) else mark_undelivered env row x1))"
proof -
  obtain r1 x1 where send: "tx_send env (row_topic row) (row_payload row) (row_message_id row) x = (r1, x1)"
    by (cases "tx_send env (row_topic row) (row_payload row) (row_message_id row) x")
  obtain r2 x2 where mark: "tx_execute env (MarkPublished (ob_clock env (tx_outside x1)) (row_id row)) x1 = (r2, x2)"
    by (cases "tx_execute env (MarkPublished (ob_clock env (tx_outside x1)) (row_id row)) x1")
  show ?thesis
    unfolding relay_row_def try_except_def bind_eff_def [of "tx_send _ _ _ _"] send
    by (cases r1; cases r2)
       (auto simp: bind_eff_def [of "tx_execute env (MarkPublished (ob_clock env (tx_outside x1)) (row_id row))"]
          mark ret_def mark_undelivered_def split: exn.splits)
qed

lemma mark_undelivered_ok:
  assumes "mark_undelivered env row x = (Inr n, x')"
  shows "n = 0 \<and> \<not> tx_aborted x \<and> \<not> tx_aborted x' \<and> tx_sent x' = tx_sent x \<and> tx_tried x' = tx_tried x
    \<and> tx_db x' = set_row (row_id row) (judge None) (tx_db x)"
  using assms unfolding mark_undelivered_def
  by (auto elim!: bind_eff_cases tx_execute_cases simp: ret_def apply_marks)

lemma relay_row_ok:
  assumes "relay_row env row x = (Inr n, x')" "\<not> tx_aborted x"
  obtains d y where "\<not> tx_aborted x'" "tx_db x' = set_row (row_id row) (judge d) (tx_db x)"
    "tx_sent x' = tx_sent x @ map message_of (acknowledged [(row, d)])" "n = length (acknowledged [(row, d)])"
    "tx_tried x' = tx_tried x @ [(message_of row, y)]" "d \<noteq> None \<longleftrightarrow> y = Inr ()"
proof -
  let ?send = "tx_send env (row_topic row) (row_payload row) (row_message_id row) x"
  obtain r1 x1 where send: "?send = (r1, x1)" by (cases ?send)
  from send show ?thesis
  proof (cases rule: tx_send_cases)
    case (ok u)
    let ?mark = "tx_execute env (MarkPublished (ob_clock env (tx_outside x1)) (row_id row)) x1"
    obtain r2 x2 where mark: "?mark = (r2, x2)" by (cases ?mark)
    from mark show ?thesis
    proof (cases rule: tx_execute_cases)
      case ok2: (ok u')
      have "x' = x2" "n = 1"
        using assms(1) by (simp_all add: relay_row_eq send ok(1) mark ok2(1))
      with ok ok2 assms(2) show ?thesis
        by (intro that [of "Some (ob_clock env (tx_outside x1))" "Inr ()"])
           (simp_all add: apply_marks acknowledged_def message_of_def)
    next
      case (error e u')
      then have "tx_aborted x2" by simp
      with assms(1) have False
        by (auto simp: relay_row_eq send ok(1) mark error(1) split: if_splits dest: mark_undelivered_ok)
      then show ?thesis ..
    next
      case refused
      with ok assms(2) show ?thesis by simp
    qed
  next
    case (error e u)
    then have "mark_undelivered env row x1 = (Inr n, x')"
      using assms(1) by (simp add: relay_row_eq send split: if_splits)
    from mark_undelivered_ok [OF this] error(2) show ?thesis
      by (intro that [of None "Inl e"]) (simp_all add: acknowledged_def message_of_def)
  qed
qed

lemma relay_rows_ok:
  assumes "relay_rows env rows k x = (Inr n, x')" "\<not> tx_aborted x" "distinct (map row_id rows)"
  shows "\<exists>ds. \<not> tx_aborted x' \<and> sends_of rows ds (tx_tried x) (tx_tried x')
     \<and> db_rows (tx_db x') = settle_rows (zip (map row_id rows) ds) (db_rows (tx_db x)) \<and> db_seq (tx_db x') = db_seq (tx_db x)
     \<and> tx_sent x' = tx_sent x @ map message_of (acknowledged (zip rows ds)) \<and> n = k + length (acknowledged (zip rows ds))"
  using assms
proof (induction rows arbitrary: k x)
  case Nil
  then show ?case by (auto simp: ret_def acknowledged_def intro: exI [of _ "[]"])
next
  case (Cons row rows)
  from Cons.prems(1) show ?case
    unfolding relay_rows.simps
  proof (cases rule: bind_eff_cases)
    case (ok j x1)
    from relay_row_ok [OF ok(1) Cons.prems(2)] obtain d y where d: "\<not> tx_aborted x1"
      "tx_db x1 = set_row (row_id row) (judge d) (tx_db x)"
      "tx_sent x1 = tx_sent x @ map message_of (acknowledged [(row, d)])" "j = length (acknowledged [(row, d)])"
      and y: "tx_tried x1 = tx_tried x @ [(message_of row, y)]" "d \<noteq> None \<longleftrightarrow> y = Inr ()" .
    from Cons.IH [OF ok(2) d(1)] Cons.prems(3) obtain ds where ds: "sends_of rows ds (tx_tried x1) (tx_tried x')" "\<not> tx_aborted x'"
      "db_rows (tx_db x') = settle_rows (zip (map row_id rows) ds) (db_rows (tx_db x1))" "db_seq (tx_db x') = db_seq (tx_db x1)"
      "tx_sent x' = tx_sent x1 @ map message_of (acknowledged (zip rows ds))"
      "n = k + j + length (acknowledged (zip rows ds))" by auto
    have fresh: "row_id row \<notin> set (map fst (zip (map row_id rows) ds))"
      using Cons.prems(3) sends_length [OF ds(1)] by (simp add: map_fst_zip)
    show ?thesis
    proof (intro exI conjI)
      show "sends_of (row # rows) (d # ds) (tx_tried x) (tx_tried x')" using ds(1) y by (rule sends_of_Cons)
      show "db_rows (tx_db x') = settle_rows (zip (map row_id (row # rows)) (d # ds)) (db_rows (tx_db x))"
        using settle_rows_Cons [OF fresh] by (simp add: ds(3) d(2) set_row_judge)
      show "tx_sent x' = tx_sent x @ map message_of (acknowledged (zip (row # rows) (d # ds)))"
        "n = k + length (acknowledged (zip (row # rows) (d # ds)))"
        using ds(5,6) d(3,4) by (auto simp: acknowledged_def)
    qed (use ds d in \<open>simp_all add: set_row_judge\<close>)
  qed simp
qed

lemma fetch_distinct: "wf_outbox db \<Longrightarrow> distinct (map row_id (fetch_pending locked n db))"
proof -
  assume wf: "wf_outbox db"
  have "distinct (map row_id (sort_key row_id (db_rows db)))"
    using wf by (simp add: wf_outbox_def distinct_map)
  then show ?thesis by (simp add: fetch_pending_def distinct_map_filter distinct_take take_map [symmetric])
qed

lemma fetch_rows:
  "r \<in> set (fetch_pending locked n db) \<Longrightarrow> r \<in> set (db_rows db) \<and> row_status r = Pending \<and> \<not> locked (row_id r)"
  unfolding fetch_pending_def by (auto dest: in_set_takeD)

lemma relay_row_sent:
  assumes "relay_row env row x = (r, x')"
  obtains rs where "set rs \<subseteq> {row}" "tx_sent x' = tx_sent x @ map message_of rs"
proof -
  have keep: "tx_sent y' = tx_sent y" if "tx_execute env st y = (z, y')" for st y z y'
    using that by (cases rule: tx_execute_cases) simp_all
  then have mark: "tx_sent y' = tx_sent y" if "mark_undelivered env row y = (z, y')" for y z y'
    using that unfolding mark_undelivered_def by (auto elim!: bind_eff_cases simp: ret_def)
  obtain r1 x1 where send: "tx_send env (row_topic row) (row_payload row) (row_message_id row) x = (r1, x1)"
    by (cases "tx_send env (row_topic row) (row_payload row) (row_message_id row) x")
  then obtain rs where rs: "set rs \<subseteq> {row}" "tx_sent x1 = tx_sent x @ map message_of rs"
  proof (cases rule: tx_send_cases)
    case (ok u)
    then show ?thesis by (intro that [of "[row]"]) (simp_all add: message_of_def)
  next
    case (error e u)
    then show ?thesis by (intro that [of "[]"]) simp_all
  qed
  have "tx_sent x' = tx_sent x1"
    using assms keep mark by (auto simp: relay_row_eq send split: sum.splits prod.splits if_splits)
  with rs that show ?thesis by metis
qed

lemma relay_rows_sent:
  "relay_rows env rows k x = (r, x') \<Longrightarrow> \<exists>rs. set rs \<subseteq> set rows \<and> tx_sent x' = tx_sent x @ map message_of rs"
proof (induction rows arbitrary: k x)
  case (Cons row rows)
  from Cons.prems show ?case
    unfolding relay_rows.simps
  proof (cases rule: bind_eff_cases)
    case (exn e)
    from exn(1) obtain rs where "set rs \<subseteq> {row}" "tx_sent x' = tx_sent x @ map message_of rs"
      by (rule relay_row_sent)
    then show ?thesis by (intro exI [of _ rs]) auto
  next
    case (ok n x1)
    from ok(1) obtain rs where rs: "set rs \<subseteq> {row}" "tx_sent x1 = tx_sent x @ map message_of rs"
      by (rule relay_row_sent)
    from Cons.IH [OF ok(2)] obtain rs' where "set rs' \<subseteq> set rows" "tx_sent x' = tx_sent x1 @ map message_of rs'"
      by blast
    with rs show ?thesis by (intro exI [of _ "rs @ rs'"]) auto
  qed
qed (simp add: ret_def)

lemma in_transaction_cases:
  assumes "in_transaction env body w = (r, w')"
  obtains (unopened) e u where "r = Inl e" "w' = w\<lparr>rw_outside := u\<rparr>"
    | (dropped) e u x u' e' where
        "body \<lparr>tx_db = rw_db w, tx_aborted = False, tx_outside = u, tx_sent = rw_sent w, tx_tried = rw_tried w\<rparr> = (Inl e, x)"
        "r = Inl e'" "w' = w\<lparr>rw_outside := u', rw_sent := tx_sent x, rw_tried := tx_tried x\<rparr>"
    | (finished) a u x u' db where
        "body \<lparr>tx_db = rw_db w, tx_aborted = False, tx_outside = u, tx_sent = rw_sent w, tx_tried = rw_tried w\<rparr> = (Inr a, x)"
        "w' = w\<lparr>rw_db := db, rw_outside := u', rw_sent := tx_sent x, rw_tried := tx_tried x\<rparr>"
        "r = Inr a \<and> db = tx_db x \<or> (\<exists>e. r = Inl e) \<and> (db = tx_db x \<or> db = rw_db w)"
proof -
  obtain b u where start: "ob_begin env (rw_outside w) = (b, u)" by (cases "ob_begin env (rw_outside w)")
  let ?start = "\<lparr>tx_db = rw_db w, tx_aborted = False, tx_outside = u, tx_sent = rw_sent w, tx_tried = rw_tried w\<rparr>"
  obtain y x where run: "body ?start = (y, x)" by (cases "body ?start")
  show ?thesis
  proof (cases b)
    case (Inl e)
    then have "(r, w') = (Inl e, w\<lparr>rw_outside := u\<rparr>)"
      unfolding assms [symmetric] by (simp add: in_transaction_def start)
    then show ?thesis by (intro unopened) simp_all
  next
    case (Inr z)
    note opened = Inr
    show ?thesis
    proof (cases y)
      case (Inl e)
      obtain c u' where rb: "ob_rollback env (tx_outside x) = (c, u')" by (cases "ob_rollback env (tx_outside x)")
      have "(r, w') = (Inl (case c of Inl e' \<Rightarrow> e' | Inr _ \<Rightarrow> e), w\<lparr>rw_outside := u', rw_sent := tx_sent x, rw_tried := tx_tried x\<rparr>)"
        unfolding assms [symmetric] by (cases c) (simp_all add: in_transaction_def start opened run Inl rb)
      then show ?thesis using run Inl by (intro dropped) simp_all
    next
      case (Inr a)
      obtain c u' where cm: "ob_commit env (tx_outside x) = (c, u')" by (cases "ob_commit env (tx_outside x)")
      show ?thesis
      proof (cases c)
        case None
        then have "(r, w') = (Inr a, w\<lparr>rw_db := tx_db x, rw_outside := u', rw_sent := tx_sent x, rw_tried := tx_tried x\<rparr>)"
          unfolding assms [symmetric] by (simp add: in_transaction_def start opened run Inr cm)
        then show ?thesis using run Inr by (intro finished [where db = "tx_db x"]) simp_all
      next
        case (Some f)
        then have "(r, w') = (Inl (snd f), w\<lparr>rw_db := (if fst f then tx_db x else rw_db w), rw_outside := u', rw_sent := tx_sent x, rw_tried := tx_tried x\<rparr>)"
          unfolding assms [symmetric] by (cases f) (simp add: in_transaction_def start opened run Inr cm)
        then show ?thesis
          using run Inr by (intro finished [where db = "if fst f then tx_db x else rw_db w"]) auto
      qed
    qed
  qed
qed

text \<open>
  \<open>settled rows ds w w'\<close>: the rows of a batch were sent, each once, got the verdicts \<open>ds\<close> of their sends, and the
  acknowledged messages were counted.
\<close>

definition settled :: "outbox_row list \<Rightarrow> verdict list \<Rightarrow> 'u relay_world \<Rightarrow> 'u relay_world \<Rightarrow> bool" where
  "settled rows ds w w' \<longleftrightarrow> sends_of rows ds (rw_tried w) (rw_tried w')
     \<and> db_rows (rw_db w') = settle_rows (zip (map row_id rows) ds) (db_rows (rw_db w)) \<and> db_seq (rw_db w') = db_seq (rw_db w)
     \<and> rw_sent w' = rw_sent w @ map message_of (acknowledged (zip rows ds))"

lemma batch_body_ok:
  assumes "batch_body env n \<lparr>tx_db = db, tx_aborted = False, tx_outside = u, tx_sent = ss, tx_tried = ts\<rparr> = (Inr k, x)" "wf_outbox db"
  shows "\<exists>ds. sends_of (fetch_pending (ob_locked env u) n db) ds ts (tx_tried x)
     \<and> db_rows (tx_db x) = settle_rows (zip (map row_id (fetch_pending (ob_locked env u) n db)) ds) (db_rows db)
     \<and> db_seq (tx_db x) = db_seq db
     \<and> tx_sent x = ss @ map message_of (acknowledged (zip (fetch_pending (ob_locked env u) n db) ds))
     \<and> k = length (acknowledged (zip (fetch_pending (ob_locked env u) n db) ds))"
proof -
  from assms(1) obtain x1 where x1: "tx_execute env (FetchPending n) \<lparr>tx_db = db, tx_aborted = False, tx_outside = u, tx_sent = ss, tx_tried = ts\<rparr> = (Inr (), x1)"
    "relay_rows env (fetch_pending (ob_locked env u) n db) 0 x1 = (Inr k, x)"
    unfolding batch_body_def by (auto elim!: bind_eff_cases)
  from x1(1) have "\<not> tx_aborted x1" "tx_db x1 = db" "tx_sent x1 = ss" "tx_tried x1 = ts"
    by (cases rule: tx_execute_cases; simp add: apply_statement_def)+
  with relay_rows_ok [OF x1(2) _ fetch_distinct [OF assms(2)]] show ?thesis by auto
qed

lemma batch_body_sent:
  assumes "batch_body env n \<lparr>tx_db = db, tx_aborted = False, tx_outside = u, tx_sent = ss, tx_tried = ts\<rparr> = (r, x)"
  shows "\<exists>rs. set rs \<subseteq> set (fetch_pending (ob_locked env u) n db) \<and> tx_sent x = ss @ map message_of rs"
  using assms unfolding batch_body_def
proof (cases rule: bind_eff_cases)
  case (exn e)
  from exn(1) have "tx_sent x = ss" by (cases rule: tx_execute_cases) simp_all
  then show ?thesis by (intro exI [of _ "[]"]) simp
next
  case (ok z x1)
  from ok(1) have "tx_sent x1 = ss" by (cases rule: tx_execute_cases) simp_all
  with relay_rows_sent [OF ok(2)] show ?thesis by simp
qed

lemma batch_cases:
  assumes "process_batch env n w = (r, w')" "wf_outbox (rw_db w)"
  obtains (applied) u ds where "settled (fetch_pending (ob_locked env u) n (rw_db w)) ds w w'"
      "r = Inr (length (acknowledged (zip (fetch_pending (ob_locked env u) n (rw_db w)) ds))) \<or> (\<exists>e. r = Inl e)"
    | (undone) u rs e where "r = Inl e" "rw_db w' = rw_db w" "set rs \<subseteq> set (fetch_pending (ob_locked env u) n (rw_db w))"
      "rw_sent w' = rw_sent w @ map message_of rs"
  using assms(1) unfolding process_batch_def
proof (cases rule: in_transaction_cases)
  case (unopened e u)
  then show ?thesis by (intro undone [of e "[]"]) simp_all
next
  case (dropped e u x u' e')
  from batch_body_sent [OF dropped(1)] dropped(2,3) show ?thesis by (auto intro: undone)
next
  case (finished a u x u' db)
  from finished(3) consider "db = tx_db x" "r = Inr a \<or> (\<exists>e. r = Inl e)" | e where "db = rw_db w" "r = Inl e" by blast
  then show ?thesis
  proof cases
    case 1
    from batch_body_ok [OF finished(1) assms(2)] obtain ds where
      "settled (fetch_pending (ob_locked env u) n (rw_db w)) ds w w'"
      "a = length (acknowledged (zip (fetch_pending (ob_locked env u) n (rw_db w)) ds))"
      using 1(1) finished(2) by (auto simp: settled_def)
    with 1(2) applied show ?thesis by blast
  next
    case 2
    from batch_body_sent [OF finished(1)] 2 finished(2) show ?thesis by (auto intro: undone)
  qed
qed

text \<open>
  C30. A batch that returns has dealt with exactly the first \<open>batch_size\<close> pending rows by id that no other transaction had locked:
  it called \<open>send_and_wait\<close> once for each, in order and with its message, and for nothing else (\<open>sends_of\<close>). The row is \<open>PUBLISHED\<close>
  with an instant if that call returned and \<open>FAILED\<close> if it raised; no other row has changed, and the answer is the number of
  calls that returned.
\<close>

theorem relay_batch:
  assumes "process_batch env n w = (Inr k, w')" "wf_outbox (rw_db w)"
  shows "\<exists>u ds. settled (fetch_pending (ob_locked env u) n (rw_db w)) ds w w'
     \<and> sends_of (fetch_pending (ob_locked env u) n (rw_db w)) ds (rw_tried w) (rw_tried w')
     \<and> k = length (acknowledged (zip (fetch_pending (ob_locked env u) n (rw_db w)) ds))"
  using assms by (rule batch_cases) (auto simp: settled_def)

text \<open>
  C31. A batch that raises leaves the table as it was, or, when only the answer to \<open>COMMIT\<close> was lost, with the verdicts of the whole
  batch. In the first case messages of its rows may already be with the broker; their rows stay pending and are sent again.
\<close>

theorem relay_raises:
  assumes "process_batch env n w = (Inl e, w')" "wf_outbox (rw_db w)"
  shows "\<exists>u. (\<exists>ds. settled (fetch_pending (ob_locked env u) n (rw_db w)) ds w w') \<or>
     rw_db w' = rw_db w \<and> (\<exists>rs. set rs \<subseteq> set (fetch_pending (ob_locked env u) n (rw_db w))
       \<and> rw_sent w' = rw_sent w @ map message_of rs)"
  using assms by (rule batch_cases) auto

subsection \<open>Writers and relays together\<close>

text \<open>A writer's transaction: the entries it writes.\<close>

fun write_entries :: "'u outbox_env \<Rightarrow> OutboxEntry list \<Rightarrow> ('u tx, unit) eff" where
  "write_entries env [] = ret ()"
| "write_entries env (e # es) = bind_eff (outbox_write env e) (\<lambda>_. write_entries env es)"

text \<open>The database and the broker under any number of writers and relays, in the order in which their transactions end.\<close>

inductive outbox_step :: "'u relay_world \<Rightarrow> 'u relay_world \<Rightarrow> bool" where
  writes: "in_transaction env (write_entries env es) w = (r, w') \<Longrightarrow> outbox_step w w'"
| batch: "process_batch env n w = (r', w') \<Longrightarrow> outbox_step w w'"
| otherwise: "outbox_step w (w\<lparr>rw_outside := u, rw_running := b\<rparr>)"

definition outbox_ok :: "'u relay_world \<Rightarrow> bool" where
  "outbox_ok w \<longleftrightarrow> wf_outbox (rw_db w)
     \<and> (\<forall>r \<in> set (db_rows (rw_db w)). row_status r = Published \<longrightarrow> message_of r \<in> set (rw_sent w))
     \<and> set (rw_sent w) \<subseteq> message_of ` set (db_rows (rw_db w))"

text \<open>No row is lost, its message never changes, and a row that is no longer pending never changes at all.\<close>

definition keeps :: "outbox_row list \<Rightarrow> outbox_row list \<Rightarrow> bool" where
  "keeps rows rows' \<longleftrightarrow> (\<forall>r \<in> set rows. \<exists>r' \<in> set rows'. row_id r' = row_id r \<and> message_of r' = message_of r
     \<and> (row_status r \<noteq> Pending \<longrightarrow> r' = r))"

lemma keeps_refl [simp]: "keeps rows rows"
  by (auto simp: keeps_def)

lemma keeps_trans: "keeps xs ys \<Longrightarrow> keeps ys zs \<Longrightarrow> keeps xs zs"
  unfolding keeps_def by metis

lemma keeps_messages: "keeps xs ys \<Longrightarrow> message_of ` set xs \<subseteq> message_of ` set ys"
  unfolding keeps_def by (metis image_subsetI image_eqI)

text \<open>What a writer's statements do to the table.\<close>

definition wrote :: "outbox_db \<Rightarrow> outbox_db \<Rightarrow> bool" where
  "wrote db db' \<longleftrightarrow> (wf_outbox db \<longrightarrow> wf_outbox db') \<and> keeps (db_rows db) (db_rows db')
     \<and> (\<forall>r \<in> set (db_rows db'). r \<in> set (db_rows db) \<or> row_status r = Pending)"

lemma wrote_refl [simp]: "wrote db db"
  by (simp add: wrote_def)

lemma wrote_trans: "wrote a b \<Longrightarrow> wrote b c \<Longrightarrow> wrote a c"
  unfolding wrote_def by (blast intro: keeps_trans)

lemma wrote_insert: "wrote db (insert_row jsonb topic m payload t db)"
proof (cases "m \<in> set (map row_message_id (db_rows db))")
  case True
  then show ?thesis by (auto simp: wrote_def insert_row_def Let_def wf_outbox_def)
next
  case False
  have "db_seq db + 1 \<notin> set (map row_id (db_rows db))" if "wf_outbox db"
    using that by (force simp: wf_outbox_def)
  with False show ?thesis by (auto simp: wrote_def insert_row_def Let_def wf_outbox_def keeps_def)
qed

lemma write_wrote:
  assumes "outbox_write env e x = (r, x')"
  shows "wrote (tx_db x) (tx_db x') \<and> tx_sent x' = tx_sent x"
proof (cases "json_dumps (ob_repr env) (PDict (oe_payload e))")
  case (Inl exc)
  with assms show ?thesis by (simp add: outbox_write_def raise_def)
next
  case (Inr payload)
  with assms have "tx_execute env (InsertRow (oe_topic e) (oe_message_id e) payload (oe_created_at e)) x = (r, x')"
    by (simp add: outbox_write_def)
  then show ?thesis
    by (cases rule: tx_execute_cases) (simp_all add: apply_statement_def wrote_insert)
qed

lemma write_entries_wrote:
  "write_entries env es x = (r, x') \<Longrightarrow> wrote (tx_db x) (tx_db x') \<and> tx_sent x' = tx_sent x"
proof (induction es arbitrary: x)
  case (Cons e es)
  from Cons.prems show ?case
    unfolding write_entries.simps
    by (cases rule: bind_eff_cases) (auto dest!: write_wrote Cons.IH intro: wrote_trans)
qed (simp add: ret_def)

text \<open>What a batch does to the table.\<close>

lemma settled_row:
  assumes "settled (fetch_pending locked n (rw_db w)) ds w w'" "wf_outbox (rw_db w)" "r \<in> set (db_rows (rw_db w))"
  defines "r' \<equiv> case map_of (zip (map row_id (fetch_pending locked n (rw_db w))) ds) (row_id r) of
      Some d \<Rightarrow> judge d r | None \<Rightarrow> r"
  shows "r' = r \<or> row_status r = Pending \<and> (\<exists>d. r' = judge d r \<and> (d \<noteq> None \<longrightarrow> message_of r \<in> set (rw_sent w')))"
proof (cases "map_of (zip (map row_id (fetch_pending locked n (rw_db w))) ds) (row_id r)")
  case None
  then show ?thesis by (simp add: r'_def)
next
  case (Some d)
  then have "(row_id r, d) \<in> set (zip (map row_id (fetch_pending locked n (rw_db w))) ds)" by (rule map_of_SomeD)
  then obtain q where q: "(q, d) \<in> set (zip (fetch_pending locked n (rw_db w)) ds)" "row_id q = row_id r"
    by (auto simp: zip_map1)
  then have fetched: "q \<in> set (fetch_pending locked n (rw_db w))" by (auto dest: set_zip_leftD)
  with q(2) assms(2,3) have "q = r"
    using fetch_rows [OF fetched] by (auto simp: wf_outbox_def distinct_map inj_on_def)
  moreover have "message_of q \<in> set (rw_sent w')" if "d \<noteq> None"
    using q(1) that assms(1) by (force simp: settled_def acknowledged_def)
  ultimately show ?thesis using Some fetch_rows [OF fetched] by (auto simp: r'_def)
qed

lemma settled_effect:
  assumes st: "settled (fetch_pending locked n (rw_db w)) ds w w'" and wf: "wf_outbox (rw_db w)"
  shows "wf_outbox (rw_db w') \<and> keeps (db_rows (rw_db w)) (db_rows (rw_db w'))
    \<and> (\<forall>r' \<in> set (db_rows (rw_db w')). r' \<in> set (db_rows (rw_db w)) \<or>
        (row_status r' = Published \<longrightarrow> message_of r' \<in> set (rw_sent w')))
    \<and> (\<exists>rs. set rs \<subseteq> set (db_rows (rw_db w)) \<and> rw_sent w' = rw_sent w @ map message_of rs)"
proof (intro conjI)
  let ?f = "\<lambda>r. case map_of (zip (map row_id (fetch_pending locked n (rw_db w))) ds) (row_id r) of
      Some d \<Rightarrow> judge d r | None \<Rightarrow> r"
  note row = settled_row [OF st wf]
  have rows: "db_rows (rw_db w') = map ?f (db_rows (rw_db w))" and seq: "db_seq (rw_db w') = db_seq (rw_db w)"
    using st by (simp_all add: settled_def settle_rows_def)
  have same: "row_id (?f r) = row_id r" "row_message_id (?f r) = row_message_id r" "message_of (?f r) = message_of r" for r
    by (simp_all split: option.split)
  show "wf_outbox (rw_db w')"
    using wf by (simp add: wf_outbox_def rows seq same comp_def)
  show "keeps (db_rows (rw_db w)) (db_rows (rw_db w'))"
    unfolding keeps_def
  proof
    fix r assume r: "r \<in> set (db_rows (rw_db w))"
    from row [OF r] same [of r] r show "\<exists>r' \<in> set (db_rows (rw_db w')). row_id r' = row_id r
        \<and> message_of r' = message_of r \<and> (row_status r \<noteq> Pending \<longrightarrow> r' = r)"
      unfolding rows by (intro bexI [of _ "?f r"]) auto
  qed
  show "\<forall>r' \<in> set (db_rows (rw_db w')). r' \<in> set (db_rows (rw_db w)) \<or>
        (row_status r' = Published \<longrightarrow> message_of r' \<in> set (rw_sent w'))"
  proof
    fix r' assume "r' \<in> set (db_rows (rw_db w'))"
    then obtain r where r: "r \<in> set (db_rows (rw_db w))" "r' = ?f r" by (auto simp: rows)
    from row [OF r(1)] consider "r' = r" | d where "r' = judge d r" "d \<noteq> None \<longrightarrow> message_of r \<in> set (rw_sent w')"
      unfolding r(2) by blast
    then show "r' \<in> set (db_rows (rw_db w)) \<or>
        (row_status r' = Published \<longrightarrow> message_of r' \<in> set (rw_sent w'))"
    proof cases
      case 2
      then show ?thesis by (cases d) (simp_all add: judge_def undelivered_def delivered_def message_of_def)
    qed (use r in simp)
  qed
  have "set (acknowledged (zip (fetch_pending locked n (rw_db w)) ds)) \<subseteq> set (db_rows (rw_db w))"
    using fetch_rows by (fastforce simp: acknowledged_def dest: set_zip_leftD)
  then show "\<exists>rs. set rs \<subseteq> set (db_rows (rw_db w)) \<and> rw_sent w' = rw_sent w @ map message_of rs"
    using st unfolding settled_def by blast
qed

lemma step_effect:
  assumes "outbox_step w w'" "outbox_ok w"
  shows "outbox_ok w' \<and> keeps (db_rows (rw_db w)) (db_rows (rw_db w')) \<and> set (rw_sent w) \<subseteq> set (rw_sent w')"
  using assms
proof (induction rule: outbox_step.induct)
  case (writes env es w r w')
  from writes.hyps show ?case
  proof (cases rule: in_transaction_cases)
    case (unopened e u)
    with writes.prems show ?thesis by (simp add: outbox_ok_def)
  next
    case (dropped e u x u' e')
    from write_entries_wrote [OF dropped(1)] dropped(3) writes.prems show ?thesis by (simp add: outbox_ok_def)
  next
    case (finished a u x u' db)
    from write_entries_wrote [OF finished(1)] have w: "wrote (rw_db w) (tx_db x)" "tx_sent x = rw_sent w" by simp_all
    from finished(3) have "wrote (rw_db w) db" using w(1) by auto
    then have "wf_outbox db" "keeps (db_rows (rw_db w)) (db_rows db)"
      "\<forall>r \<in> set (db_rows db). r \<in> set (db_rows (rw_db w)) \<or> row_status r = Pending"
      using writes.prems by (simp_all add: wrote_def outbox_ok_def)
    with w(2) finished(2) writes.prems keeps_messages [of "db_rows (rw_db w)" "db_rows db"] show ?thesis
      by (auto simp: outbox_ok_def)
  qed
next
  case (batch env n w r' w')
  have wf: "wf_outbox (rw_db w)" using batch.prems by (simp add: outbox_ok_def)
  from batch.hyps wf show ?case
  proof (cases rule: batch_cases)
    case (applied u ds)
    note eff = settled_effect [OF applied(1) wf]
    then obtain rs where rs: "set rs \<subseteq> set (db_rows (rw_db w))" "rw_sent w' = rw_sent w @ map message_of rs" by blast
    have "message_of ` set (db_rows (rw_db w)) \<subseteq> message_of ` set (db_rows (rw_db w'))"
      using eff by (intro keeps_messages) blast
    with eff rs batch.prems show ?thesis by (fastforce simp: outbox_ok_def)
  next
    case (undone u rs e)
    then have "set rs \<subseteq> set (db_rows (rw_db w))" using fetch_rows by blast
    with undone batch.prems show ?thesis by (auto simp: outbox_ok_def)
  qed
next
  case (otherwise w u b)
  then show ?case by (simp add: outbox_ok_def)
qed

lemma steps_effect:
  assumes "outbox_step\<^sup>*\<^sup>* w w'" "outbox_ok w"
  shows "outbox_ok w' \<and> keeps (db_rows (rw_db w)) (db_rows (rw_db w')) \<and> set (rw_sent w) \<subseteq> set (rw_sent w')"
  using assms
proof (induction rule: rtranclp_induct)
  case (step w1 w2)
  with step_effect [OF step.hyps(2)] show ?case by (blast intro: keeps_trans)
qed simp

text \<open>An empty table, for the examples, and an environment in which nothing fails.\<close>

definition outbox_empty :: "nat relay_world" where
  "outbox_empty = \<lparr>rw_db = \<lparr>db_rows = [], db_seq = 0\<rparr>, rw_outside = 0, rw_sent = [], rw_tried = [], rw_running = False\<rparr>"

definition outbox_calm :: "nat outbox_env" where
  "outbox_calm = \<lparr>ob_send = (\<lambda>_ _ _. ret ()), ob_begin = ret (), ob_exec = (\<lambda>_. ret ()), ob_locked = (\<lambda>_ _. False),
     ob_commit = (\<lambda>u. (None, u)), ob_rollback = ret (), ob_sleep = ret (), ob_clock = int, ob_jsonb = (\<lambda>s. s),
     ob_repr = (\<lambda>_. [])\<rparr>"

definition example_entry :: OutboxEntry where
  "example_entry = outbox_entry 0 ''orders'' ''m'' [] None"

definition outbox_written :: "nat relay_world" where
  "outbox_written = snd (in_transaction outbox_calm (write_entries outbox_calm [example_entry]) outbox_empty)"

lemma outbox_written_eq:
  "outbox_written = outbox_empty\<lparr>rw_db := \<lparr>db_rows = [\<lparr>row_id = 1, row_topic = ''orders'', row_message_id = ''m'',
     row_payload = ''{}'', row_status = Pending, row_created_at = 0, row_published_at = None\<rparr>], db_seq = 1\<rparr>\<rparr>"
proof -
  have "json_dumps (\<lambda>_. []) (PDict []) = Inr ''{}''" by code_simp
  then show ?thesis
    by (simp add: outbox_written_def in_transaction_def outbox_calm_def outbox_write_def tx_execute_def eff_simps
        example_entry_def outbox_entry_def outbox_empty_def apply_statement_def insert_row_def)
qed

lemma outbox_empty_ok: "outbox_ok outbox_empty"
  by (simp add: outbox_ok_def outbox_empty_def wf_outbox_def)

lemma outbox_written_step: "outbox_step\<^sup>*\<^sup>* outbox_empty outbox_written"
  unfolding outbox_written_def by (rule r_into_rtranclp, rule outbox_step.writes [OF surjective_pairing])

text \<open>
  C32. After any transactions of writers and batches of relays, in any order and with any failures: a row is \<open>PUBLISHED\<close>
  only if the broker acknowledged its message; every acknowledged message is that of a committed row, so nothing is published
  from a transaction that was rolled back; and no two rows have the same message id.
\<close>

theorem outbox_sound:
  assumes "outbox_step\<^sup>*\<^sup>* w w'" "outbox_ok w"
  shows "(\<forall>r \<in> set (db_rows (rw_db w')). row_status r = Published \<longrightarrow> message_of r \<in> set (rw_sent w'))
    \<and> set (rw_sent w') \<subseteq> message_of ` set (db_rows (rw_db w')) \<and> distinct (map row_message_id (db_rows (rw_db w')))"
  using steps_effect [OF assms] unfolding outbox_ok_def wf_outbox_def by blast

theorem outbox_sound_witness: "set (rw_sent outbox_written) \<subseteq> message_of ` set (db_rows (rw_db outbox_written))"
  using outbox_sound [OF outbox_written_step outbox_empty_ok] by blast

text \<open>
  C33. No transaction of a writer or a relay loses a committed row or changes its message, and a row that is \<open>PUBLISHED\<close> or
  \<open>FAILED\<close> stays as it is for good: a message whose publication failed once is never published by a relay.
\<close>

theorem outbox_final:
  assumes "outbox_step\<^sup>*\<^sup>* w w'" "outbox_ok w" "r \<in> set (db_rows (rw_db w))"
  shows "\<exists>r' \<in> set (db_rows (rw_db w')). row_id r' = row_id r \<and> message_of r' = message_of r
     \<and> (row_status r \<noteq> Pending \<longrightarrow> r' = r)"
  using steps_effect [OF assms(1,2)] assms(3) unfolding keeps_def by blast

definition outbox_failed :: "nat relay_world" where
  "outbox_failed = outbox_written\<lparr>rw_db := set_row 1 undelivered (rw_db outbox_written)\<rparr>"

theorem outbox_final_witness:
  "\<exists>r' \<in> set (db_rows (rw_db (snd (process_batch outbox_calm 10 outbox_failed)))). row_status r' = Undelivered"
proof -
  let ?r = "undelivered (hd (db_rows (rw_db outbox_written)))"
  have ok: "outbox_ok outbox_failed"
    by (simp add: outbox_ok_def wf_outbox_def outbox_failed_def set_row_def undelivered_def outbox_written_eq outbox_empty_def)
  have r: "?r \<in> set (db_rows (rw_db outbox_failed))"
    by (simp add: outbox_failed_def set_row_def undelivered_def outbox_written_eq)
  have "outbox_step\<^sup>*\<^sup>* outbox_failed (snd (process_batch outbox_calm 10 outbox_failed))"
    by (rule r_into_rtranclp, rule outbox_step.batch [OF surjective_pairing])
  from outbox_final [OF this ok r] show ?thesis by (force simp: undelivered_def)
qed

text \<open>The batch of the example, for the witnesses.\<close>

lemma example_batch: "fst (process_batch outbox_calm 10 outbox_written) = Inr 1"
  by (simp add: process_batch_def in_transaction_def batch_body_def fetch_pending_def tx_execute_def outbox_calm_def
      outbox_written_eq outbox_empty_def relay_row_eq tx_send_def eff_simps apply_statement_def set_row_def)

lemma written_wf: "wf_outbox (rw_db outbox_written)"
  by (simp add: wf_outbox_def outbox_written_eq)

theorem relay_batch_witness:
  "\<exists>w' ds. process_batch outbox_calm 10 outbox_written = (Inr 1, w')
     \<and> settled (fetch_pending (\<lambda>_. False) 10 (rw_db outbox_written)) ds outbox_written w'"
proof -
  obtain w' where run: "process_batch outbox_calm 10 outbox_written = (Inr 1, w')"
    using example_batch by (metis prod.collapse)
  from relay_batch [OF run written_wf] run show ?thesis by (auto simp: outbox_calm_def)
qed

text \<open>A server that goes away at \<open>COMMIT\<close>.\<close>

definition outbox_crash :: "nat outbox_env" where
  "outbox_crash = outbox_calm\<lparr>ob_commit := \<lambda>u. (Some (False, Exc ''ConnectionError'' []), u)\<rparr>"

theorem relay_raises_witness:
  "\<exists>e w' rs. process_batch outbox_crash 10 outbox_written = (Inl e, w')
     \<and> set rs \<subseteq> set (db_rows (rw_db outbox_written)) \<and> rw_sent w' = rw_sent outbox_written @ map message_of rs"
proof -
  have "fst (process_batch outbox_crash 10 outbox_written) = Inl (Exc ''ConnectionError'' [])"
    by (simp add: process_batch_def in_transaction_def batch_body_def fetch_pending_def tx_execute_def outbox_calm_def
        outbox_crash_def outbox_written_eq outbox_empty_def relay_row_eq tx_send_def eff_simps apply_statement_def set_row_def)
  then obtain w' where run: "process_batch outbox_crash 10 outbox_written = (Inl (Exc ''ConnectionError'' []), w')"
    by (metis prod.collapse)
  have "\<exists>rs. set rs \<subseteq> set (db_rows (rw_db outbox_written)) \<and> rw_sent w' = rw_sent outbox_written @ map message_of rs"
    using relay_raises [OF run written_wf]
  proof (elim exE disjE conjE)
    fix u ds assume "settled (fetch_pending (ob_locked outbox_crash u) 10 (rw_db outbox_written)) ds outbox_written w'"
    from settled_effect [OF this written_wf] show ?thesis by blast
  next
    fix u rs assume "set rs \<subseteq> set (fetch_pending (ob_locked outbox_crash u) 10 (rw_db outbox_written))"
      "rw_sent w' = rw_sent outbox_written @ map message_of rs"
    then show ?thesis using fetch_rows by blast
  qed
  with run show ?thesis by blast
qed

subsection \<open>When nothing fails\<close>

definition reliable :: "'u outbox_env \<Rightarrow> bool" where
  "reliable env \<longleftrightarrow> (\<forall>t v k u. fst (ob_send env t v k u) = Inr ()) \<and> (\<forall>u. fst (ob_begin env u) = Inr ())
     \<and> (\<forall>st u. fst (ob_exec env st u) = Inr ()) \<and> (\<forall>u. fst (ob_commit env u) = None)
     \<and> (\<forall>u i. \<not> ob_locked env u i) \<and> (\<forall>u. fst (ob_sleep env u) = Inr ())"

lemma reliable_execute:
  assumes "reliable env" "\<not> tx_aborted x"
  obtains x' where "tx_execute env st x = (Inr (), x')" "\<not> tx_aborted x'"
proof -
  obtain u where "ob_exec env st (tx_outside x) = (Inr (), u)"
    using assms(1) unfolding reliable_def by (metis prod.collapse)
  with assms(2) that show ?thesis by (simp add: tx_execute_def)
qed

lemma reliable_row:
  assumes "reliable env" "\<not> tx_aborted x"
  obtains x' where "relay_row env row x = (Inr 1, x')" "\<not> tx_aborted x'"
proof -
  obtain u where "ob_send env (row_topic row) (row_payload row) (row_message_id row) (tx_outside x) = (Inr (), u)"
    using assms(1) unfolding reliable_def by (metis prod.collapse)
  then obtain x1 where x1: "tx_send env (row_topic row) (row_payload row) (row_message_id row) x = (Inr (), x1)" "\<not> tx_aborted x1"
    using assms(2) by (simp add: tx_send_def)
  obtain x2 where "tx_execute env (MarkPublished (ob_clock env (tx_outside x1)) (row_id row)) x1 = (Inr (), x2)" "\<not> tx_aborted x2"
    by (rule reliable_execute [OF assms(1) x1(2)])
  with x1 that show ?thesis by (simp add: relay_row_eq)
qed

lemma reliable_rows:
  "reliable env \<Longrightarrow> \<not> tx_aborted x \<Longrightarrow> \<exists>x'. relay_rows env rows k x = (Inr (k + length rows), x')"
proof (induction rows arbitrary: k x)
  case (Cons row rows)
  obtain x1 where x1: "relay_row env row x = (Inr 1, x1)" "\<not> tx_aborted x1"
    by (rule reliable_row [OF Cons.prems])
  from Cons.IH [OF Cons.prems(1) x1(2), of "k + 1"] show ?case
    by (simp add: bind_eff_Inr [of "relay_row env row", OF x1(1)])
qed (simp add: ret_def)

abbreviation pending_rows :: "'u relay_world \<Rightarrow> outbox_row set" where
  "pending_rows w \<equiv> {r \<in> set (db_rows (rw_db w)). row_status r = Pending}"

lemma fetch_all: "wf_outbox (rw_db w) \<Longrightarrow> length (fetch_pending (\<lambda>_. False) n (rw_db w)) = min n (card (pending_rows w))"
proof -
  assume "wf_outbox (rw_db w)"
  then have "distinct (db_rows (rw_db w))" by (simp add: wf_outbox_def distinct_map)
  then have "length (filter (\<lambda>r. row_status r = Pending) (sort_key row_id (db_rows (rw_db w)))) = card (pending_rows w)"
    by (simp add: distinct_length_filter Int_def conj_commute)
  then show ?thesis by (simp add: fetch_pending_def min.commute)
qed

lemma all_acknowledged:
  assumes "length (acknowledged (zip rows ds)) = length rows" "length ds = length rows"
  shows "acknowledged (zip rows ds) = rows \<and> (\<forall>d \<in> set ds. d \<noteq> None)"
proof -
  have "length (filter (\<lambda>p. snd p \<noteq> None) (zip rows ds)) = length (zip rows ds)"
    using assms by (simp add: acknowledged_def)
  then have all: "snd p \<noteq> None" if "p \<in> set (zip rows ds)" for p
    using length_filter_less [OF that, of "\<lambda>p. snd p \<noteq> None"] by auto
  then have "filter (\<lambda>p. snd p \<noteq> None) (zip rows ds) = zip rows ds" by (intro filter_True ballI)
  then have "acknowledged (zip rows ds) = map fst (zip rows ds)" by (simp only: acknowledged_def)
  moreover have "\<forall>d \<in> set (map snd (zip rows ds)). d \<noteq> None" using all by auto
  ultimately show ?thesis using assms(2) by (simp only: map_fst_zip map_snd_zip)
qed

text \<open>When every row of a batch was acknowledged, exactly the rows of the batch are no longer pending.\<close>

lemma batch_key:
  assumes "wf_outbox db" "set rows \<subseteq> set (db_rows db)" "length ds = length rows" "r \<in> set (db_rows db)"
  shows "map_of (zip (map row_id rows) ds) (row_id r) \<noteq> None \<longleftrightarrow> r \<in> set rows"
proof -
  have "map_of (zip (map row_id rows) ds) (row_id r) \<noteq> None \<longleftrightarrow> row_id r \<in> row_id ` set rows"
    using assms(3) by (simp add: map_of_zip_is_None)
  also have "\<dots> \<longleftrightarrow> r \<in> set rows"
  proof
    assume "row_id r \<in> row_id ` set rows"
    then obtain q where q: "q \<in> set rows" "row_id q = row_id r" by auto
    have "inj_on row_id (set (db_rows db))" using assms(1) by (simp add: wf_outbox_def distinct_map)
    with q assms(2,4) have "q = r" by (auto dest: inj_onD)
    with q show "r \<in> set rows" by simp
  qed simp
  finally show ?thesis .
qed

lemma settled_pending:
  assumes "wf_outbox (rw_db w)" "set rows \<subseteq> set (db_rows (rw_db w))" "length ds = length rows" "settled rows ds w w'"
    and "\<forall>d \<in> set ds. d \<noteq> None"
  shows "pending_rows w' = pending_rows w - set rows"
proof (intro set_eqI iffI)
  note keys = batch_key [OF assms(1-3)]
  let ?f = "\<lambda>r. case map_of (zip (map row_id rows) ds) (row_id r) of Some d \<Rightarrow> judge d r | None \<Rightarrow> r"
  have new: "db_rows (rw_db w') = map ?f (db_rows (rw_db w))"
    using assms(4) by (simp add: settled_def settle_rows_def)
  have gone: "row_status (?f r) = Published" if r: "r \<in> set (db_rows (rw_db w))" "r \<in> set rows" for r
  proof -
    from keys [OF r(1)] r(2) obtain d where d: "map_of (zip (map row_id rows) ds) (row_id r) = Some d" by blast
    from map_of_SomeD [OF d] have "d \<in> set ds" by (rule set_zip_rightD)
    with assms(5) have "d \<noteq> None" by blast
    with d show ?thesis by (auto simp: judge_def delivered_def)
  qed
  have stay: "?f r = r" if "r \<in> set (db_rows (rw_db w))" "r \<notin> set rows" for r
    using keys [OF that(1)] that(2) by simp
  fix r
  { assume "r \<in> pending_rows w'"
    then obtain q where q: "q \<in> set (db_rows (rw_db w))" "r = ?f q" "row_status r = Pending" by (auto simp: new)
    with gone [of q] have "q \<notin> set rows" by auto
    with q stay show "r \<in> pending_rows w - set rows" by simp }
  { assume "r \<in> pending_rows w - set rows"
    with stay [of r] show "r \<in> pending_rows w'" by (force simp: new) }
qed

lemma reliable_batch:
  assumes env: "reliable env" and wf: "wf_outbox (rw_db w)"
  obtains w' k where "process_batch env n w = (Inr k, w')" "wf_outbox (rw_db w')" "rw_running w' = rw_running w"
    "card (pending_rows w') = card (pending_rows w) - n" "set (rw_sent w) \<subseteq> set (rw_sent w')"
    "\<And>r. r \<in> pending_rows w \<Longrightarrow> r \<in> pending_rows w' \<or> message_of r \<in> set (rw_sent w')"
proof -
  obtain u where u: "ob_begin env (rw_outside w) = (Inr (), u)"
    using env unfolding reliable_def by (metis prod.collapse)
  let ?start = "\<lparr>tx_db = rw_db w, tx_aborted = False, tx_outside = u, tx_sent = rw_sent w, tx_tried = rw_tried w\<rparr>"
  obtain x1 where x1: "tx_execute env (FetchPending n) ?start = (Inr (), x1)" "\<not> tx_aborted x1"
    using reliable_execute [OF env, of ?start] by auto
  have free: "ob_locked env u = (\<lambda>_. False)" using env by (simp add: reliable_def fun_eq_iff)
  let ?rows = "fetch_pending (\<lambda>_. False) n (rw_db w)"
  obtain x where x: "batch_body env n ?start = (Inr (length ?rows), x)"
    using reliable_rows [OF env x1(2), of ?rows 0] by (auto simp: batch_body_def bind_eff_Inr [where m = "tx_execute env (FetchPending n)", OF x1(1)] free)
  obtain u' where "ob_commit env (tx_outside x) = (None, u')"
    using env unfolding reliable_def by (metis prod.collapse)
  then obtain w' where run: "process_batch env n w = (Inr (length ?rows), w')"
    and w': "rw_db w' = tx_db x" "rw_sent w' = tx_sent x" "rw_tried w' = tx_tried x" "rw_running w' = rw_running w"
    using u x by (simp add: process_batch_def in_transaction_def)
  from batch_body_ok [OF x wf, unfolded free] obtain ds where ds: "length ds = length ?rows"
    "settled ?rows ds w w'" "length (acknowledged (zip ?rows ds)) = length ?rows"
    using w' sends_length by (fastforce simp: settled_def)
  from all_acknowledged [OF ds(3,1)] have acked: "acknowledged (zip ?rows ds) = ?rows" "\<forall>d \<in> set ds. d \<noteq> None" by simp_all
  have sent: "rw_sent w' = rw_sent w @ map message_of ?rows" using ds(2) acked(1) by (simp add: settled_def)
  have sub: "set ?rows \<subseteq> pending_rows w" using fetch_rows by fastforce
  then have "set ?rows \<subseteq> set (db_rows (rw_db w))" by auto
  from settled_pending [OF wf this ds(1,2) acked(2)] have left: "pending_rows w' = pending_rows w - set ?rows" .
  moreover have "card (set ?rows) = min n (card (pending_rows w))"
    using fetch_distinct [OF wf, of "\<lambda>_. False" n] fetch_all [OF wf, of n] by (simp add: distinct_map distinct_card)
  ultimately have "card (pending_rows w') = card (pending_rows w) - n"
    using sub by (simp add: card_Diff_subset)
  then show ?thesis
    using run settled_effect [OF ds(2) wf] w'(4) sent left
    by (intro that [of "length ?rows" w']) auto
qed

text \<open>One round of a running relay.\<close>

lemma reliable_round:
  assumes "reliable env" "wf_outbox (rw_db w)" "rw_running w"
  obtains w2 where "\<And>bs. relay_loop env n (False # bs) w = relay_loop env n bs w2" "wf_outbox (rw_db w2)" "rw_running w2"
    "card (pending_rows w2) = card (pending_rows w) - n" "set (rw_sent w) \<subseteq> set (rw_sent w2)"
    "\<And>r. r \<in> pending_rows w \<Longrightarrow> r \<in> pending_rows w2 \<or> message_of r \<in> set (rw_sent w2)"
proof -
  obtain w1 k where b: "process_batch env n w = (Inr k, w1)" "wf_outbox (rw_db w1)" "rw_running w1 = rw_running w"
    "card (pending_rows w1) = card (pending_rows w) - n" "set (rw_sent w) \<subseteq> set (rw_sent w1)"
    "\<And>r. r \<in> pending_rows w \<Longrightarrow> r \<in> pending_rows w1 \<or> message_of r \<in> set (rw_sent w1)"
    by (rule reliable_batch [OF assms(1,2)]) blast
  obtain u where "ob_sleep env (rw_outside w1) = (Inr (), u)"
    using assms(1) unfolding reliable_def by (metis prod.collapse)
  then have "\<exists>w2. when_eff (k = 0) (relay_sleep env) w1 = (Inr (), w2) \<and> rw_db w2 = rw_db w1 \<and> rw_running w2 = rw_running w1
      \<and> rw_sent w2 = rw_sent w1"
    by (cases "k = 0") (simp_all add: when_eff_def relay_sleep_def ret_def)
  then obtain w2 where w2: "when_eff (k = 0) (relay_sleep env) w1 = (Inr (), w2)" "rw_db w2 = rw_db w1"
    "rw_running w2 = rw_running w1" "rw_sent w2 = rw_sent w1" by blast
  have round: "try_except (bind_eff (process_batch env n) (\<lambda>published. when_eff (published = 0) (relay_sleep env)))
      (\<lambda>exc. relay_sleep env) w = (Inr (), w2)"
    by (simp add: try_except_def bind_eff_Inr [of "process_batch env n", OF b(1)] w2(1))
  have "relay_loop env n (False # bs) w = relay_loop env n bs w2" for bs
    using assms(3) by (simp add: bind_eff_def [of "modify _"] modify_def bind_eff_Inr [where m = "try_except _ _", OF round])
  then show ?thesis using that [of w2] b(2-6) w2(2-4) assms(3) by simp
qed

text \<open>
  C34. While the broker and the database answer and no other transaction holds rows, a running relay empties the outbox: after as many
  rounds as its batch size needs for the pending rows, its loop has returned from them without an error, no row is pending, and
  every message that was pending has been acknowledged, beside those acknowledged before.
\<close>

theorem relay_drains:
  assumes "reliable env" "wf_outbox (rw_db w)" "rw_running w" "card (pending_rows w) \<le> m * n"
  shows "\<exists>w'. relay_loop env n (replicate m False) w = (Inr (), w') \<and> pending_rows w' = {}
     \<and> (\<forall>r \<in> pending_rows w. message_of r \<in> set (rw_sent w')) \<and> set (rw_sent w) \<subseteq> set (rw_sent w')"
  using assms(2-4)
proof (induction m arbitrary: w)
  case 0
  then have "pending_rows w = {}" by simp
  then show ?case by (auto simp: ret_def)
next
  case (Suc m)
  obtain w2 where round: "\<And>bs. relay_loop env n (False # bs) w = relay_loop env n bs w2" "wf_outbox (rw_db w2)" "rw_running w2"
    and left: "card (pending_rows w2) = card (pending_rows w) - n" and sent: "set (rw_sent w) \<subseteq> set (rw_sent w2)"
    and kept: "\<And>r. r \<in> pending_rows w \<Longrightarrow> r \<in> pending_rows w2 \<or> message_of r \<in> set (rw_sent w2)"
    by (rule reliable_round [OF assms(1) Suc.prems(1,2), of n]) blast
  have "card (pending_rows w2) \<le> m * n" using Suc.prems(3) left by simp
  from Suc.IH [OF round(2,3) this] obtain w' where
    w': "relay_loop env n (replicate m False) w2 = (Inr (), w')" "pending_rows w' = {}"
      "\<forall>r \<in> pending_rows w2. message_of r \<in> set (rw_sent w')" "set (rw_sent w2) \<subseteq> set (rw_sent w')" by blast
  have "relay_loop env n (replicate (Suc m) False) w = (Inr (), w')" using round(1) w'(1) by simp
  moreover have "\<forall>r \<in> pending_rows w. message_of r \<in> set (rw_sent w')" using kept w'(3,4) by blast
  ultimately show ?case using w'(2,4) sent by blast
qed

theorem relay_drains_witness:
  "\<exists>w'. relay_loop outbox_calm 10 [False] (outbox_written\<lparr>rw_running := True\<rparr>) = (Inr (), w') \<and> pending_rows w' = {}"
proof -
  have "reliable outbox_calm" by (simp add: reliable_def outbox_calm_def ret_def)
  moreover have "wf_outbox (rw_db (outbox_written\<lparr>rw_running := True\<rparr>))" using written_wf by simp
  moreover have "card (pending_rows (outbox_written\<lparr>rw_running := True\<rparr>)) \<le> 1 * 10"
    by (rule order_trans [OF card_mono [of "set (db_rows (rw_db outbox_written))"]]) (auto simp: outbox_written_eq)
  ultimately have "\<exists>w'. relay_loop outbox_calm 10 (replicate 1 False) (outbox_written\<lparr>rw_running := True\<rparr>) = (Inr (), w')
      \<and> pending_rows w' = {}"
    using relay_drains [of outbox_calm "outbox_written\<lparr>rw_running := True\<rparr>" 1 10] by (simp del: replicate.simps relay_loop.simps) blast
  then show ?thesis by simp
qed

end
