(* ===== verification/Consumer_Safety.thy ===== *)
theory Consumer_Safety
  imports Example_Run
begin

section \<open>What the consumer guarantees for one record\<close>

text \<open>
  Consequences of the refinement in \<open>Lifecycle\<close>, read off the automaton: \<open>calls w w'\<close> are the
  calls made between two states. The first group says which events lead into a phase and
  which may follow it; the properties are stated about \<open>process_record\<close>.
\<close>

subsection \<open>Reading the automaton\<close>

lemma settle_eq_Some: "settle q (x :: 'a res) = Some q' \<longleftrightarrow> (case x of Inr _ \<Rightarrow> q' = q | Inl _ \<Rightarrow> q' = Aborted)"
  by (cases x) auto

lemmas life_cases = life_def settle_eq_Some held_def noted_def

lemma life_handle:
  assumes "life pf c r mid payload q (EvHandle p x) = Some q'"
  obtains k s where "q = Held k s" "p = payload"
    "x = Inr v \<Longrightarrow> q' = Succeeded v" "x = Inl Cancelled \<Longrightarrow> q' = Aborted"
  using assms by (auto simp: life_def split: phase.splits if_splits sum.splits exn.splits)

lemma life_into_held:
  assumes "life pf c r mid payload q ev = Some (Held k s)" "nonempty mid"
  shows "ev = EvClaim (the mid) (Inr True)"
  using assms by (auto simp: life_cases split: phase.splits event.splits if_splits sum.splits exn.splits)

lemma life_commit:
  assumes "life pf c r mid payload q (EvCommit x) = Some q'"
  shows "q = Seen \<or> q = Sent \<or> q = Filed \<or> (\<exists>s. q = Spent s \<and> \<not> nonempty (c_dlq_topic c))
      \<or> (\<exists>v. q = Succeeded v \<and> \<not> nonempty mid)"
    and "q' = (case x of Inr _ \<Rightarrow> Committed | Inl _ \<Rightarrow> Aborted)"
  using assms by (auto simp: life_cases split: phase.splits if_splits sum.splits)

lemma life_into_Seen:
  "life pf c r mid payload q ev = Some Seen \<Longrightarrow> (\<exists>x. ev = EvStatus (the mid) (Inr x)) \<and> q = Lost"
  by (auto simp: life_cases split: phase.splits event.splits if_splits sum.splits exn.splits)

lemma life_into_Lost:
  "life pf c r mid payload q ev = Some Lost \<Longrightarrow> ev = EvClaim (the mid) (Inr False) \<and> q = Fresh"
  by (auto simp: life_cases split: phase.splits event.splits if_splits sum.splits exn.splits)

lemma life_into_Sent:
  assumes "life pf c r mid payload q ev = Some Sent"
  obtains topic body s where "ev = EvSend topic body (cr_key r) (Inr ())" "c_dlq_topic c = Some topic"
    "json_dumps (pf_repr pf) (dlq_payload r s) = Inr body" "q = Spent s"
  using assms by (auto simp: life_cases split: phase.splits event.splits if_splits sum.splits exn.splits)

lemma life_into_Filed:
  assumes "life pf c r mid payload q ev = Some Filed"
  obtains v x where "ev = EvCompleted (the mid) v x" "x \<noteq> Inl Cancelled" "q = Succeeded v"
  using assms by (auto simp: life_cases split: phase.splits event.splits if_splits sum.splits exn.splits)

lemma life_into_Succeeded:
  assumes "life pf c r mid payload q ev = Some (Succeeded v)"
  shows "ev = EvHandle payload (Inr v)"
  using assms by (auto simp: life_cases split: phase.splits event.splits if_splits sum.splits exn.splits)

lemma life_into_Fresh: "life pf c r mid payload q ev \<noteq> Some Fresh"
  by (auto simp: life_cases split: phase.splits event.splits if_splits sum.splits exn.splits)

lemma life_final: "life pf c r mid payload q ev = None" if "q = Committed \<or> q = Aborted"
  using that by (auto simp: life_def)

lemma life_into_Committed:
  assumes "life pf c r mid payload q ev = Some Committed"
  shows "ev = EvCommit (Inr ())"
  using assms by (auto simp: life_cases split: phase.splits event.splits if_splits sum.splits exn.splits)

lemma follow_final:
  "follow (life pf c r mid payload) q es = Some q' \<Longrightarrow> q = Committed \<or> q = Aborted \<Longrightarrow> es = [] \<and> q' = q"
  by (cases es) (auto simp: life_final)

subsection \<open>Counting attempts\<close>

text \<open>How many attempts a phase still allows.\<close>

fun attempts_left :: "int \<Rightarrow> phase \<Rightarrow> nat" where
  "attempts_left n Fresh = nat n"
| "attempts_left n (Held k s) = nat (n + 1 - k)"
| "attempts_left n (Raised k s) = nat (n - k)"
| "attempts_left n (Noted k s) = nat (n - k)"
| "attempts_left n (Rested k s) = nat (n - k)"
| "attempts_left n _ = 0"

lemma attempts_left_held [simp]:
  "attempts_left (max_retries (c_config c)) (held c k s) = nat (max_retries (c_config c) + 1 - k)"
  "attempts_left (max_retries (c_config c)) (noted c k s) = nat (max_retries (c_config c) - k)"
  by (simp_all add: held_def noted_def)

definition within :: "('s, 'u) consumer \<Rightarrow> phase \<Rightarrow> bool" where
  "within c q \<longleftrightarrow> (case q of
       Held k s \<Rightarrow> k \<le> max_retries (c_config c) | Raised k s \<Rightarrow> k \<le> max_retries (c_config c)
     | Noted k s \<Rightarrow> k < max_retries (c_config c) | Rested k s \<Rightarrow> k < max_retries (c_config c)
     | _ \<Rightarrow> True)"

lemma life_within: "life pf c r mid payload q ev = Some q' \<Longrightarrow> within c q \<Longrightarrow> within c q'"
  by (auto simp: within_def life_cases split: phase.splits event.splits if_splits sum.splits exn.splits)

lemma follow_within: "follow (life pf c r mid payload) q es = Some q' \<Longrightarrow> within c q \<Longrightarrow> within c q'"
  by (induction es arbitrary: q) (auto split: option.splits dest: life_within)

lemma life_attempts:
  assumes "life pf c r mid payload q ev = Some q'" "within c q"
  shows "(if is_handle ev then 1 else 0) + attempts_left (max_retries (c_config c)) q'
     \<le> attempts_left (max_retries (c_config c)) q"
  using assms
  by (auto simp: within_def life_def settle_eq_Some
      split: phase.splits event.splits if_splits sum.splits exn.splits)

lemma follow_attempts:
  assumes "follow (life pf c r mid payload) q es = Some q'" "within c q"
  shows "handles es + attempts_left (max_retries (c_config c)) q' \<le> attempts_left (max_retries (c_config c)) q"
  using follow_measure [where step = "life pf c r mid payload" and ok = "within c", OF _ assms]
    life_within life_attempts by blast

lemma within_first: "within c (first_phase c mid)"
  by (simp add: within_def first_phase_def held_def)

subsection \<open>The failures so far\<close>

text \<open>How many attempts have failed in a phase, and the text of the last failure.\<close>

fun tried :: "phase \<Rightarrow> int option" where
  "tried Fresh = Some 0"
| "tried (Held k s) = Some (k - 1)"
| "tried (Raised k s) = Some k"
| "tried (Noted k s) = Some k"
| "tried (Rested k s) = Some k"
| "tried _ = None"

fun failure_text :: "phase \<Rightarrow> string option" where
  "failure_text Fresh = Some ''None''"
| "failure_text (Held k s) = Some s"
| "failure_text (Raised k s) = Some s"
| "failure_text (Noted k s) = Some s"
| "failure_text (Rested k s) = Some s"
| "failure_text (Spent s) = Some s"
| "failure_text _ = None"

fun last_failure :: "string \<Rightarrow> event list \<Rightarrow> string" where
  "last_failure s [] = s"
| "last_failure s (e # es) = last_failure (case e of
     EvHandle p x \<Rightarrow> (case x of Inl (Exc t s') \<Rightarrow> s' | _ \<Rightarrow> s) | _ \<Rightarrow> s) es"

lemma life_tried:
  assumes "life pf c r mid payload q ev = Some q'" "tried q' = Some i'"
  shows "tried q = Some (i' - (if is_handle ev then 1 else 0))"
  using assms by (auto simp: life_cases split: phase.splits event.splits if_splits sum.splits exn.splits)

lemma follow_tried:
  "follow (life pf c r mid payload) q es = Some q' \<Longrightarrow> tried q' = Some i' \<Longrightarrow>
     tried q = Some (i' - int (handles es))"
proof (induction es arbitrary: q)
  case (Cons e es)
  then obtain q1 where q1: "life pf c r mid payload q e = Some q1"
    and "follow (life pf c r mid payload) q1 es = Some q'"
    by (auto split: option.splits)
  with Cons life_tried [OF q1] show ?case by (auto simp: handles_def split: if_splits)
qed (simp add: handles_def)

lemma life_failure_text:
  assumes "life pf c r mid payload q ev = Some q'" "failure_text q' = Some s'"
  shows "\<exists>s. failure_text q = Some s \<and> last_failure s [ev] = s'"
  using assms by (auto simp: life_cases split: phase.splits event.splits if_splits sum.splits exn.splits)

lemma follow_failure_text:
  "follow (life pf c r mid payload) q es = Some q' \<Longrightarrow> failure_text q' = Some s' \<Longrightarrow>
     \<exists>s. failure_text q = Some s \<and> last_failure s es = s'"
proof (induction es arbitrary: q)
  case (Cons e es)
  then obtain q1 where q1: "life pf c r mid payload q e = Some q1"
    and "follow (life pf c r mid payload) q1 es = Some q'"
    by (auto split: option.splits)
  with Cons obtain s1 where "failure_text q1 = Some s1" "last_failure s1 es = s'" by blast
  with life_failure_text [OF q1, of s1] show ?case by auto
qed simp

lemma first_phase_text [simp]: "failure_text (first_phase c mid) = Some ''None''"
  by (simp add: first_phase_def held_def)

lemma life_into_Spent:
  assumes "life pf c r mid payload q ev = Some (Spent s)" "within c q"
  shows "(\<exists>m k s'. mid = Some m \<and> ev = EvClaim m (Inr False) \<and> q = Rested k s') \<or>
     (\<exists>i. tried q = Some i \<and> i + (if is_handle ev then 1 else 0) = max_retries (c_config c)) \<or>
     max_retries (c_config c) \<le> 0 \<and> \<not> is_handle ev"
  using assms
  by (auto simp: life_cases within_def split: phase.splits event.splits if_splits sum.splits exn.splits)

lemma before_Spent:
  assumes "follow (life pf c r mid payload) (first_phase c mid) es = Some (Spent s)"
  shows "(\<exists>m xs. mid = Some m \<and> xs \<noteq> [] \<and> es = xs @ [EvClaim m (Inr False)]) \<or>
      handles es = nat (max_retries (c_config c))"
  using assms
proof (cases rule: follow_snoc)
  case empty
  then show ?thesis by (auto simp: first_phase_def held_def handles_def split: if_splits)
next
  case (snoc xs e q0)
  have "within c q0" by (rule follow_within [OF snoc(2) within_first])
  from life_into_Spent [OF snoc(3) this] consider
      m k s' where "mid = Some m" "e = EvClaim m (Inr False)" "q0 = Rested k s'"
    | i where "tried q0 = Some i" "i + (if is_handle e then 1 else 0) = max_retries (c_config c)"
    | "max_retries (c_config c) \<le> 0" by blast
  then show ?thesis
  proof cases
    case 1
    then have "xs \<noteq> []" using snoc(2) by (auto simp: first_phase_def held_def split: if_splits)
    with 1 snoc(1) show ?thesis by blast
  next
    case 2
    have "tried (first_phase c mid) = Some j \<Longrightarrow> j = 0" for j
      by (auto simp: first_phase_def held_def split: if_splits)
    with follow_tried [OF snoc(2) 2(1)] have "i = int (handles xs)" by fastforce
    then have "int (handles es) = max_retries (c_config c)"
      using 2(2) by (simp add: snoc(1) handles_def split: if_splits)
    then show ?thesis by linarith
  next
    case 3
    have "attempts_left (max_retries (c_config c)) (first_phase c mid) = 0"
      using 3 by (simp add: first_phase_def)
    with follow_attempts [OF assms within_first] 3 show ?thesis by simp
  qed
qed

lemma last_failure_Spent:
  assumes "follow (life pf c r mid payload) (first_phase c mid) es = Some (Spent s)"
  shows "s = last_failure ''None'' es"
  using follow_failure_text [OF assms, of s] by simp

lemma dlq_payload_json_ok:
  assumes "utf8_ok (cr_topic r)" "\<bar>cr_offset r\<bar> \<le> 2 ^ 63" "\<bar>cr_partition r\<bar> \<le> 2 ^ 63" "utf8_ok err"
  shows "json_ok (dlq_payload r err)"
proof -
  have "json_ok (decoded_value (cr_value r))"
    by (simp add: decoded_value_def utf8_ok_replace split: option.splits)
  then show ?thesis
    using assms by (simp add: int_ok_small dlq_payload_def dict_ok_def utf8_ok_def utf8_decode.simps utf8_next_def)
qed

subsection \<open>The properties\<close>

text \<open>\<open>over pf r res q\<close>: \<open>q\<close> is a phase in which a delivery may end with the result \<open>res\<close>.\<close>

abbreviation over :: "('s, 'u) platform \<Rightarrow> ConsumerRecord \<Rightarrow> unit res \<Rightarrow> phase \<Rightarrow> bool" where
  "over pf r \<equiv> outcome pf r (\<lambda>_ q. q = Committed)"

lemma over_Committed: "over pf r res q \<Longrightarrow> res = Inr () \<longleftrightarrow> q = Committed"
  by (cases res) auto

lemma over_not:
  "over pf r res q \<Longrightarrow> q \<noteq> Fresh \<and> q \<noteq> Lost \<and> q \<noteq> Seen \<and> q \<noteq> Filed \<and> q \<noteq> Sent \<and> q \<noteq> Succeeded v"
  by (cases res) auto

lemma record_history:
  assumes "ready c w" "extract_message_id pf r = Inr mid" "parse_payload pf r = Inr payload"
    and "process_record pf c r w = (res, w')"
  obtains q where "follow (life pf c r mid payload) (first_phase c mid) (calls w w') = Some q"
    "over pf r res q" "ready c w'"
  by (rule tracksD [OF tracks_process_record [OF assms(2,3)] assms(1,4)]) (rule that, auto simp: calls_eq)

text \<open>The history around one of its events.\<close>

lemma record_history_at:
  assumes "ready c w" "extract_message_id pf r = Inr mid" "parse_payload pf r = Inr payload"
    and "process_record pf c r w = (res, w')" "calls w w' = xs @ ev # ys"
  obtains q0 q1 q where "follow (life pf c r mid payload) (first_phase c mid) xs = Some q0"
    "life pf c r mid payload q0 ev = Some q1" "follow (life pf c r mid payload) q1 ys = Some q"
    "over pf r res q"
proof -
  from assms(1-4) obtain q
    where "follow (life pf c r mid payload) (first_phase c mid) (calls w w') = Some q" "over pf r res q"
    by (rule record_history)
  with that assms(5) show ?thesis by (auto elim: follow_split)
qed

lemma follow_Filed:
  assumes "follow (life pf c r mid payload) Filed es = Some q" "q \<noteq> Filed"
  obtains x where "es = [EvCommit x]"
proof (cases es)
  case (Cons e es')
  with assms obtain q1 where q1: "life pf c r mid payload Filed e = Some q1"
    "follow (life pf c r mid payload) q1 es' = Some q" by (auto split: option.splits)
  then obtain x where "e = EvCommit x" "q1 = Committed \<or> q1 = Aborted"
    by (auto simp: life_cases split: event.splits sum.splits)
  with q1 Cons that show ?thesis by (auto dest: follow_final)
qed (use assms in simp)

lemma follow_Succeeded:
  assumes "follow (life pf c r (Some m) payload) (Succeeded v) es = Some q" "m \<noteq> []" "q \<noteq> Succeeded v" "q \<noteq> Filed"
  obtains x where "es = [EvCompleted m v x]" "x = Inl Cancelled" "q = Aborted"
    | x y where "es = [EvCompleted m v x, EvCommit y]" "x \<noteq> Inl Cancelled"
proof (cases es)
  case (Cons e es')
  with assms obtain q1 where q1: "life pf c r (Some m) payload (Succeeded v) e = Some q1"
    "follow (life pf c r (Some m) payload) q1 es' = Some q" by (auto split: option.splits)
  then obtain x where e: "e = EvCompleted m v x" "q1 = (if x = Inl Cancelled then Aborted else Filed)"
    using assms(2) by (auto simp: life_cases nonempty_def split: event.splits if_splits sum.splits)
  show ?thesis
  proof (cases "x = Inl Cancelled")
    case True
    with e q1 Cons that(1) show ?thesis by (auto dest: follow_final)
  next
    case False
    with e q1 assms(4) obtain y where "es' = [EvCommit y]" by (auto elim: follow_Filed)
    with False e Cons that(2) show ?thesis by simp
  qed
qed (use assms in simp)

lemma life_after_success:
  assumes "life pf c r mid payload q ev = Some q'"
    and "q \<in> {Filed, Committed, Aborted} \<or> (\<exists>v. q = Succeeded v)"
  shows "q' \<in> {Filed, Committed, Aborted}"
  using assms by (auto simp: life_cases split: phase.splits event.splits if_splits sum.splits exn.splits)

lemma follow_after_success:
  assumes "follow (life pf c r mid payload) q es = Some q'"
    and "q \<in> {Filed, Committed, Aborted} \<or> (\<exists>v. q = Succeeded v)"
  shows "q' \<in> {Filed, Committed, Aborted} \<or> (\<exists>v. q' = Succeeded v)"
  using assms by (induction es arbitrary: q) (auto split: option.splits dest!: life_after_success)

lemma Spent_no_success:
  assumes "follow (life pf c r mid payload) q es = Some (Spent s)"
  shows "EvHandle p (Inr v) \<notin> set es"
proof
  assume "EvHandle p (Inr v) \<in> set es"
  then obtain xs ys where "es = xs @ EvHandle p (Inr v) # ys" by (meson split_list)
  with assms obtain q0 q1 where q1: "life pf c r mid payload q0 (EvHandle p (Inr v)) = Some q1"
    and "follow (life pf c r mid payload) q1 ys = Some (Spent s)" by (auto elim: follow_split)
  moreover from q1 have "q1 = Succeeded v" by (auto elim: life_handle)
  ultimately show False using follow_after_success by blast
qed

lemma before_Filed:
  assumes "follow (life pf c r (Some m) payload) (first_phase c (Some m)) es = Some Filed"
  obtains xs v y where "es = xs @ [EvHandle payload (Inr v), EvCompleted m v y]"
  using assms
proof (cases rule: follow_snoc)
  case (snoc xs e q0)
  from snoc(3) obtain v y where e: "e = EvCompleted m v y" "q0 = Succeeded v" by (auto elim: life_into_Filed)
  from snoc(2) show ?thesis
  proof (cases rule: follow_snoc)
    case (snoc xs' e' q')
    with e \<open>es = xs @ [e]\<close> that [of xs' v y] show ?thesis by (auto dest: life_into_Succeeded)
  qed (use e in \<open>simp add: first_phase_def\<close>)
qed (simp add: first_phase_def)

lemma before_Seen:
  assumes "follow (life pf c r (Some m) payload) (first_phase c (Some m)) es = Some Seen"
  obtains st where "es = [EvClaim m (Inr False), EvStatus m (Inr st)]"
  using assms
proof (cases rule: follow_snoc)
  case (snoc xs e q0)
  from life_into_Seen [OF snoc(3)] obtain st where e: "e = EvStatus m (Inr st)" "q0 = Lost" by auto
  from snoc(2) show ?thesis
  proof (cases rule: follow_snoc)
    case (snoc xs' e' q')
    with e have e': "e' = EvClaim m (Inr False)" "q' = Fresh" by (auto dest: life_into_Lost)
    from snoc(2) have "xs' = []" by (cases rule: follow_snoc) (auto simp: e' life_into_Fresh)
    with e e' \<open>xs = xs' @ [e']\<close> \<open>es = xs @ [e]\<close> that show ?thesis by simp
  qed (use e in \<open>simp add: first_phase_def\<close>)
qed (simp add: first_phase_def)

lemma before_Sent:
  assumes "follow (life pf c r mid payload) (first_phase c mid) es = Some Sent"
  obtains xs topic body where "es = xs @ [EvSend topic body (cr_key r) (Inr ())]" "c_dlq_topic c = Some topic"
  using assms
proof (cases rule: follow_snoc)
  case empty
  then show ?thesis by (auto simp: first_phase_def held_def split: if_splits)
next
  case (snoc xs e q0)
  with that show ?thesis by (auto elim: life_into_Sent)
qed

text \<open>A committed delivery whose handler ran and never returned ends in the dead-letter topic.\<close>

lemma committed_unhandled:
  assumes "follow (life pf c r (Some m) payload) (first_phase c (Some m)) es = Some Committed" "m \<noteq> []"
    and "nonempty (c_dlq_topic c)" "EvHandle p x \<in> set es" "\<And>p v. EvHandle p (Inr v) \<notin> set es"
  obtains xs topic body where "es = xs @ [EvSend topic body (cr_key r) (Inr ()), EvCommit (Inr ())]"
    "c_dlq_topic c = Some topic" "json_dumps (pf_repr pf) (dlq_payload r (last_failure ''None'' xs)) = Inr body"
  using assms(1)
proof (cases rule: follow_snoc)
  case (snoc before ev q0)
  from life_into_Committed [OF snoc(3)] have ev: "ev = EvCommit (Inr ())" .
  have "q0 \<noteq> Seen"
  proof
    assume "q0 = Seen"
    with snoc(2) obtain st where "before = [EvClaim m (Inr False), EvStatus m (Inr st)]" by (auto elim: before_Seen)
    with assms(4) snoc(1) ev show False by simp
  qed
  moreover have "q0 \<noteq> Filed"
  proof
    assume "q0 = Filed"
    with snoc(2) obtain ys v y where "before = ys @ [EvHandle payload (Inr v), EvCompleted m v y]" by (auto elim: before_Filed)
    with snoc(1) assms(5) [of payload v] show False by simp
  qed
  ultimately have "q0 = Sent" using life_commit(1) [OF snoc(3) [unfolded ev]] assms(2,3) by (auto simp: nonempty_def)
  with snoc(2) obtain xs e q where e: "before = xs @ [e]"
    "follow (life pf c r (Some m) payload) (first_phase c (Some m)) xs = Some q" "life pf c r (Some m) payload q e = Some Sent"
    by (cases rule: follow_snoc) (auto simp: first_phase_def)
  from life_into_Sent [OF e(3)] obtain topic body s where send: "e = EvSend topic body (cr_key r) (Inr ())" "c_dlq_topic c = Some topic"
    "json_dumps (pf_repr pf) (dlq_payload r s) = Inr body" "q = Spent s" by metis
  moreover from e(2) send(4) have "s = last_failure ''None'' xs" by (simp add: last_failure_Spent)
  ultimately show ?thesis using that [of xs topic body] snoc(1) e(1) ev by simp
qed (simp add: first_phase_def)

text \<open>
  C1. The calls \<open>_process_record\<close> makes for one record follow the life cycle \<open>life\<close> from the first call on,
  whatever the store, the broker and the handler answer or raise at each of them, and whatever
  others do in between. It returns exactly when the history ends with the offset committed;
  it raises only where one of its calls raised or the dead-letter message is not JSON.
\<close>

theorem process_record_lifecycle:
  assumes "ready c w" "extract_message_id pf r = Inr mid" "parse_payload pf r = Inr payload"
    and "process_record pf c r w = (res, w')"
  shows "\<exists>q. follow (life pf c r mid payload) (first_phase c mid) (calls w w') = Some q \<and>
     (case res of
        Inr _ \<Rightarrow> q = Committed
      | Inl e \<Rightarrow> q = Aborted \<or> (\<exists>s. q = Spent s \<and> json_dumps (pf_repr pf) (dlq_payload r s) = Inl e))
     \<and> ready c w'"
proof -
  from assms obtain q where "follow (life pf c r mid payload) (first_phase c mid) (calls w w') = Some q"
    "over pf r res q" "ready c w'" by (rule record_history)
  then show ?thesis unfolding outcome_def by blast
qed

theorem process_record_lifecycle_witness:
  "\<exists>q. follow (life (calm (\<lambda>_. [])) (example_consumer 1) example_record (Some ''m'') (PDict []))
     (first_phase (example_consumer 1) (Some ''m'')) (calls (example_world []) (example_after 1 [])) = Some q"
  using process_record_lifecycle [OF example_facts, of 1 "[]"] by blast

text \<open>
  C9. The handler runs at most \<open>max_retries\<close> times for one delivery of a record, and not at all
  when \<open>max_retries\<close> is zero or negative.
\<close>

theorem handled_at_most_max_retries:
  assumes "ready c w" "extract_message_id pf r = Inr mid" "parse_payload pf r = Inr payload"
    and "process_record pf c r w = (res, w')"
  shows "handles (calls w w') \<le> nat (max_retries (c_config c))"
proof -
  from assms obtain q where "follow (life pf c r mid payload) (first_phase c mid) (calls w w') = Some q"
    by (rule record_history)
  from follow_attempts [OF this within_first]
  show ?thesis by (simp add: first_phase_def split: if_splits)
qed

theorem handled_at_most_max_retries_witness:
  "handles (calls (example_world []) (example_after 3 [])) \<le> 3"
  using handled_at_most_max_retries [OF example_facts, of "[]" 3]
  by (simp add: example_consumer_def default_config_def)

text \<open>
  C2. A message with an id is handled only under a claim: the call right before every run of the handler is a
  claim of this id that the store granted, the first attempt and each retry alike; and the
  handler gets the parsed payload.
\<close>

theorem handled_under_claim:
  assumes "ready c w" "extract_message_id pf r = Inr (Some m)" "m \<noteq> []"
    and "parse_payload pf r = Inr payload" "process_record pf c r w = (res, w')"
    and "calls w w' = before @ EvHandle p x # after"
  shows "p = payload \<and> before \<noteq> [] \<and> last before = EvClaim m (Inr True)"
proof -
  obtain q0 q1 where q0: "follow (life pf c r (Some m) payload) (first_phase c (Some m)) before = Some q0"
    and "life pf c r (Some m) payload q0 (EvHandle p x) = Some q1"
    using record_history_at [OF assms(1,2,4,5,6)] by blast
  then obtain k s where held: "q0 = Held k s" "p = payload" by (auto elim: life_handle)
  from q0 show ?thesis
  proof (cases rule: follow_snoc)
    case empty
    with held show ?thesis by (simp add: first_phase_def)
  next
    case (snoc xs e q')
    with life_into_held [of pf c r "Some m" payload q' e k s] assms(3) held show ?thesis
      by (simp add: nonempty_def)
  qed
qed

theorem handled_under_claim_witness:
  "last (take 5 (calls (example_world []) (example_after 1 []))) = EvClaim ''m'' (Inr True)"
  using handled_under_claim [OF example_facts(1,2) _ example_facts(3,4), of "[]" 1
      "take 5 (calls (example_world []) (example_after 1 []))" "PDict []" "Inr (PInt 7)"
      "drop 6 (calls (example_world []) (example_after 1 []))"]
  by (simp add: example_calls_retry [unfolded One_nat_def])

text \<open>
  C6. Success is final. Once the handler has returned \<open>v\<close> it is not run again for this delivery, whatever goes
  wrong afterwards: what follows is the attempt to store \<open>v\<close> as the result and then the commit
  of the offset, also when the store raised an exception; only a cancellation during the
  former stops the latter.
\<close>

theorem success_is_final:
  assumes "ready c w" "extract_message_id pf r = Inr (Some m)" "m \<noteq> []"
    and "parse_payload pf r = Inr payload" "process_record pf c r w = (res, w')"
    and "calls w w' = before @ EvHandle p (Inr v) # after"
  shows "(\<exists>x y. after = [EvCompleted m v x, EvCommit y] \<and> x \<noteq> Inl Cancelled) \<or>
     (after = [EvCompleted m v (Inl Cancelled)] \<and> res \<noteq> Inr ())"
proof -
  obtain q0 q1 q where q1: "life pf c r (Some m) payload q0 (EvHandle p (Inr v)) = Some q1"
    and q: "follow (life pf c r (Some m) payload) q1 after = Some q" "over pf r res q"
    using record_history_at [OF assms(1,2,4,5,6)] by blast
  from q1 have "q1 = Succeeded v" by (auto elim: life_handle)
  with q(1) assms(3) over_not [OF q(2), of v] over_Committed [OF q(2)] show ?thesis
    by (auto elim!: follow_Succeeded)
qed

theorem success_is_final_witness:
  "\<exists>x y. drop 6 (calls (example_world []) (example_after 1 [])) = [EvCompleted ''m'' (PInt 7) x, EvCommit y]"
  using success_is_final [OF example_facts(1,2) _ example_facts(3,4), of "[]" 1
      "take 5 (calls (example_world []) (example_after 1 []))" "PDict []" "PInt 7"
      "drop 6 (calls (example_world []) (example_after 1 []))"]
  by (auto simp: example_calls_retry [unfolded One_nat_def])

text \<open>
  C7. The offset is committed last, once, and only for a reason: the claim was lost and the record of
  the id was read; or the handler returned and the completion was attempted; or the
  dead-letter message was acknowledged; or no dead-letter topic is set and no attempt
  succeeded. \<open>_process_record\<close> returns exactly when this commit did.
\<close>

theorem commit_is_last:
  assumes "ready c w" "extract_message_id pf r = Inr (Some m)" "m \<noteq> []"
    and "parse_payload pf r = Inr payload" "process_record pf c r w = (res, w')"
    and "calls w w' = before @ EvCommit x # after"
  shows "after = [] \<and> (res = Inr () \<longleftrightarrow> x = Inr ()) \<and>
     ((\<exists>st. before = [EvClaim m (Inr False), EvStatus m (Inr st)]) \<or>
      (\<exists>xs v y. before = xs @ [EvHandle payload (Inr v), EvCompleted m v y]) \<or>
      (\<exists>xs topic body. before = xs @ [EvSend topic body (cr_key r) (Inr ())] \<and> c_dlq_topic c = Some topic) \<or>
      (\<not> nonempty (c_dlq_topic c) \<and> (\<forall>p v. EvHandle p (Inr v) \<notin> set before)))"
proof -
  let ?L = "life pf c r (Some m) payload"
  obtain q0 q1 q where q0: "follow ?L (first_phase c (Some m)) before = Some q0"
    and q1: "?L q0 (EvCommit x) = Some q1" and q: "follow ?L q1 after = Some q" "over pf r res q"
    using record_history_at [OF assms(1,2,4,5,6)] by blast
  from life_commit(2) [OF q1] q(1) have fin: "after = []" "q = (case x of Inr _ \<Rightarrow> Committed | Inl _ \<Rightarrow> Aborted)"
    by (auto dest!: follow_final split: sum.splits)
  have "res = Inr () \<longleftrightarrow> x = Inr ()"
    using over_Committed [OF q(2)] fin(2) by (auto split: sum.splits)
  moreover consider "q0 = Seen" | "q0 = Sent" | "q0 = Filed" | s where "q0 = Spent s" "\<not> nonempty (c_dlq_topic c)"
    using life_commit(1) [OF q1] assms(3) by (auto simp: nonempty_def)
  then have "(\<exists>st. before = [EvClaim m (Inr False), EvStatus m (Inr st)]) \<or>
      (\<exists>xs v y. before = xs @ [EvHandle payload (Inr v), EvCompleted m v y]) \<or>
      (\<exists>xs topic body. before = xs @ [EvSend topic body (cr_key r) (Inr ())] \<and> c_dlq_topic c = Some topic) \<or>
      (\<not> nonempty (c_dlq_topic c) \<and> (\<forall>p v. EvHandle p (Inr v) \<notin> set before))"
    by cases (use q0 in \<open>blast elim: before_Seen before_Sent before_Filed dest: Spent_no_success\<close>)+
  ultimately show ?thesis using fin(1) by blast
qed

theorem commit_is_last_witness: "example_result 0 example_lost = Inr ()"
  using commit_is_last [OF example_facts(1,2) _ example_facts(3,4), of example_lost 0
      "butlast (calls (example_world example_lost) (example_after 0 example_lost))" "Inr ()" "[]"]
  by (simp add: example_calls_lost)

text \<open>
  A lost claim means no work: when the store refuses the first claim, the handler is not run and nothing is
  written to the store; the record of the id is read and the offset committed.
\<close>

theorem lost_claim_skips:
  assumes "ready c w" "extract_message_id pf r = Inr (Some m)"
    and "parse_payload pf r = Inr payload" "process_record pf c r w = (res, w')"
    and "calls w w' = EvClaim m (Inr False) # after"
  shows "(\<exists>st y. after = [EvStatus m (Inr st), EvCommit y]) \<or> (\<exists>e. after = [EvStatus m (Inl e)] \<and> res \<noteq> Inr ())"
proof -
  let ?L = "life pf c r (Some m) payload"
  obtain q1 q where q1: "?L Fresh (EvClaim m (Inr False)) = Some q1"
    and q: "follow ?L q1 after = Some q" "over pf r res q"
    by (rule record_history_at [OF assms(1-4), of "[]" "EvClaim m (Inr False)" after])
       (use assms(5) in \<open>auto simp: first_phase_def\<close>)
  from q1 have "q1 = Lost" by (simp add: life_def)
  with q over_not [OF q(2)] obtain e es q2 where e: "after = e # es" "?L Lost e = Some q2" "follow ?L q2 es = Some q"
    by (cases after) (auto split: option.splits)
  then obtain x where x: "e = EvStatus m x" "q2 = (case x of Inr _ \<Rightarrow> Seen | Inl _ \<Rightarrow> Aborted)"
    by (auto simp: life_cases split: event.splits if_splits sum.splits)
  show ?thesis
  proof (cases x)
    case (Inl err)
    with e x over_Committed [OF q(2)] show ?thesis by (auto dest: follow_final)
  next
    case (Inr st)
    with e x q(2) over_not [OF q(2)] obtain e' es' q3 where e': "es = e' # es'" "?L Seen e' = Some q3"
      "follow ?L q3 es' = Some q"
      by (cases es) (auto split: option.splits)
    then obtain y where "e' = EvCommit y" "q3 = Committed \<or> q3 = Aborted"
      by (auto simp: life_cases split: event.splits sum.splits)
    with e x e' Inr show ?thesis by (auto dest: follow_final)
  qed
qed

theorem lost_claim_skips_witness:
  "\<exists>st y. tl (calls (example_world example_lost) (example_after 0 example_lost)) =
     [EvStatus ''m'' (Inr st), EvCommit y]"
  using lost_claim_skips [OF example_facts, of example_lost 0
      "tl (calls (example_world example_lost) (example_after 0 example_lost))"]
  by (auto simp: example_calls_lost)

text \<open>
  C8. A dead letter is sent only after every attempt failed or a retry lost its claim, and never for a message
  that was handled. It goes to the dead-letter topic under the key of the record, and a reader
  that decodes it gets the record's origin, its value and the text of the last failure.
\<close>

theorem dead_letter:
  assumes "ready c w" "extract_message_id pf r = Inr mid"
    and "parse_payload pf r = Inr payload" "process_record pf c r w = (res, w')"
    and "calls w w' = before @ EvSend topic body key x # after"
    and "utf8_ok (cr_topic r)" "\<bar>cr_offset r\<bar> \<le> 2 ^ 63" "\<bar>cr_partition r\<bar> \<le> 2 ^ 63"
    and "utf8_ok (last_failure ''None'' before)"
  shows "c_dlq_topic c = Some topic \<and> key = cr_key r
     \<and> json_loads_bytes body = Inr (PDict
         [(''original_topic'', PStr (cr_topic r)), (''original_offset'', PInt (cr_offset r)),
          (''original_partition'', PInt (cr_partition r)), (''original_value'', decoded_value (cr_value r)),
          (''error'', PStr (last_failure ''None'' before))])
     \<and> (\<forall>p v. EvHandle p (Inr v) \<notin> set before)
     \<and> (handles before = nat (max_retries (c_config c)) \<or>
        (\<exists>m xs. mid = Some m \<and> xs \<noteq> [] \<and> before = xs @ [EvClaim m (Inr False)]))"
proof -
  obtain q0 q1 where q0: "follow (life pf c r mid payload) (first_phase c mid) before = Some q0"
    and "life pf c r mid payload q0 (EvSend topic body key x) = Some q1"
    using record_history_at [OF assms(1-5)] by blast
  then obtain s where s: "q0 = Spent s" "c_dlq_topic c = Some topic" "key = cr_key r"
    and body: "json_dumps (pf_repr pf) (dlq_payload r s) = Inr body"
    by (auto simp: life_def split: phase.splits if_splits)
  note spent = q0 [unfolded s(1)]
  have err: "s = last_failure ''None'' before" by (rule last_failure_Spent [OF spent])
  have "json_ok (dlq_payload r s)" using assms(6-9) err by (intro dlq_payload_json_ok) simp_all
  from loads_dumps [OF this, of "pf_repr pf"] body have "json_loads_bytes body = Inr (dlq_payload r s)" by simp
  then have "json_loads_bytes body = Inr (PDict
         [(''original_topic'', PStr (cr_topic r)), (''original_offset'', PInt (cr_offset r)),
          (''original_partition'', PInt (cr_partition r)), (''original_value'', decoded_value (cr_value r)),
          (''error'', PStr (last_failure ''None'' before))])"
    by (simp add: dlq_payload_def err)
  with s err before_Spent [OF spent] Spent_no_success [OF spent] show ?thesis by blast
qed

theorem dead_letter_witness:
  "json_loads_bytes example_dead_letter = Inr (dlq_payload example_record ''boom'')
     \<and> handles example_failed = 3"
proof -
  have "last_failure ''None'' example_failed = ''boom''" by (simp add: example_failed_def)
  moreover have "utf8_ok ''boom''" "utf8_ok ''orders''" by code_simp+
  ultimately show ?thesis
    using dead_letter [OF example_facts example_calls_failed [simplified append_Cons append_Nil]]
    by (simp add: example_failed_def example_record_def handles_def example_consumer_def default_config_def dlq_payload_def)
qed

lemma follow_Spent:
  assumes "follow (life pf c r mid payload) (Spent s) es = Some q" "nonempty (c_dlq_topic c)" "q \<noteq> Sent"
  obtains "es = []" "q = Spent s"
    | body e where "es = [EvSend (the (c_dlq_topic c)) body (cr_key r) (Inl e)]" "q = Aborted"
    | body y where "es = [EvSend (the (c_dlq_topic c)) body (cr_key r) (Inr ()), EvCommit y]"
proof (cases es)
  case (Cons e es')
  with assms(1) obtain q1 where q1: "life pf c r mid payload (Spent s) e = Some q1" "follow (life pf c r mid payload) q1 es' = Some q"
    by (auto split: option.splits)
  then obtain body x where e: "e = EvSend (the (c_dlq_topic c)) body (cr_key r) x" "q1 = (case x of Inr _ \<Rightarrow> Sent | Inl _ \<Rightarrow> Aborted)"
    using assms(2) by (auto simp: life_cases split: event.splits if_splits sum.splits)
  show ?thesis
  proof (cases x)
    case (Inl err)
    with e q1(2) Cons that(2) show ?thesis by (auto dest: follow_final)
  next
    case (Inr u)
    with e q1(2) assms(3) obtain e' es'' q2 where e': "es' = e' # es''" "life pf c r mid payload Sent e' = Some q2"
      "follow (life pf c r mid payload) q2 es'' = Some q"
      by (cases es') (auto split: option.splits)
    then obtain y where "e' = EvCommit y" "q2 = Committed \<or> q2 = Aborted"
      by (auto simp: life_cases split: event.splits sum.splits)
    with e e' Cons Inr that(3) show ?thesis by (auto dest: follow_final)
  qed
qed (use assms that(1) in simp)

text \<open>
  C12. Losing the claim between two attempts is treated as a failure: when a re-claim is refused, because another consumer has
  taken the message in the meantime or the store's own count of attempts is used up, the handler is not run again; the
  message is sent to the dead-letter topic, and the offset committed, whatever becomes of it elsewhere.
\<close>

theorem lost_reclaim_dead_letters:
  assumes "ready c w" "extract_message_id pf r = Inr (Some m)" "parse_payload pf r = Inr payload"
    and "process_record pf c r w = (res, w')" "calls w w' = before @ EvClaim m (Inr False) # after" "before \<noteq> []"
    and "nonempty (c_dlq_topic c)"
  shows "after = [] \<and> res \<noteq> Inr ()
     \<or> (\<exists>body e. after = [EvSend (the (c_dlq_topic c)) body (cr_key r) (Inl e)] \<and> res \<noteq> Inr ())
     \<or> (\<exists>body y. after = [EvSend (the (c_dlq_topic c)) body (cr_key r) (Inr ()), EvCommit y])"
proof -
  let ?L = "life pf c r (Some m) payload"
  obtain q0 q1 q where q0: "follow ?L (first_phase c (Some m)) before = Some q0" and q1: "?L q0 (EvClaim m (Inr False)) = Some q1"
    and q: "follow ?L q1 after = Some q" "over pf r res q"
    using record_history_at [OF assms(1-5)] by blast
  have "q0 \<noteq> Fresh" using q0 assms(6) by (cases rule: follow_snoc) (auto simp: life_into_Fresh)
  with q1 obtain s where "q1 = Spent s" by (auto simp: life_cases split: phase.splits if_splits)
  with q(1) over_not [OF q(2)] over_Committed [OF q(2)] assms(7) show ?thesis
    by (auto elim!: follow_Spent)
qed

text \<open>Another consumer claims the message during the backoff.\<close>

definition rival :: "(mem_state, nat) platform" where
  "rival = (calm (\<lambda>_. []))\<lparr>pf_sleep := \<lambda>ms (t, s, u). (Inr (), (t + ms * 1000, snd (mem_claim default_config ''m'' t s), u))\<rparr>"

definition rival_run :: "unit res \<times> (mem_state, nat) world" where
  "rival_run = process_record rival (example_consumer 1) example_record (example_world [])"

lemma rival_calls:
  "calls (example_world []) (snd rival_run) =
     [EvClaim ''m'' (Inr True), EvHandle (PDict []) (Inl (Exc ''ValueError'' ''boom'')),
      EvFailed ''m'' ''boom'' 1 (Inr ()), EvSleep 500 (Inr ())] @ EvClaim ''m'' (Inr False) #
     [EvSend ''dlq'' example_dead_letter None (Inr ()), EvCommit (Inr ())]"
  by (simp add: run_simps rival_run_def rival_def example_dead_letter_def example_dumps)
     (simp add: example_record_def)

theorem lost_reclaim_dead_letters_witness:
  "\<exists>body y. drop 5 (calls (example_world []) (snd rival_run)) = [EvSend ''dlq'' body None (Inr ()), EvCommit y]"
proof -
  have run: "process_record rival (example_consumer 1) example_record (example_world []) = (fst rival_run, snd rival_run)"
    by (simp add: rival_run_def)
  have "nonempty (c_dlq_topic (example_consumer 1))" by (simp add: example_consumer_def nonempty_def)
  from lost_reclaim_dead_letters [OF example_ready example_id example_payload run rival_calls _ this]
  show ?thesis by (auto simp: rival_calls example_consumer_def example_record_def)
qed

end
