(* ===== verification/Consumer_Run.thy ===== *)
theory Consumer_Run
  imports Consumer_Safety
begin

section \<open>Starting, running and identifying messages\<close>

text \<open>
  The consumer around \<open>_process_record\<close>: what \<open>start\<close> establishes, what \<open>run\<close> guarantees of the
  records it is delivered, and what \<open>_extract_message_id\<close> finds in a message.
\<close>

subsection \<open>start\<close>

lemma calls_world:
  "ext_call ev f w = (x, w') \<Longrightarrow>
     w_consumer w' = w_consumer w \<and> w_producer w' = w_producer w \<and> w_running w' = w_running w"
  "store_call pf ev' g w = (y, w') \<Longrightarrow>
     w_consumer w' = w_consumer w \<and> w_producer w' = w_producer w \<and> w_running w' = w_running w"
  using world_of_more [of w' w] by (auto dest: ext_call_more store_call_more)

text \<open>
  A consumer whose \<open>start()\<close> returns is ready: connected, running, and with a dead-letter producer
  exactly when a dead-letter topic is set.
\<close>

theorem start_makes_ready:
  assumes "start_consumer pf c w = (Inr (), w')" "\<not> w_producer w"
  shows "ready c w'"
proof -
  have connect: "w_consumer w2 = w_consumer w1 \<and> w_producer w2 = w_producer w1"
    if "(case op_connect (c_store c) of Some conn \<Rightarrow> store_call pf EvStart conn | None \<Rightarrow> ret ()) w1 = (x, w2)"
    for w1 :: "('a, 'b) world" and x w2
    using that by (auto simp: ret_def dest: calls_world(2) split: option.splits)
  show ?thesis
    using assms unfolding start_consumer_def
    by (auto simp: ready_def modify_def when_eff_def ret_def
        dest!: calls_world(1) connect elim!: bind_eff_cases split: if_splits)
qed

theorem start_makes_ready_witness:
  "ready (example_consumer 0) (snd (start_consumer (calm (\<lambda>_. [])) (example_consumer 0)
     ((example_world [])\<lparr>w_producer := False\<rparr>)))"
  by (rule start_makes_ready [where pf = "calm (\<lambda>_. [])" and w = "(example_world [])\<lparr>w_producer := False\<rparr>"])
     (simp_all add: start_consumer_def run_simps)

subsection \<open>run\<close>

definition commits :: "event list \<Rightarrow> nat" where
  "commits es = length (filter (\<lambda>e. e = EvCommit (Inr ())) es)"

lemma commits_append [simp]: "commits (xs @ ys) = commits xs + commits ys"
  by (simp add: commits_def)

text \<open>The records that arrive before \<open>stop()\<close>.\<close>

fun delivered :: "poll list \<Rightarrow> ConsumerRecord list" where
  "delivered [] = []"
| "delivered ((stopped, x) # ds) = (case x of Inl e \<Rightarrow> [] | Inr r \<Rightarrow> if stopped then [] else r # delivered ds)"

text \<open>What the iteration raises, if it does so before \<open>run\<close> leaves the loop.\<close>

fun poll_error :: "poll list \<Rightarrow> exn option" where
  "poll_error [] = None"
| "poll_error ((stopped, x) # ds) = (case x of Inl e \<Rightarrow> Some e | Inr r \<Rightarrow> if stopped then None else poll_error ds)"

lemma life_commits:
  assumes "life pf c r mid payload q ev = Some q'"
  shows "ev = EvCommit (Inr ()) \<longleftrightarrow> q' = Committed"
  using assms by (auto simp: life_cases split: phase.splits event.splits if_splits sum.splits exn.splits)

lemma follow_commits:
  "follow (life pf c r mid payload) q es = Some q' \<Longrightarrow> q \<noteq> Committed \<Longrightarrow>
     commits es = (if q' = Committed then 1 else 0)"
proof (induction es arbitrary: q)
  case (Cons e es)
  then obtain q1 where q1: "life pf c r mid payload q e = Some q1"
    and rest: "follow (life pf c r mid payload) q1 es = Some q'"
    by (auto split: option.splits)
  show ?case
  proof (cases "q1 = Committed")
    case True
    with follow_final [OF rest] life_commits [OF q1] show ?thesis by (simp add: commits_def)
  next
    case False
    with Cons.IH [OF rest] life_commits [OF q1] show ?thesis by (simp add: commits_def)
  qed
qed (simp add: commits_def)

lemma process_record_commits:
  assumes w: "ready c w" and payload: "parse_payload pf r = Inr payload"
    and run: "process_record pf c r w = (res, w')"
  obtains es where "rt_trace w' = rt_trace w @ es" "ready c w'"
    "commits es = (if res = Inr () then 1 else 0)"
proof (cases "extract_message_id pf r")
  case (Inl e)
  with run have "w' = w" "res = Inl e" by (simp_all add: process_record_def raise_def)
  with w that [of "[]"] show ?thesis by (simp add: commits_def)
next
  case (Inr mid)
  from tracks_process_record [OF Inr payload] w run obtain es q
    where es: "ready c w'" "rt_trace w' = rt_trace w @ es"
      "follow (life pf c r mid payload) (first_phase c mid) es = Some q" "over pf r res q"
    by (rule tracksD)
  moreover have "first_phase c mid \<noteq> Committed" by (simp add: first_phase_def held_def)
  ultimately show ?thesis
    using that [of es] follow_commits [OF es(3)] over_Committed [OF es(4)] by simp
qed

lemma run_loop_commits:
  "ready c w \<Longrightarrow> \<forall>r \<in> set (delivered ds). \<exists>payload. parse_payload pf r = Inr payload \<Longrightarrow>
   run_loop pf c ds w = (res, w') \<Longrightarrow> \<exists>es. rt_trace w' = rt_trace w @ es \<and>
     commits es \<le> length (delivered ds) \<and> (res = Inr () \<longleftrightarrow> commits es = length (delivered ds) \<and> poll_error ds = None)
     \<and> (commits es = length (delivered ds) \<longrightarrow> res = (case poll_error ds of None \<Rightarrow> Inr () | Some e \<Rightarrow> Inl e))"
proof (induction ds arbitrary: w)
  case Nil
  then show ?case by (simp add: ret_def commits_def)
next
  case (Cons d ds)
  obtain stopped x where d: "d = (stopped, x)" by (cases d)
  show ?case
  proof (cases x)
    case (Inl e)
    with Cons.prems(3) d show ?thesis by (cases stopped) (auto simp: bind_eff_def modify_def raise_def commits_def)
  next
    case (Inr r)
    show ?thesis
    proof (cases stopped)
      case True
      with Cons.prems(3) d Inr show ?thesis by (auto simp: bind_eff_def modify_def commits_def)
    next
      case False
      with Cons.prems d Inr have "bind_eff (process_record pf c r) (\<lambda>_. run_loop pf c ds) w = (res, w')"
        by (simp add: bind_eff_def modify_def ready_def)
      moreover obtain payload where payload: "parse_payload pf r = Inr payload"
        using Cons.prems(2) d Inr False by auto
      ultimately show ?thesis
      proof (cases rule: bind_eff_cases)
        case (exn e)
        from Cons.prems(1) payload exn(1) obtain es where
          "rt_trace w' = rt_trace w @ es" "commits es = 0"
          by (rule process_record_commits) simp
        with exn False d Inr show ?thesis by auto
      next
        case (ok y w1)
        from Cons.prems(1) payload ok(1) obtain es where
          es: "rt_trace w1 = rt_trace w @ es" "ready c w1" "commits es = 1"
          by (rule process_record_commits) simp
        from Cons.IH [OF es(2) _ ok(2)] Cons.prems(2) d Inr False obtain es' where
          "rt_trace w' = rt_trace w1 @ es'" "commits es' \<le> length (delivered ds)"
          "res = Inr () \<longleftrightarrow> commits es' = length (delivered ds) \<and> poll_error ds = None"
          "commits es' = length (delivered ds) \<longrightarrow> res = (case poll_error ds of None \<Rightarrow> Inr () | Some e \<Rightarrow> Inl e)" by auto
        with es False d Inr show ?thesis by (intro exI [of _ "es @ es'"]) auto
      qed
    qed
  qed
qed

text \<open>
  C24. \<open>run()\<close> commits record by record: when the payload of every delivered record can be parsed, it returns exactly when the
  offset of every record delivered before \<open>stop()\<close> was committed, once each, and waiting for the next record raised nothing. When
  all of them were committed and the wait raised (a cancellation at shutdown, an error of the Kafka client), \<open>run()\<close> raises that.
  When it raises anything else, some delivered record was not committed; no later record is looked at.
\<close>

theorem run_commits_each:
  assumes "ready c w" "\<forall>r \<in> set (delivered ds). \<exists>payload. parse_payload pf r = Inr payload"
    and "run_consumer pf c ds w = (res, w')"
  shows "commits (calls w w') \<le> length (delivered ds)
     \<and> (res = Inr () \<longleftrightarrow> commits (calls w w') = length (delivered ds) \<and> poll_error ds = None)
     \<and> (commits (calls w w') = length (delivered ds) \<longrightarrow> res = (case poll_error ds of None \<Rightarrow> Inr () | Some e \<Rightarrow> Inl e))"
proof -
  have "run_loop pf c ds w = (res, w')"
    using assms(1,3) by (simp add: run_consumer_def ready_def)
  from run_loop_commits [OF assms(1,2) this] show ?thesis by (auto simp: calls_eq)
qed

definition example_polls :: "poll list" where
  "example_polls = [(False, Inr example_record), (False, Inl Cancelled), (False, Inr example_record)]"

theorem run_commits_each_witness:
  "fst (run_consumer (calm (\<lambda>_. [])) (example_consumer 0) example_polls (example_world [])) \<noteq> Inr ()
   \<and> commits (calls (example_world []) (snd (run_consumer (calm (\<lambda>_. [])) (example_consumer 0) example_polls (example_world [])))) \<le> 1"
  using run_commits_each [OF example_ready, of example_polls "calm (\<lambda>_. [])" 0, OF _ surjective_pairing]
  by (simp add: example_payload example_polls_def)

subsection \<open>The message id\<close>

text \<open>
  A message published as a JSON object without an id header carries the id of its \<open>message_id\<close> field, or else of
  its \<open>id\<close> field, as text; the handler gets the object itself.
\<close>

theorem published_message:
  assumes "json_ok (PDict d)" "header_id (cr_headers r) = None"
    and "cr_value r = Some (dump_text rp' (PDict d))" "\<And>site. \<not> pf_overflows pf site (dump_text rp' (PDict d))"
  shows "extract_message_id pf r =
      (let v = py_or (dict_get ''message_id'' d) (dict_get ''id'' d)
       in Inr (if truthy v then Some (py_str (pf_repr pf) v) else None))
     \<and> parse_payload pf r = Inr (PDict d)"
proof -
  have "dump_text rp' (PDict d) \<noteq> []" by simp
  moreover have "json_loads_bytes (dump_text rp' (PDict d)) = Inr (PDict d)"
    using loads_dumps [OF assms(1)] by blast
  ultimately show ?thesis
    using assms(2-4) by (simp add: extract_message_id_def parse_payload_def loads_def del: dump_text.simps)
qed

definition example_body :: "(string, pyval) dict" where
  "example_body = [(''id'', PInt 5), (''message_id'', PStr [])]"

theorem published_message_witness:
  "extract_message_id (calm (\<lambda>_. []) :: (mem_state, nat) platform) (example_record\<lparr>cr_headers := [(''k'', None)],
     cr_value := Some (dump_text (\<lambda>_. []) (PDict example_body))\<rparr>) = Inr (Some ''5'')"
proof -
  have "json_ok (PDict example_body)" by code_simp
  moreover have "(let v = py_or (dict_get ''message_id'' example_body) (dict_get ''id'' example_body)
      in Inr (if truthy v then Some (py_str (\<lambda>_. []) v) else None)) = (Inr (Some ''5'') :: string option res)"
    by code_simp
  ultimately show ?thesis
    using published_message [of example_body "example_record\<lparr>cr_headers := [(''k'', None)],
       cr_value := Some (dump_text (\<lambda>_. []) (PDict example_body))\<rparr>" "\<lambda>_. []" "calm (\<lambda>_. []) :: (mem_state, nat) platform"]
    unfolding calm_texts by (simp del: dump_text.simps)
qed

text \<open>
  The id header has precedence over the body: the first \<open>X-Message-Id\<close> header with a value decides, whatever the
  body holds. When its bytes are no UTF-8 text, processing the record raises before any call, so it
  is neither handled, nor sent to the dead-letter queue, nor committed.
\<close>

theorem header_decides:
  "case header_id (cr_headers r) of
     None \<Rightarrow> True
   | Some v \<Rightarrow>
       if utf8_ok v then extract_message_id pf r = Inr (Some v)
       else process_record pf c r w = (Inl UnicodeDecodeError, w)"
  by (simp add: extract_message_id_def process_record_def raise_def split: option.splits)

lemma json_error:
  assumes "json_loads_bytes b = Inl e"
  shows "e = JSONDecodeError \<or> e = UnicodeDecodeError \<or> e = Exc ''ValueError'' []"
proof -
  have "exn_of_jerr e' \<in> {JSONDecodeError, Exc ''ValueError'' []}" if "scan_document s = Inl e'" for e' s
    using that scan_document_fuel [of s] by (cases e') (auto simp: exn_of_jerr_def)
  with assms show ?thesis by (auto simp: json_loads_bytes_def split: option.splits sum.splits)
qed

lemma exceptions_differ:
  "RecursionError \<noteq> JSONDecodeError" "RecursionError \<noteq> UnicodeDecodeError" "Exc ''ValueError'' [] \<noteq> JSONDecodeError"
  "Exc ''ValueError'' [] \<noteq> UnicodeDecodeError"
  by (simp_all add: RecursionError_def JSONDecodeError_def UnicodeDecodeError_def)

lemma process_record_id_error: "extract_message_id pf r = Inl e \<Longrightarrow> process_record pf c r w = (Inl e, w)"
  by (simp add: process_record_def raise_def)

lemma extract_errors:
  assumes "extract_message_id pf r = Inl e"
  shows "case header_id (cr_headers r) of
      None \<Rightarrow> (\<exists>b. cr_value r = Some b \<and>
        (if pf_overflows pf For_id b then e = RecursionError else e = Exc ''ValueError'' [] \<and> json_loads_bytes b = Inl e))
    | Some v \<Rightarrow> e = UnicodeDecodeError \<and> utf8_ok v = False"
proof (cases "header_id (cr_headers r)")
  case None
  then obtain b where b: "cr_value r = Some b" "b \<noteq> []"
    using assms by (auto simp: extract_message_id_def split: option.splits if_splits)
  show ?thesis
  proof (cases "loads pf For_id b")
    case (Inl e')
    then have "e = e'" "e \<noteq> JSONDecodeError" "e \<noteq> UnicodeDecodeError"
      using assms None b by (auto simp: extract_message_id_def split: if_splits)
    with Inl None b json_error [of b e] show ?thesis by (auto simp: loads_def split: if_splits)
  next
    case (Inr v)
    then show ?thesis using assms None b by (cases v) (simp_all add: extract_message_id_def Let_def)
  qed
next
  case (Some v)
  then show ?thesis using assms by (simp add: extract_message_id_def split: if_splits)
qed

text \<open>
  C39. Finding the id and parsing the payload come to an end on every record, with these results. An empty value is an empty object,
  a value that is JSON the value it denotes, one that is not JSON or not text a \<open>raw\<close> payload; but when the text is nested
  too deeply for the interpreter's stack, parsing raises \<open>RecursionError\<close>, and on an integer with too many digits \<open>ValueError\<close>. Finding
  the id raises only these two, for the same causes, or the \<open>UnicodeDecodeError\<close> of an id header that is not UTF-8; processing the
  record then raises the same, before any call.
\<close>

theorem parsing_total:
  "(case cr_value r of
      None \<Rightarrow> parse_payload pf r = Inr (PDict [])
    | Some b \<Rightarrow>
        if b = [] then parse_payload pf r = Inr (PDict [])
        else if pf_overflows pf For_payload b then parse_payload pf r = Inl RecursionError
        else (case json_loads_bytes b of
            Inr v \<Rightarrow> parse_payload pf r = Inr v
          | Inl e \<Rightarrow> parse_payload pf r =
              (if e = Exc ''ValueError'' [] then Inl e else Inr (PDict [(''raw'', PBytes b)])))) \<and>
   (case extract_message_id pf r of
      Inr mid \<Rightarrow> True
    | Inl e \<Rightarrow> process_record pf c r w = (Inl e, w) \<and> (case header_id (cr_headers r) of
          None \<Rightarrow> (\<exists>b. cr_value r = Some b \<and>
            (if pf_overflows pf For_id b then e = RecursionError else e = Exc ''ValueError'' [] \<and> json_loads_bytes b = Inl e))
        | Some v \<Rightarrow> e = UnicodeDecodeError \<and> utf8_ok v = False))"
proof
  show "case cr_value r of
      None \<Rightarrow> parse_payload pf r = Inr (PDict [])
    | Some b \<Rightarrow>
        if b = [] then parse_payload pf r = Inr (PDict [])
        else if pf_overflows pf For_payload b then parse_payload pf r = Inl RecursionError
        else (case json_loads_bytes b of
            Inr v \<Rightarrow> parse_payload pf r = Inr v
          | Inl e \<Rightarrow> parse_payload pf r =
              (if e = Exc ''ValueError'' [] then Inl e else Inr (PDict [(''raw'', PBytes b)])))"
    by (auto simp: parse_payload_def loads_def exceptions_differ split: option.splits sum.splits dest!: json_error)
  show "case extract_message_id pf r of
      Inr mid \<Rightarrow> True
    | Inl e \<Rightarrow> process_record pf c r w = (Inl e, w) \<and> (case header_id (cr_headers r) of
          None \<Rightarrow> (\<exists>b. cr_value r = Some b \<and>
            (if pf_overflows pf For_id b then e = RecursionError else e = Exc ''ValueError'' [] \<and> json_loads_bytes b = Inl e))
        | Some v \<Rightarrow> e = UnicodeDecodeError \<and> utf8_ok v = False)"
    using process_record_id_error [of pf r _ c w] extract_errors [of pf r]
    by (cases "extract_message_id pf r") simp_all
qed

end
