(* ===== verification/Carry.thy ===== *)
theory Carry
  imports Lifecycle
begin

section \<open>Carrying a predicate through a delivery\<close>

text \<open>
  \<open>preserves I m\<close>: the code \<open>m\<close> keeps the predicate \<open>I\<close> of the state, whether it returns or raises. A predicate that every call
  the consumer makes keeps, and that does not look at the metrics (\<open>carries\<close>), is kept by all of \<open>process_record\<close>.
\<close>

definition preserves :: "('w \<Rightarrow> bool) \<Rightarrow> ('w, 'a) eff \<Rightarrow> bool" where
  "preserves I m \<longleftrightarrow> (\<forall>w. I w \<longrightarrow> I (snd (m w)))"

lemma preservesD: "preserves I m \<Longrightarrow> I w \<Longrightarrow> m w = (r, w') \<Longrightarrow> I w'"
  unfolding preserves_def by (metis snd_conv)

lemma preservesI: "(\<And>w r w'. I w \<Longrightarrow> m w = (r, w') \<Longrightarrow> I w') \<Longrightarrow> preserves I m"
  unfolding preserves_def by (metis prod.collapse)

named_theorems preserving "rules that carry a predicate of the state through the code"

lemma preserves_ret [preserving]: "preserves I (ret x)"
  by (simp add: preserves_def ret_def)

lemma preserves_raise [preserving]: "preserves I (raise e)"
  by (simp add: preserves_def raise_def)

lemma preserves_bind [preserving]: "preserves I m \<Longrightarrow> (\<And>x. preserves I (k x)) \<Longrightarrow> preserves I (bind_eff m k)"
  by (auto intro!: preservesI elim!: bind_eff_cases dest: preservesD)

lemma preserves_catch [preserving]: "preserves I m \<Longrightarrow> preserves I (catch_exc m)"
  by (auto simp: preserves_def catch_exc_def split: prod.splits sum.splits exn.splits)

lemma preserves_try [preserving]: "preserves I m \<Longrightarrow> (\<And>e. preserves I (h e)) \<Longrightarrow> preserves I (try_except m h)"
  unfolding try_except_catch by (auto intro!: preserving split: sum.splits)

lemma preserves_finally: "preserves I m \<Longrightarrow> (\<And>w. I w \<Longrightarrow> I (f w)) \<Longrightarrow> preserves I (try_finally m f)"
  by (auto simp: preserves_def try_finally_def split: prod.splits)

lemma preserves_when [preserving]: "preserves I m \<Longrightarrow> preserves I (when_eff b m)"
  by (simp add: when_eff_def preserves_ret)

lemma preserves_if [preserving]: "preserves I a \<Longrightarrow> preserves I b \<Longrightarrow> preserves I (if p then a else b)"
  by simp

lemma preserves_metric:
  assumes "\<And>w x. I (w\<lparr>w_metrics := x\<rparr>) = I (w :: ('s, 'u) world)"
  shows "preserves I (metric f)"
  by (simp add: preserves_def metric_def modify_def assms)

lemma preserves_measured:
  assumes same: "\<And>w x. I (w\<lparr>w_metrics := x\<rparr>) = I (w :: ('s, 'u) world)" and act: "preserves I act"
  shows "preserves I (measure_store_op operation act)" "preserves I (measure_processing topic act)"
proof -
  show "preserves I (measure_store_op operation act)"
    using act by (auto simp: preserves_def measure_store_op_def try_finally_def same split: prod.splits)
  show "preserves I (measure_processing topic act)"
  proof (rule preservesI)
    fix w r w' assume "I w" and run: "measure_processing topic act w = (r, w')"
    then have w: "I (w\<lparr>w_metrics := enter_processing topic (w_metrics w)\<rparr>)" by (simp add: same)
    obtain y w1 where a: "act (w\<lparr>w_metrics := enter_processing topic (w_metrics w)\<rparr>) = (y, w1)"
      by (cases "act (w\<lparr>w_metrics := enter_processing topic (w_metrics w)\<rparr>)")
    have "I w1" by (rule preservesD [OF act w a])
    then show "I w'" using run by (auto simp: measure_processing_def try_finally_def a same)
  qed
qed

subsection \<open>The calls of the consumer\<close>

definition carries :: "(('s, 'u) world \<Rightarrow> bool) \<Rightarrow> ('s, 'u) platform \<Rightarrow> ('s, 'u) consumer \<Rightarrow> bool" where
  "carries I pf c \<longleftrightarrow> (\<forall>w x. I (w\<lparr>w_metrics := x\<rparr>) = I w)
     \<and> (\<forall>k. preserves I (store_call pf (EvClaim k) (op_claim (c_store c) k)))
     \<and> (\<forall>k. preserves I (store_call pf (EvStatus k) (op_get_status (c_store c) k)))
     \<and> (\<forall>k e n. preserves I (store_call pf (EvFailed k e n) (op_mark_failed (c_store c) k e n)))
     \<and> (\<forall>k v. preserves I (store_call pf (EvCompleted k v) (op_mark_completed (c_store c) k v)))
     \<and> (\<forall>p. preserves I (ext_call (EvHandle p) (c_handle c p)))
     \<and> preserves I (ext_call EvCommit (pf_commit pf))
     \<and> (\<forall>d. preserves I (ext_call (EvSleep d) (pf_sleep pf d)))
     \<and> (\<forall>t v k. preserves I (ext_call (EvSend t v k) (pf_send pf t v k)))"

lemma carriesD:
  assumes "carries I pf c"
  shows "\<And>w x. I (w\<lparr>w_metrics := x\<rparr>) = I w"
    "\<And>k. preserves I (store_claim pf c k)" "\<And>k. preserves I (store_get_status pf c k)"
    "\<And>k e n. preserves I (store_mark_failed pf c k e n)" "\<And>k v. preserves I (store_mark_completed pf c k v)"
    "\<And>p. preserves I (call_handle c p)" "\<And>d. preserves I (ext_call (EvSleep d) (pf_sleep pf d))"
    "\<And>r. preserves I (commit_offset pf c r)" "\<And>r s. preserves I (send_to_dlq pf c r s)"
proof -
  have same: "\<And>w x. I (w\<lparr>w_metrics := x\<rparr>) = I w" using assms by (simp add: carries_def)
  show "\<And>w x. I (w\<lparr>w_metrics := x\<rparr>) = I w" by (rule same)
  show "preserves I (store_claim pf c k)" "preserves I (store_get_status pf c k)"
    "preserves I (store_mark_failed pf c k e n)" "preserves I (store_mark_completed pf c k v)" for k e n v
    unfolding store_claim_def store_get_status_def store_mark_failed_def store_mark_completed_def
    by (intro preserves_measured(1) same; use assms in \<open>simp add: carries_def\<close>)+
  show "preserves I (call_handle c p)" "preserves I (ext_call (EvSleep d) (pf_sleep pf d))" for p d
    using assms by (simp_all add: carries_def call_handle_def)
  have commit: "preserves I (ext_call EvCommit (pf_commit pf))" using assms by (simp add: carries_def)
  then show "preserves I (commit_offset pf c r)" for r
    by (auto simp: preserves_def commit_offset_def)
  have send: "preserves I (ext_call (EvSend t v k) (pf_send pf t v k))" for t v k using assms by (simp add: carries_def)
  then show "preserves I (send_to_dlq pf c r s)" for r s
    by (auto simp: preserves_def send_to_dlq_def split: option.splits sum.splits)
qed

lemma preserves_complete: "carries I pf c \<Longrightarrow> preserves I (complete pf c r mid v)"
  unfolding complete_def by (intro preserving preserves_metric carriesD)

lemma preserves_on_failure: "carries I pf c \<Longrightarrow> preserves I (on_failure pf c r mid k e)"
  unfolding on_failure_def Let_def by (intro preserving preserves_metric carriesD)

lemma preserves_loop: "carries I pf c \<Longrightarrow> preserves I (execute_loop pf c r mid payload k e)"
proof (induction pf c r mid payload k e rule: execute_loop.induct)
  case (1 pf c r mid payload k e)
  show ?case
  proof (cases "k \<le> max_retries (c_config c)")
    case True
    have again: "preserves I (if b then execute_loop pf c r mid payload (k + 1) (Some x) else ret (Exhausted (Some x)))"
      for b x using 1(1) [OF True, of b x] 1(2) by (cases b) (auto intro: preserving)
    have "preserves I (case y of
          Inr result \<Rightarrow> bind_eff (complete pf c r mid result) (\<lambda>_. ret Done)
        | Inl exc \<Rightarrow> bind_eff (on_failure pf c r mid k exc) (\<lambda>again.
            if again then execute_loop pf c r mid payload (k + 1) (Some exc) else ret (Exhausted (Some exc))))" for y
      using 1(2) by (cases y) (auto intro!: preserves_bind preserves_complete preserves_on_failure preserves_ret again)
    then show ?thesis
      using True carriesD(6) [OF 1(2)] by (simp only: execute_loop.simps [of pf c r mid payload k] if_True)
        (intro preserves_bind preserves_catch)
  next
    case False
    then show ?thesis by (simp add: execute_loop.simps [of pf c r mid payload k] preserves_ret)
  qed
qed

lemma preserves_process_record:
  assumes "carries I pf c"
  shows "preserves I (process_record pf c r)"
proof -
  note calls = carriesD [OF assms] preserves_loop [OF assms]
  note metrics = preserves_metric [of I, OF carriesD(1) [OF assms]] preserves_measured(2) [of I, OF carriesD(1) [OF assms]]
  have exec: "preserves I (execute_and_commit pf c r mid)" for mid
    unfolding execute_and_commit_def
    by (cases "parse_payload pf r") (auto intro!: preserving metrics calls split: loop_exit.splits)
  show ?thesis
    unfolding process_record_def
    by (cases "extract_message_id pf r")
       (auto intro!: preserves_bind metrics preserves_raise preserves_if calls exec split: option.splits)
qed

subsection \<open>An account of the store\<close>

text \<open>
  What the store must hold can be read off the history of calls: \<open>read\<close> goes through the events from the state \<open>init\<close>, and
  \<open>holds z\<close> says what the store looks like when the account has come to \<open>z\<close>. An account is \<open>truthful\<close> while what it says of the
  calls since the \<open>n\<close>-th is true. A store method logged as \<open>ev\<close> keeps it so if it \<open>tells\<close>; what happens outside during a call must be
  a \<open>move\<close> that leaves true what was true, and calls that are not to the store say nothing.
\<close>

definition truthful ::
    "('q \<Rightarrow> event \<Rightarrow> 'q) \<Rightarrow> 'q \<Rightarrow> ('q \<Rightarrow> 's \<Rightarrow> bool) \<Rightarrow> nat \<Rightarrow> ('s, 'u) world \<Rightarrow> bool" where
  "truthful read init holds n w \<longleftrightarrow>
     n \<le> length (rt_trace w) \<and> holds (foldl read init (drop n (rt_trace w))) (rt_store w)"

definition tells :: "('q \<Rightarrow> event \<Rightarrow> 'q) \<Rightarrow> ('q \<Rightarrow> 's \<Rightarrow> bool) \<Rightarrow> (int \<Rightarrow> ('s, 'a) eff) \<Rightarrow> ('a res \<Rightarrow> event) \<Rightarrow> bool" where
  "tells read holds f ev \<longleftrightarrow> (\<forall>t s r s' z. f t s = (r, s') \<longrightarrow> holds z s \<longrightarrow> holds (read z (ev r)) s')"

definition moves_by :: "(('s, 'u) outside \<Rightarrow> ('s, 'u) outside \<Rightarrow> bool) \<Rightarrow> ('s, 'u) platform \<Rightarrow> ('s, 'u) consumer \<Rightarrow> bool" where
  "moves_by move pf c \<longleftrightarrow> (\<forall>x. move x (pf_lag pf x) \<and> move x (snd (pf_commit pf x))
     \<and> (\<forall>d. move x (snd (pf_sleep pf d x))) \<and> (\<forall>t v k. move x (snd (pf_send pf t v k x)))
     \<and> (\<forall>p. move x (snd (c_handle c p x))))"

lemma tellsI: "(\<And>t s r s' z. f t s = (r, s') \<Longrightarrow> holds z s \<Longrightarrow> holds (read z (ev r)) s') \<Longrightarrow> tells read holds f ev"
  unfolding tells_def by blast

lemma moves_byD:
  assumes "moves_by move pf c"
  shows "\<And>x. move x (pf_lag pf x)" "\<And>x. move x (snd (pf_commit pf x))"
    "\<And>d x. move x (snd (pf_sleep pf d x))" "\<And>t v k x. move x (snd (pf_send pf t v k x))"
    "\<And>p x. move x (snd (c_handle c p x))"
  using assms unfolding moves_by_def by blast+

locale account =
  fixes read :: "'q \<Rightarrow> event \<Rightarrow> 'q"
    and init :: 'q
    and holds :: "'q \<Rightarrow> 's \<Rightarrow> bool"
    and move :: "('s, 'u) outside \<Rightarrow> ('s, 'u) outside \<Rightarrow> bool"
  assumes init_holds: "holds init s"
    and move_holds: "move (t, s, u) (t', s', u') \<Longrightarrow> holds z s \<Longrightarrow> holds z s'"
    and silent: "read z (EvHandle p x) = z" "read z (EvCommit y) = z" "read z (EvSleep d y) = z" "read z (EvSend to v k y) = z"
begin

lemma truthful_now: "truthful read init holds (length (rt_trace w)) w"
  by (simp add: truthful_def init_holds)

lemma truthful_event:
  assumes "truthful read init holds n w" "holds (read (foldl read init (drop n (rt_trace w))) ev) s"
  shows "truthful read init holds n (log_event ev (set_outside (t, s, u) w))"
  using assms by (simp add: truthful_def) (simp add: log_event_def set_outside_def)

lemma truthful_moved:
  "truthful read init holds n w \<Longrightarrow> move (outside w) (t, s, u) \<Longrightarrow> holds (foldl read init (drop n (rt_trace w))) s"
  by (auto simp: truthful_def outside_def dest: move_holds)

lemma truthful_store_call:
  assumes "tells read holds f ev" "\<And>x. move x (pf_lag pf x)"
  shows "preserves (truthful read init holds n) (store_call pf ev f)"
proof (rule preservesI)
  fix w r w' assume w: "truthful read init holds n w" and run: "store_call pf ev f w = (r, w')"
  obtain t s u where lag: "pf_lag pf (outside w) = (t, s, u)" by (cases "pf_lag pf (outside w)")
  obtain y s' where f: "f t s = (y, s')" by (cases "f t s")
  have "holds (foldl read init (drop n (rt_trace w))) s" using truthful_moved [OF w] assms(2) lag by metis
  then have "holds (read (foldl read init (drop n (rt_trace w))) (ev y)) s'" using assms(1) f unfolding tells_def by blast
  then show "truthful read init holds n w'"
    using truthful_event [OF w, of "ev y" s' t u] run by (auto simp: store_call_def lag f)
qed

lemma truthful_ext_call:
  assumes "\<And>x. move x (snd (f x))" "\<And>z y. read z (ev y) = z"
  shows "preserves (truthful read init holds n) (ext_call ev f)"
proof (rule preservesI)
  fix w r w' assume w: "truthful read init holds n w" and run: "ext_call ev f w = (r, w')"
  obtain y t s u where f: "f (outside w) = (y, (t, s, u))" by (cases "f (outside w)") auto
  have "move (outside w) (t, s, u)" using assms(1) [of "outside w"] f by simp
  from truthful_moved [OF w this] show "truthful read init holds n w'"
    using truthful_event [OF w, of "ev y" s t u] run assms(2) by (auto simp: ext_call_def f)
qed

text \<open>A delivery ends with a store as its own calls say.\<close>

lemma delivery_account:
  assumes "moves_by move pf c"
    and "\<And>k. tells read holds (op_claim (c_store c) k) (EvClaim k)" "\<And>k. tells read holds (op_get_status (c_store c) k) (EvStatus k)"
    and "\<And>k e j. tells read holds (op_mark_failed (c_store c) k e j) (EvFailed k e j)"
    and "\<And>k v. tells read holds (op_mark_completed (c_store c) k v) (EvCompleted k v)"
    and "process_record pf c r w = (res, w')"
  shows "holds (foldl read init (calls w w')) (rt_store w')"
proof -
  have "carries (truthful read init holds (length (rt_trace w))) pf c"
    unfolding carries_def
    by (intro conjI allI truthful_store_call truthful_ext_call assms(2-5) silent moves_byD [OF assms(1)]; simp add: truthful_def)
  from preservesD [OF preserves_process_record [OF this] truthful_now assms(6)]
  show ?thesis by (simp add: truthful_def calls_def)
qed

end

end
