(* ===== verification/Redelivery.thy ===== *)
theory Redelivery
  imports Consumer_Safety Carry Protocol
begin

section \<open>Delivered again\<close>

text \<open>
  Kafka delivers at least once; the consumer is to handle a message once. Here a consumer runs on the in-memory store while others
  use the store too: \<open>harmless_move\<close> says that what happens outside during one of its calls is any sequence of calls of the store's
  methods, by users with any configurations, at any times and with any answers, in which nobody calls \<open>mark_failed\<close> or \<open>delete\<close> for
  the message. (On this store \<open>mark_failed\<close> overwrites a completed record, so the condition is needed; see
  \<open>mem_completed_lost\<close>.) \<open>Carry\<close> reads off the history of calls what the store must hold for a message; \<open>own\<close> is that account.
\<close>

definition settling :: "string \<Rightarrow> mem_state \<Rightarrow> bool" where
  "settling m st \<longleftrightarrow> (\<exists>p. map_of st m = Some p \<and> (ps_status p = PROCESSING \<or> ps_status p = COMPLETED))"

definition finished :: "string \<Rightarrow> mem_state \<Rightarrow> bool" where
  "finished m st \<longleftrightarrow> (\<exists>p. map_of st m = Some p \<and> ps_status p = COMPLETED)"

definition harmless_step :: "string \<Rightarrow> mem_state \<Rightarrow> mem_state \<Rightarrow> bool" where
  "harmless_step m st st' \<longleftrightarrow> (\<exists>cfg t t' a. step (mem_ops cfg) (\<lambda>_ _. True) (t, st) a (t', st') \<and> \<not> releases m a)"

definition harmless_move :: "string \<Rightarrow> (mem_state, 'u) outside \<Rightarrow> (mem_state, 'u) outside \<Rightarrow> bool" where
  "harmless_move m x y \<longleftrightarrow> (harmless_step m)\<^sup>*\<^sup>* (fst (snd x)) (fst (snd y))"

lemma harmless_refl [simp]: "harmless_move m (t, st, u) (t', st, u')"
  by (simp add: harmless_move_def)

abbreviation harmless :: "string \<Rightarrow> (mem_state, 'u) platform \<Rightarrow> (mem_state, 'u) consumer \<Rightarrow> bool" where
  "harmless m \<equiv> moves_by (harmless_move m)"

subsection \<open>What the history says about the store\<close>

datatype ownership = Free | Taken | Settled

text \<open>What is known grows from left to right.\<close>

fun strength :: "ownership \<Rightarrow> nat" where
  "strength Free = 0"
| "strength Taken = 1"
| "strength Settled = 2"

instantiation ownership :: linorder
begin

definition less_eq_ownership :: "ownership \<Rightarrow> ownership \<Rightarrow> bool" where
  "less_eq_ownership z z' \<longleftrightarrow> strength z \<le> strength z'"

definition less_ownership :: "ownership \<Rightarrow> ownership \<Rightarrow> bool" where
  "less_ownership z z' \<longleftrightarrow> strength z < strength z'"

instance
proof
  have inj: "strength z = strength z' \<Longrightarrow> z = z'" for z z' by (cases z; cases z') simp_all
  show "z \<le> z' \<Longrightarrow> z' \<le> z \<Longrightarrow> z = z'" for z z' :: ownership
    by (simp add: less_eq_ownership_def inj)
qed (auto simp: less_eq_ownership_def less_ownership_def)

end

fun own :: "string \<Rightarrow> ownership \<Rightarrow> event \<Rightarrow> ownership" where
  "own m z (EvClaim k x) = (if k = m \<and> x = Inr True then Taken else z)"
| "own m z (EvFailed k e n x) = (if k = m then Free else z)"
| "own m z (EvCompleted k v x) = (if k = m \<and> x = Inr () \<and> z \<noteq> Free then Settled else z)"
| "own m z _ = z"

abbreviation owned :: "string \<Rightarrow> event list \<Rightarrow> ownership" where
  "owned m es \<equiv> foldl (own m) Free es"

fun holds :: "string \<Rightarrow> ownership \<Rightarrow> mem_state \<Rightarrow> bool" where
  "holds m Free st = True"
| "holds m Taken st = settling m st"
| "holds m Settled st = finished m st"

lemma finished_settling: "finished m st \<Longrightarrow> settling m st"
  by (auto simp: finished_def settling_def)

text \<open>To know more is to know less as well.\<close>

lemma holds_weaken: "holds m z st \<Longrightarrow> z' \<le> z \<Longrightarrow> holds m z' st"
  by (cases z; cases z') (auto simp: less_eq_ownership_def finished_settling)

text \<open>What the methods of the store do to a record under its own id.\<close>

lemma claim_settles: "mem_claim cfg m now st = (Inr True, st') \<Longrightarrow> settling m st'"
  by (auto simp: mem_claim_eq settling_def claimed_rec_def dict_simps split: if_splits)

lemma claim_keeps:
  "mem_claim cfg k now st = (r, st') \<Longrightarrow> (settling m st \<longrightarrow> settling m st') \<and> (finished m st \<longrightarrow> finished m st')"
  by (auto simp: mem_claim_eq settling_def finished_def claimed_rec_def dict_simps entry_of_def split: if_splits)

lemma complete_keeps:
  "mem_mark_completed k v now st = (r, st') \<Longrightarrow> (settling m st \<longrightarrow> settling m st') \<and> (finished m st \<longrightarrow> finished m st')"
  by (auto simp: mem_mark_completed_def settling_def finished_def dict_simps split: option.splits if_splits)

lemma complete_finishes: "mem_mark_completed m v now st = (r, st') \<Longrightarrow> settling m st \<Longrightarrow> finished m st'"
  by (auto simp: mem_mark_completed_def settling_def finished_def dict_simps split: option.splits if_splits)

lemma fail_keeps:
  "mem_mark_failed k e j now st = (r, st') \<Longrightarrow> k \<noteq> m \<Longrightarrow> (settling m st \<longrightarrow> settling m st') \<and> (finished m st \<longrightarrow> finished m st')"
  by (auto simp: mem_mark_failed_def settling_def finished_def dict_simps split: option.splits)

lemma delete_keeps:
  "mem_delete k now st = (r, st') \<Longrightarrow> k \<noteq> m \<Longrightarrow> (settling m st \<longrightarrow> settling m st') \<and> (finished m st \<longrightarrow> finished m st')"
  by (auto simp: mem_delete_def settling_def finished_def dict_simps)

text \<open>So the calls of the others take nothing back.\<close>

lemma harmless_step_keeps:
  assumes "harmless_step m st st'"
  shows "(settling m st \<longrightarrow> settling m st') \<and> (finished m st \<longrightarrow> finished m st')"
proof -
  from assms obtain cfg t t' a where run: "step (mem_ops cfg) (\<lambda>_ _. True) (t, st) a (t', st')" and a: "\<not> releases m a"
    unfolding harmless_step_def by blast
  from run show ?thesis
  proof (cases rule: step.cases)
    case (claim k r)
    then show ?thesis using claim_keeps [of cfg k t' st r st' m] by simp
  next
    case (completed k v u)
    then show ?thesis using complete_keeps [of k v t' st u st' m] by simp
  next
    case (failed k err n u)
    then show ?thesis using fail_keeps [of k err n t' st u st' m] a by simp
  next
    case (deleted k u)
    then show ?thesis using delete_keeps [of k t' st u st' m] a by simp
  next
    case (status k p)
    then show ?thesis by (simp add: mem_get_status_def)
  next
    case (duplicate k r)
    then show ?thesis by (simp add: mem_is_duplicate_def)
  qed
qed

lemma harmless_keeps:
  assumes "harmless_move m x y"
  shows "settling m (fst (snd x)) \<Longrightarrow> settling m (fst (snd y))" "finished m (fst (snd x)) \<Longrightarrow> finished m (fst (snd y))"
proof -
  have "(settling m st \<longrightarrow> settling m st') \<and> (finished m st \<longrightarrow> finished m st')" if "(harmless_step m)\<^sup>*\<^sup>* st st'" for st st'
    using that by (induction rule: rtranclp_induct) (use harmless_step_keeps in blast)+
  with assms show "settling m (fst (snd x)) \<Longrightarrow> settling m (fst (snd y))" "finished m (fst (snd x)) \<Longrightarrow> finished m (fst (snd y))"
    unfolding harmless_move_def by blast+
qed

lemma holds_move: "harmless_move m (t, s, u) (t', s', u') \<Longrightarrow> holds m z s \<Longrightarrow> holds m z s'"
  by (cases z) (auto dest: harmless_keeps)

interpretation owning: account "own m" Free "holds m" "harmless_move m" for m
  by unfold_locales (auto dest: holds_move)

text \<open>After a store method the history still says the truth.\<close>

lemma tells_claim: "tells (own m) (holds m) (mem_claim cfg k) (EvClaim k)"
proof (rule tellsI)
  fix t st r st' z assume run: "mem_claim cfg k t st = (r, st')" and h: "holds m z st"
  show "holds m (own m z (EvClaim k r)) st'"
    using claim_keeps [OF run, of m] claim_settles [of cfg m t st st'] run h
    by (cases z) auto
qed

lemma tells_completed: "tells (own m) (holds m) (mem_mark_completed k v) (EvCompleted k v)"
proof (rule tellsI)
  fix t st r st' z assume run: "mem_mark_completed k v t st = (r, st')" and h: "holds m z st"
  have taken: "settling m st" if "z \<noteq> Free"
    using holds_weaken [OF h, of Taken] that by (cases z) (simp_all add: less_eq_ownership_def)
  show "holds m (own m z (EvCompleted k v r)) st'"
    using complete_keeps [OF run, of m] complete_finishes [of m v t st r st'] run h taken
    by (cases z) auto
qed

lemma tells_failed: "tells (own m) (holds m) (mem_mark_failed k e j) (EvFailed k e j)"
proof (rule tellsI)
  fix t st r st' z assume run: "mem_mark_failed k e j t st = (r, st')" and h: "holds m z st"
  show "holds m (own m z (EvFailed k e j r)) st'"
    using fail_keeps [OF run, of m] h by (cases z) auto
qed

lemma tells_status: "tells (own m) (holds m) (mem_get_status k) (EvStatus k)"
  by (auto simp: tells_def mem_get_status_def)

subsection \<open>The second delivery\<close>

text \<open>While a message is being handled, the history of the delivery says that it is taken.\<close>

fun taken_phase :: "phase \<Rightarrow> bool" where
  "taken_phase (Held k s) = True"
| "taken_phase (Succeeded v) = True"
| "taken_phase _ = False"

lemma life_own:
  assumes "life pf c r (Some m) payload q ev = Some q'" "m \<noteq> []" "taken_phase q \<longrightarrow> z = Taken" "taken_phase q'"
  shows "own m z ev = Taken"
  using assms
  by (auto simp: life_cases nonempty_def split: phase.splits event.splits if_splits sum.splits exn.splits)

lemma follow_own:
  assumes "m \<noteq> []"
  shows "follow (life pf c r (Some m) payload) q es = Some q' \<Longrightarrow> taken_phase q \<longrightarrow> z = Taken \<Longrightarrow>
     taken_phase q' \<longrightarrow> foldl (own m) z es = Taken"
proof (induction es arbitrary: q z)
  case (Cons e es)
  then obtain q1 where q1: "life pf c r (Some m) payload q e = Some q1"
    "follow (life pf c r (Some m) payload) q1 es = Some q'" by (auto split: option.splits)
  have "taken_phase q1 \<longrightarrow> own m z e = Taken" using life_own [OF q1(1) assms Cons.prems(2)] by blast
  from Cons.IH [OF q1(2) this] show ?case by simp
qed simp

lemma filed_settles:
  assumes "follow (life pf c r (Some m) payload) Fresh es = Some q" "m \<noteq> []" "EvCompleted m v (Inr ()) \<in> set es"
    and "q = Committed \<or> q = Aborted \<or> (\<exists>s. q = Spent s)"
  shows "owned m es = Settled"
proof -
  from assms(3) obtain xs ys where es: "es = xs @ EvCompleted m v (Inr ()) # ys" by (auto dest: split_list)
  with assms(1) obtain q0 q1 where q0: "follow (life pf c r (Some m) payload) Fresh xs = Some q0"
    and q1: "life pf c r (Some m) payload q0 (EvCompleted m v (Inr ())) = Some q1"
    and ys: "follow (life pf c r (Some m) payload) q1 ys = Some q" by (auto elim: follow_split)
  from q1 have "q0 = Succeeded v" "q1 = Filed" by (auto simp: life_def split: phase.splits if_splits)
  moreover have "owned m xs = Taken" using follow_own [OF assms(2) q0, of Free] calculation(1) by simp
  moreover obtain x where "ys = [EvCommit x]" using follow_Filed [of pf c r "Some m" payload ys q] ys calculation(2) assms(4) by auto
  ultimately show ?thesis by (simp add: es)
qed

text \<open>A delivery that filed its result leaves the message completed.\<close>

lemma filed_finished:
  assumes "c_store c = mem_ops cfg" "harmless m pf c" "ready c w"
    and "extract_message_id pf r = Inr (Some m)" "m \<noteq> []" "parse_payload pf r = Inr payload"
    and "process_record pf c r w = (res, w')" "EvCompleted m v (Inr ()) \<in> set (calls w w')"
  shows "finished m (rt_store w')"
proof -
  obtain q where q: "follow (life pf c r (Some m) payload) (first_phase c (Some m)) (calls w w') = Some q" "over pf r res q"
    by (rule record_history [OF assms(3,4,6,7)])
  have "q = Committed \<or> q = Aborted \<or> (\<exists>s. q = Spent s)" using q(2) by (cases res) auto
  with filed_settles [OF _ assms(5,8)] q(1) have settled: "owned m (calls w w') = Settled" by (simp add: first_phase_def)
  have "holds m (owned m (calls w w')) (rt_store w')"
    by (rule owning.delivery_account [OF assms(2) _ _ _ _ assms(7)])
       (simp_all add: assms(1) tells_claim tells_status tells_failed tells_completed)
  with settled show ?thesis by simp
qed

text \<open>A completed message is skipped.\<close>

lemma finished_unclaimed:
  assumes "c_store c = mem_ops cfg" "harmless m pf c" "finished m (rt_store w)" "store_claim pf c m w = (x, w')"
  shows "x = Inr False \<and> finished m (rt_store w')"
proof -
  obtain t st u where lag: "pf_lag pf (outside w) = (t, st, u)" by (cases "pf_lag pf (outside w)")
  have "harmless_move m (outside w) (pf_lag pf (outside w))" using moves_byD(1) [OF assms(2)] .
  then have fin: "finished m st" using harmless_keeps(2) [of m "outside w" "pf_lag pf (outside w)"] assms(3) unfolding lag by (simp add: outside_def)
  then have claim: "mem_claim cfg m t st = (Inr False, st)" by (auto simp: mem_claim_eq finished_def entry_of_def)
  show ?thesis
    using assms(4) fin
    by (auto simp: store_claim_def measure_store_op_def try_finally_def store_call_def assms(1) lag claim log_event_def set_outside_def)
qed

text \<open>What follows a lost claim never runs the handler.\<close>

fun quiet_event :: "event \<Rightarrow> bool" where
  "quiet_event (EvStatus m x) = True"
| "quiet_event (EvCommit x) = True"
| "quiet_event _ = False"

definition quiet :: "unit \<Rightarrow> event \<Rightarrow> unit option" where
  "quiet q e = (if quiet_event e then Some () else None)"

lemma follow_quiet: "follow quiet q es = Some q' \<Longrightarrow> \<forall>e \<in> set es. quiet_event e"
  by (induction es arbitrary: q) (auto simp: quiet_def split: if_splits)

lemma quiet_handles: "\<forall>e \<in> set es. quiet_event e \<Longrightarrow> handles es = 0"
proof (induction es)
  case (Cons e es)
  then show ?case by (cases e) (simp_all add: handles_def)
qed (simp add: handles_def)

lemma tracks_quiet_measured:
  fixes m :: "(('s, 'u) world, 'a) eff"
  assumes "tracks (\<lambda>_. True) move q m Q"
  shows "tracks (\<lambda>_. True) move q (measure_store_op operation m) Q"
proof (rule tracksI)
  fix w :: "('s, 'u) world" and r w' assume run: "measure_store_op operation m w = (r, w')"
  obtain y w1 where m: "m w = (y, w1)" by (cases "m w")
  with run have "rt_trace w' = rt_trace w1" "r = y" by (auto simp: measure_store_op_def try_finally_def)
  with tracksD [OF assms _ m] show "True \<and> (\<exists>es q'. rt_trace w' = rt_trace w @ es \<and> follow move q es = Some q' \<and> Q r q')"
    by metis
qed

lemma tracks_quiet_skip:
  fixes pf :: "('s, 'u) platform"
  shows "tracks (\<lambda>_. True) quiet ()
     (bind_eff (store_get_status pf c m) (\<lambda>existing. bind_eff (metric (f existing)) (\<lambda>_. commit_offset pf c r))) (\<lambda>_ _. True)"
proof -
  have any: "stable (\<lambda>_. True)" by (simp add: stable_def)
  have status: "tracks (\<lambda>_. True) quiet () (store_get_status pf c m) (\<lambda>_ _. True)"
    unfolding store_get_status_def
    by (intro tracks_quiet_measured tracks_store_call [OF any]) (simp add: quiet_def)
  have send: "tracks (\<lambda>_. True) quiet () (ext_call EvCommit (pf_commit pf)) (\<lambda>_ _. True)"
    by (intro tracks_ext_call [OF any]) (simp add: quiet_def)
  have commit: "tracks (\<lambda>_. True) quiet () (commit_offset pf c r) (\<lambda>_ _. True)"
  proof (rule tracksI)
    fix w :: "('s, 'u) world" and y w' assume run: "commit_offset pf c r w = (y, w')"
    show "True \<and> (\<exists>es q'. rt_trace w' = rt_trace w @ es \<and> follow quiet () es = Some q' \<and> True)"
    proof (cases "w_consumer w")
      case True
      with run tracksD [OF send, of w y w'] show ?thesis unfolding commit_offset_def by metis
    next
      case False
      with run have "rt_trace w' = rt_trace w @ [] \<and> follow quiet () [] = Some ()" by (simp add: commit_offset_def)
      then show ?thesis by blast
    qed
  qed
  have note_then: "tracks (\<lambda>_. True) quiet () (bind_eff (metric (f x)) (\<lambda>_. commit_offset pf c r)) (\<lambda>_ _. True)" for x
    by (rule tracks_bind [where P = "\<lambda>_ _. True"])
       (use commit in \<open>auto simp: metric_def intro!: tracks_modify\<close>)
  show ?thesis
    by (rule tracks_bind [OF status]) (use note_then in auto)
qed

text \<open>A delivery starts with a claim; if it is not won, no handler runs.\<close>

lemma unclaimed_quiet:
  assumes "extract_message_id pf r = Inr (Some m)" "process_record pf c r w = (res, w')"
    and claim: "store_claim pf c m w = (y, w1)" "y \<noteq> Inr True" "rt_trace w1 = rt_trace w @ [EvClaim m y]"
  shows "\<exists>es. calls w w' = EvClaim m y # es \<and> (\<forall>e \<in> set es. quiet_event e)"
proof (cases y)
  case (Inl e)
  have "process_record pf c r w = (Inl e, w1)"
    by (simp add: process_record_def assms(1) bind_eff_def claim(1) Inl)
  with assms(2) claim(3) show ?thesis by (simp add: calls_eq)
next
  case (Inr b)
  with claim(2) have y: "y = Inr False" by simp
  let ?f = "\<lambda>existing. if (case existing of Some p \<Rightarrow> ps_status p = PROCESSING | None \<Rightarrow> False)
      then record_claim_lost (cr_topic r) else record_duplicate (cr_topic r)"
  have "bind_eff (store_get_status pf c m)
      (\<lambda>existing. bind_eff (metric (?f existing)) (\<lambda>_. commit_offset pf c r)) w1 = (res, w')"
    using assms(2) by (simp add: process_record_def assms(1) bind_eff_Inr [where m = "store_claim pf c m", OF claim(1) [unfolded y]])
  from tracksD [OF tracks_quiet_skip _ this] obtain es q' where
    es: "rt_trace w' = rt_trace w1 @ es" "follow quiet () es = Some q'" by blast
  from es(1) claim(3) have "calls w w' = EvClaim m y # es" by (simp add: calls_eq)
  with follow_quiet [OF es(2)] show ?thesis by blast
qed

lemma unclaimed_skipped:
  assumes "extract_message_id pf r = Inr (Some m)" "process_record pf c r w = (res, w')"
    and "store_claim pf c m w = (y, w1)" "y \<noteq> Inr True" "rt_trace w1 = rt_trace w @ [EvClaim m y]"
  shows "handles (calls w w') = 0 \<and> (\<exists>es. calls w w' = EvClaim m y # es)"
  using unclaimed_quiet [OF assms] quiet_handles by (auto simp: handles_def)

lemma finished_skipped:
  assumes "c_store c = mem_ops cfg" "harmless m pf c" "finished m (rt_store w)"
    and "extract_message_id pf r = Inr (Some m)" "process_record pf c r w = (res, w')"
  shows "handles (calls w w') = 0 \<and> (\<exists>es. calls w w' = EvClaim m (Inr False) # es)"
proof -
  obtain x w1 where claim: "store_claim pf c m w = (x, w1)" by (cases "store_claim pf c m w")
  from finished_unclaimed [OF assms(1-3) claim] have x: "x = Inr False" by simp
  have "rt_trace w1 = rt_trace w @ [EvClaim m x]"
    using claim unfolding store_claim_def measure_store_op_def try_finally_def
    by (auto split: prod.splits dest!: store_call_trace)
  with unclaimed_skipped [OF assms(4,5) claim] x show ?thesis by simp
qed

subsection \<open>The property\<close>

lemma example_harmless: "harmless m (calm rp) (example_consumer n)"
  by (auto simp: moves_by_def calm_def example_consumer_def flaky_def ret_def split: prod.splits)

text \<open>
  C3. A message is handled once, however often it is delivered, on the in-memory store: when a delivery has filed the result of its
  handler, a later delivery with the same id, to this consumer or another one on the store, does not run the handler; its claim
  is refused. In between and meanwhile the other users of the store may make any calls except \<open>mark_failed\<close> and \<open>delete\<close> for that id.
\<close>

theorem redelivery_skipped:
  assumes "c_store c = mem_ops cfg" "harmless m pf c" "ready c w"
    and "extract_message_id pf r = Inr (Some m)" "m \<noteq> []" "parse_payload pf r = Inr payload"
    and "process_record pf c r w = (res, w1)" "EvCompleted m v (Inr ()) \<in> set (calls w w1)"
    and "harmless_move m (outside w1) (outside w2)"
    and "c_store c' = mem_ops cfg'" "harmless m pf' c'"
    and "extract_message_id pf' r' = Inr (Some m)" "process_record pf' c' r' w2 = (res', w3)"
  shows "handles (calls w2 w3) = 0 \<and> (\<exists>es. calls w2 w3 = EvClaim m (Inr False) # es)"
proof -
  have "finished m (rt_store w1)" by (rule filed_finished [OF assms(1-8)])
  then have "finished m (rt_store w2)" using harmless_keeps(2) [OF assms(9)] by (simp add: outside_def)
  from finished_skipped [OF assms(10,11) this assms(12,13)] show ?thesis .
qed

theorem redelivery_skipped_witness:
  "handles (calls (example_after 1 []) (snd (process_record (calm (\<lambda>_. [])) (example_consumer 0) example_record (example_after 1 [])))) = 0"
proof -
  have same: "harmless_move ''m'' (outside (example_after 1 [])) (outside (example_after 1 []))"
    by (simp add: outside_def)
  have store: "c_store (example_consumer n) = mem_ops default_config" for n by (simp add: example_consumer_def)
  have filed: "EvCompleted ''m'' (PInt 7) (Inr ()) \<in> set (calls (example_world []) (example_after 1 []))"
    by (simp add: example_calls_retry [unfolded One_nat_def])
  have again: "process_record (calm (\<lambda>_. [])) (example_consumer 0) example_record (example_after 1 []) =
      (fst (process_record (calm (\<lambda>_. [])) (example_consumer 0) example_record (example_after 1 [])),
       snd (process_record (calm (\<lambda>_. [])) (example_consumer 0) example_record (example_after 1 [])))"
    by simp
  show ?thesis
    using redelivery_skipped [OF store example_harmless example_ready example_id _ example_payload example_run filed
        same store example_harmless example_id again] by simp
qed

end
