(* ===== verification/Outbox_Consumer.thy ===== *)
theory Outbox_Consumer
  imports Outbox_Props Consumer_Run Redelivery
begin

section \<open>From the outbox to the consumer\<close>

text \<open>
  What a consumer of the framework makes of the messages \<open>OutboxRelay\<close> publishes: \<open>send_and_wait\<close> is called with topic, value
  and key but without headers, and the consumer looks for the id of a message in its headers and its body.
\<close>

definition relay_record :: "int \<Rightarrow> int \<Rightarrow> string \<times> string \<times> string \<Rightarrow> ConsumerRecord" where
  "relay_record p i msg = (case msg of (topic, val, key) \<Rightarrow>
     \<lparr>cr_topic = topic, cr_partition = p, cr_offset = i, cr_key = Some key, cr_value = Some val, cr_headers = []\<rparr>)"

text \<open>The row that a writer's entry becomes.\<close>

lemma written_row:
  assumes "outbox_write env entry x = (Inr u, x')"
    and "oe_message_id entry \<notin> row_message_id ` set (db_rows (tx_db x))"
    and "row \<in> set (db_rows (tx_db x'))" "row_message_id row = oe_message_id entry"
  obtains body where "json_dumps (ob_repr env) (PDict (oe_payload entry)) = Inr body"
    "row_payload row = ob_jsonb env body" "row_topic row = oe_topic entry" "row_status row = Pending"
proof -
  obtain body where body: "json_dumps (ob_repr env) (PDict (oe_payload entry)) = Inr body"
    and run: "tx_execute env (InsertRow (oe_topic entry) (oe_message_id entry) body (oe_created_at entry)) x = (Inr u, x')"
    using assms(1) by (auto simp: outbox_write_def raise_def split: sum.splits)
  from run have "tx_db x' = insert_row (ob_jsonb env) (oe_topic entry) (oe_message_id entry) body (oe_created_at entry) (tx_db x)"
    by (auto simp: tx_execute_def apply_statement_def split: if_splits prod.splits sum.splits)
  moreover have "row \<notin> set (db_rows (tx_db x))" using assms(2,4) by (metis image_eqI)
  ultimately show ?thesis using assms(2-4) that [OF body] by (auto simp: insert_row_def Let_def split: if_splits)
qed

lemma relayed_id:
  assumes "json_loads_bytes val = Inr (PDict d)"
  shows "extract_message_id pf (relay_record p i (topic, val, key)) =
      (if pf_overflows pf For_id val then Inl RecursionError
       else Inr (let v = py_or (dict_get ''message_id'' d) (dict_get ''id'' d) in if truthy v then Some (py_str (pf_repr pf) v) else None))"
    and "parse_payload pf (relay_record p i (topic, val, key)) =
      (if pf_overflows pf For_payload val then Inl RecursionError else Inr (PDict d))"
proof -
  have "json_loads_bytes [] \<noteq> Inr (PDict d)" by code_simp
  with assms have "val \<noteq> []" by auto
  with assms show "extract_message_id pf (relay_record p i (topic, val, key)) =
      (if pf_overflows pf For_id val then Inl RecursionError
       else Inr (let v = py_or (dict_get ''message_id'' d) (dict_get ''id'' d) in if truthy v then Some (py_str (pf_repr pf) v) else None))"
    "parse_payload pf (relay_record p i (topic, val, key)) =
      (if pf_overflows pf For_payload val then Inl RecursionError else Inr (PDict d))"
    by (simp_all add: extract_message_id_def parse_payload_def loads_def relay_record_def Let_def RecursionError_def
        JSONDecodeError_def UnicodeDecodeError_def)
qed

text \<open>A message without an id is handled without the store.\<close>

fun of_store :: "event \<Rightarrow> bool" where
  "of_store (EvClaim m x) = True"
| "of_store (EvStatus m x) = True"
| "of_store (EvCompleted m v x) = True"
| "of_store (EvFailed m e n x) = True"
| "of_store _ = False"

lemma life_without_id:
  assumes "life pf c r None payload q ev = Some q'"
  shows "\<not> of_store ev"
  using assms by (auto simp: life_def split: phase.splits event.splits)

lemma follow_without_id:
  "follow (life pf c r None payload) q es = Some q' \<Longrightarrow> ev \<in> set es \<Longrightarrow> \<not> of_store ev"
  by (induction es arbitrary: q) (auto split: option.splits dest: life_without_id)

lemma handled_without_id:
  assumes "ready c w" "extract_message_id pf r = Inr None" "parse_payload pf r = Inr payload"
    and "1 \<le> max_retries (c_config c)" "process_record pf c r w = (res, w')"
  shows "(\<forall>ev \<in> set (calls w w'). \<not> of_store ev) \<and> (\<exists>x es. calls w w' = EvHandle payload x # es)"
proof -
  obtain q where q: "follow (life pf c r None payload) (first_phase c None) (calls w w') = Some q" "over pf r res q"
    by (rule record_history [OF assms(1-3,5)])
  have first: "first_phase c None = Held 1 ''None''" using assms(4) by (simp add: first_phase_def held_def)
  have "q \<noteq> Held 1 ''None''" using q(2) by (cases res) auto
  then obtain e es where e: "calls w w' = e # es" using q(1) first by (cases "calls w w'") auto
  with q(1) first have "life pf c r None payload (Held 1 ''None'') e \<noteq> None" by (auto split: option.splits)
  then have "\<exists>x. e = EvHandle payload x" by (auto simp: life_def split: event.splits if_splits)
  with e follow_without_id [OF q(1)] show ?thesis by blast
qed

text \<open>
  C36. The id of an outbox entry does not reach the consumer. When the payload of an entry has no id of its own (no truthy
  \<open>message_id\<close> or \<open>id\<close>), no delivery of the message that the relay publishes for it makes a claim or any other call to the
  deduplication store, and every delivery runs the handler at once, unless \<open>json.loads\<close> exhausts the stack on the payload; so a
  row that is published twice is handled twice. The column \<open>JSONB\<close> may rearrange the object, but keeps these two members.
\<close>

theorem outbox_id_lost:
  assumes "outbox_write env entry x = (Inr u, x')"
    and "oe_message_id entry \<notin> row_message_id ` set (db_rows (tx_db x))"
    and "row \<in> set (db_rows (tx_db x'))" "row_message_id row = oe_message_id entry"
    and jsonb: "\<And>body. json_dumps (ob_repr env) (PDict (oe_payload entry)) = Inr body \<Longrightarrow>
      json_loads_bytes (ob_jsonb env body) = Inr (PDict d)
      \<and> (\<forall>k \<in> {''message_id'', ''id''}. dict_get k d = dict_get k (oe_payload entry))"
    and none: "\<not> truthy (dict_get ''message_id'' (oe_payload entry))" "\<not> truthy (dict_get ''id'' (oe_payload entry))"
    and "ready c w" "1 \<le> max_retries (c_config c)" "process_record pf c (relay_record p i (message_of row)) w = (res, w')"
  shows "(\<forall>ev \<in> set (calls w w'). \<not> of_store ev)
    \<and> ((\<forall>site. \<not> pf_overflows pf site (row_payload row)) \<longrightarrow> (\<exists>y es. calls w w' = EvHandle (PDict d) y # es))"
proof -
  obtain body where "json_dumps (ob_repr env) (PDict (oe_payload entry)) = Inr body" "row_payload row = ob_jsonb env body"
    by (rule written_row [OF assms(1-4)])
  with jsonb have load: "json_loads_bytes (row_payload row) = Inr (PDict d)"
    and same: "\<forall>k \<in> {''message_id'', ''id''}. dict_get k d = dict_get k (oe_payload entry)" by auto
  note relayed = relayed_id [OF load, of pf p i "row_topic row" "row_message_id row"]
  have id: "extract_message_id pf (relay_record p i (message_of row)) =
      (if pf_overflows pf For_id (row_payload row) then Inl RecursionError else Inr None)"
    using relayed(1) same none by (simp add: message_of_def py_or_def)
  have payload: "parse_payload pf (relay_record p i (message_of row)) =
      (if pf_overflows pf For_payload (row_payload row) then Inl RecursionError else Inr (PDict d))"
    using relayed(2) by (simp add: message_of_def)
  show ?thesis
  proof (cases "\<exists>site. pf_overflows pf site (row_payload row)")
    case True
    then have "pf_overflows pf For_id (row_payload row) \<or> pf_overflows pf For_payload (row_payload row)"
      by (metis loads_site.exhaust)
    then have "calls w w' = []"
      using assms(10) id payload
      by (auto simp: process_record_def execute_and_commit_def raise_def metric_def bind_eff_def modify_def calls_def split: if_splits)
    with True show ?thesis by simp
  next
    case False
    with id payload handled_without_id [OF assms(8) _ _ assms(9,10)] show ?thesis by simp
  qed
qed

definition example_tx :: "nat tx" where
  "example_tx = \<lparr>tx_db = \<lparr>db_rows = [], db_seq = 0\<rparr>, tx_aborted = False, tx_outside = 0, tx_sent = [], tx_tried = []\<rparr>"

definition example_row :: outbox_row where
  "example_row = \<lparr>row_id = 1, row_topic = ''orders'', row_message_id = ''m'', row_payload = ''{}'', row_status = Pending,
     row_created_at = 0, row_published_at = None\<rparr>"

theorem outbox_id_lost_witness:
  "\<exists>y es w'. calls (example_world []) w' = EvHandle (PDict []) y # es"
proof -
  have body: "json_dumps rp (PDict []) = Inr ''{}''" for rp by (simp add: json_dumps_def)
  have run: "outbox_write outbox_calm example_entry example_tx =
      (Inr (), example_tx\<lparr>tx_db := \<lparr>db_rows = [example_row], db_seq = 1\<rparr>\<rparr>)"
    by (simp add: outbox_write_def outbox_calm_def example_entry_def outbox_entry_def body tx_execute_def example_tx_def eff_simps
        apply_statement_def insert_row_def example_row_def)
  have load: "json_loads_bytes ''{}'' = Inr (PDict [])" by code_simp
  have entry: "oe_payload example_entry = []" "oe_message_id example_entry = ''m''"
    by (simp_all add: example_entry_def outbox_entry_def)
  have jsonb: "json_loads_bytes (ob_jsonb outbox_calm b) = Inr (PDict [])
      \<and> (\<forall>k \<in> {''message_id'', ''id''}. dict_get k [] = dict_get k (oe_payload example_entry))"
    if "json_dumps (ob_repr outbox_calm) (PDict (oe_payload example_entry)) = Inr b" for b
    using that load by (auto simp: entry body outbox_calm_def)
  have none: "\<not> truthy (dict_get k (oe_payload example_entry))" for k by (simp add: entry dict_get_def truthy_def)
  let ?r = "relay_record 0 0 (message_of example_row)"
  have retries: "1 \<le> max_retries (c_config (example_consumer 0))" by (simp add: example_consumer_def default_config_def)
  have step: "process_record (calm (\<lambda>_. [])) (example_consumer 0) ?r (example_world []) =
      (fst (process_record (calm (\<lambda>_. [])) (example_consumer 0) ?r (example_world [])),
       snd (process_record (calm (\<lambda>_. [])) (example_consumer 0) ?r (example_world [])))" by simp
  show ?thesis
    using outbox_id_lost [OF run _ _ _ jsonb none none example_ready retries step]
    by (auto simp: entry example_tx_def example_row_def)
qed

subsection \<open>With an id in the payload\<close>

lemma relayed_named:
  assumes "json_loads_bytes (row_payload row) = Inr (PDict d)" "dict_get ''message_id'' d = PStr m" "m \<noteq> []"
  shows "extract_message_id pf (relay_record p i (message_of row)) =
    (if pf_overflows pf For_id (row_payload row) then Inl RecursionError else Inr (Some m))"
  using relayed_id(1) [OF assms(1), of pf p i "row_topic row" "row_message_id row"] assms(2,3)
  by (simp add: message_of_def py_or_def truthy_def py_str_def)

text \<open>Where an id or a payload cannot be read, nothing is filed.\<close>

lemma unread_calls:
  assumes "process_record pf c r w = (res, w')"
  shows "extract_message_id pf r = Inl e \<Longrightarrow> calls w w' = []"
    and "extract_message_id pf r = Inr (Some m) \<Longrightarrow> parse_payload pf r = Inl e \<Longrightarrow> EvCompleted k v x \<notin> set (calls w w')"
proof -
  show "calls w w' = []" if "extract_message_id pf r = Inl e"
    using assms that by (simp add: process_record_def raise_def calls_def)
  assume id: "extract_message_id pf r = Inr (Some m)" and payload: "parse_payload pf r = Inl e"
  obtain y w1 where claim: "store_claim pf c m w = (y, w1)" by (cases "store_claim pf c m w")
  have t1: "rt_trace w1 = rt_trace w @ [EvClaim m y]"
    using claim unfolding store_claim_def measure_store_op_def try_finally_def
    by (auto split: prod.splits dest!: store_call_trace)
  show "EvCompleted k v x \<notin> set (calls w w')"
  proof (cases "y = Inr True")
    case True
    have "measure_processing (cr_topic r) (execute_and_commit pf c r (Some m)) w1 = (res, w')"
      using assms by (simp add: process_record_def id bind_eff_Inr [where m = "store_claim pf c m", OF claim [unfolded True]])
    then have "rt_trace w' = rt_trace w1"
      by (auto simp: execute_and_commit_def payload measure_processing_def try_finally_def raise_def)
    with t1 show ?thesis by (simp add: calls_eq)
  next
    case False
    from unclaimed_quiet [OF id assms claim False t1] show ?thesis by (auto dest: bspec)
  qed
qed

text \<open>
  C35. From the outbox to the handler once, on the in-memory store. When the payload of an entry names its id in \<open>message_id\<close>, a row
  that the relay publishes any number of times is handled once: after a delivery of its message has filed the handler's result, no
  later delivery of it, from any partition and offset and to any consumer on the store, runs a handler. In between and meanwhile
  the other users of the store may make any calls except \<open>mark_failed\<close> and \<open>delete\<close> for that id.
\<close>

theorem outbox_handled_once:
  assumes "outbox_write env entry x = (Inr u, x')"
    and "oe_message_id entry \<notin> row_message_id ` set (db_rows (tx_db x))"
    and "row \<in> set (db_rows (tx_db x'))" "row_message_id row = oe_message_id entry"
    and jsonb: "\<And>body. json_dumps (ob_repr env) (PDict (oe_payload entry)) = Inr body \<Longrightarrow>
      json_loads_bytes (ob_jsonb env body) = Inr (PDict d) \<and> dict_get ''message_id'' d = dict_get ''message_id'' (oe_payload entry)"
    and "dict_get ''message_id'' (oe_payload entry) = PStr m" "m \<noteq> []"
    and "c_store c = mem_ops cfg" "harmless m pf c" "ready c w"
    and "process_record pf c (relay_record p i (message_of row)) w = (res, w1)" "EvCompleted m v (Inr ()) \<in> set (calls w w1)"
    and "harmless_move m (outside w1) (outside w2)"
    and "c_store c' = mem_ops cfg'" "harmless m pf' c'"
    and "process_record pf' c' (relay_record p' i' (message_of row)) w2 = (res', w3)"
  shows "handles (calls w2 w3) = 0
    \<and> (\<not> pf_overflows pf' For_id (row_payload row) \<longrightarrow> (\<exists>es. calls w2 w3 = EvClaim m (Inr False) # es))"
proof -
  obtain body where "json_dumps (ob_repr env) (PDict (oe_payload entry)) = Inr body" "row_payload row = ob_jsonb env body"
    by (rule written_row [OF assms(1-4)])
  with jsonb assms(6) have load: "json_loads_bytes (row_payload row) = Inr (PDict d)" and id: "dict_get ''message_id'' d = PStr m"
    by auto
  note named = relayed_named [OF load id assms(7)]
  have ok: "\<not> pf_overflows pf For_id (row_payload row)" "\<not> pf_overflows pf For_payload (row_payload row)"
  proof -
    show site: "\<not> pf_overflows pf For_id (row_payload row)"
      using unread_calls(1) [OF assms(11), of RecursionError] named [of pf p i] assms(12) by auto
    show "\<not> pf_overflows pf For_payload (row_payload row)"
      using unread_calls(2) [OF assms(11), of m RecursionError m v "Inr ()"] named [of pf p i] site assms(12)
        relayed_id(2) [OF load, of pf p i "row_topic row" "row_message_id row"] by (auto simp: message_of_def)
  qed
  have "extract_message_id pf (relay_record p i (message_of row)) = Inr (Some m)"
    "parse_payload pf (relay_record p i (message_of row)) = Inr (PDict d)"
    using named [of pf p i] relayed_id(2) [OF load, of pf p i "row_topic row" "row_message_id row"] ok by (simp_all add: message_of_def)
  from filed_finished [OF assms(8-10) this(1) assms(7) this(2) assms(11,12)] have "finished m (rt_store w1)" .
  then have fin: "finished m (rt_store w2)" using harmless_keeps(2) [OF assms(13)] by (simp add: outside_def)
  show ?thesis
  proof (cases "pf_overflows pf' For_id (row_payload row)")
    case True
    with unread_calls(1) [OF assms(16)] named [of pf' p' i'] show ?thesis by (simp add: handles_def)
  next
    case False
    with finished_skipped [OF assms(14,15) fin _ assms(16)] named [of pf' p' i'] show ?thesis by simp
  qed
qed

definition example_named :: OutboxEntry where
  "example_named = outbox_entry 0 ''orders'' ''m'' [(''message_id'', PStr ''m'')] None"

definition example_named_row :: outbox_row where
  "example_named_row = example_row\<lparr>row_payload := dump_text (\<lambda>_. []) (PDict [(''message_id'', PStr ''m'')])\<rparr>"

definition example_relayed :: ConsumerRecord where
  "example_relayed = relay_record 0 0 (message_of example_named_row)"

definition relayed_run :: "(mem_state, nat) world \<Rightarrow> unit res \<times> (mem_state, nat) world" where
  "relayed_run = process_record (calm (\<lambda>_. [])) (example_consumer 0) example_relayed"

lemma example_named_ok: "json_ok (PDict [(''message_id'', PStr ''m'')])"
  by code_simp

lemma relayed_calls: "EvCompleted ''m'' (PInt 7) (Inr ()) \<in> set (calls (example_world []) (snd (relayed_run (example_world []))))"
proof -
  have load: "json_loads_bytes (row_payload example_named_row) = Inr (PDict [(''message_id'', PStr ''m'')])"
    using loads_dumps [OF example_named_ok, of "\<lambda>_. []"] by (auto simp: example_named_row_def simp del: dump_text.simps)
  have facts: "\<not> pf_overflows pf For_id (row_payload example_named_row) \<Longrightarrow> extract_message_id pf example_relayed = Inr (Some ''m'')"
    "\<not> pf_overflows pf For_payload (row_payload example_named_row) \<Longrightarrow> parse_payload pf example_relayed = Inr (PDict [(''message_id'', PStr ''m'')])"
    for pf :: "(mem_state, nat) platform"
    using relayed_named [OF load, of "''m''" pf 0 0] relayed_id(2) [OF load, of pf 0 0 "''orders''" "''m''"]
    by (simp_all add: example_relayed_def dict_get_def message_of_def example_named_row_def example_row_def del: dump_text.simps)
  show ?thesis by (simp add: relayed_run_def run_simps facts)
qed

theorem outbox_handled_once_witness:
  "handles (calls (snd (relayed_run (example_world []))) (snd (relayed_run (snd (relayed_run (example_world [])))))) = 0"
proof -
  have body: "json_dumps (\<lambda>_. []) (PDict [(''message_id'', PStr ''m'')]) = Inr (dump_text (\<lambda>_. []) (PDict [(''message_id'', PStr ''m'')]))"
    and load: "json_loads_bytes (dump_text (\<lambda>_. []) (PDict [(''message_id'', PStr ''m'')])) = Inr (PDict [(''message_id'', PStr ''m'')])"
    using loads_dumps [OF example_named_ok, of "\<lambda>_. []"] by blast+
  have entry: "oe_payload example_named = [(''message_id'', PStr ''m'')]" "oe_message_id example_named = ''m''"
    by (simp_all add: example_named_def outbox_entry_def)
  have run: "outbox_write outbox_calm example_named example_tx =
      (Inr (), example_tx\<lparr>tx_db := \<lparr>db_rows = [example_named_row], db_seq = 1\<rparr>\<rparr>)"
    using body by (simp add: outbox_write_def outbox_calm_def example_named_def outbox_entry_def tx_execute_def example_tx_def eff_simps
        apply_statement_def insert_row_def example_named_row_def example_row_def del: dump_text.simps)
  have jsonb: "json_loads_bytes (ob_jsonb outbox_calm b) = Inr (PDict [(''message_id'', PStr ''m'')])
      \<and> dict_get ''message_id'' [(''message_id'', PStr ''m'')] = dict_get ''message_id'' (oe_payload example_named)"
    if "json_dumps (ob_repr outbox_calm) (PDict (oe_payload example_named)) = Inr b" for b
    using that body load by (auto simp: entry outbox_calm_def simp del: dump_text.simps)
  have store: "c_store (example_consumer 0) = mem_ops default_config" by (simp add: example_consumer_def)
  have name: "dict_get ''message_id'' (oe_payload example_named) = PStr ''m''" by (simp add: entry dict_get_def)
  have deliver: "process_record (calm (\<lambda>_. [])) (example_consumer 0) (relay_record 0 0 (message_of example_named_row)) w =
      (fst (relayed_run w), snd (relayed_run w))" for w by (simp add: relayed_run_def example_relayed_def)
  have same: "harmless_move ''m'' (outside w) (outside w)" for w :: "(mem_state, nat) world" by (simp add: outside_def)
  show ?thesis
    using outbox_handled_once [OF run _ _ _ jsonb name _ store example_harmless example_ready deliver relayed_calls same store
        example_harmless deliver]
    by (simp add: entry example_tx_def example_named_row_def example_row_def)
qed

end
