(* ===== verification/Redis_Redelivery.thy ===== *)
theory Redis_Redelivery
  imports Redis_Props Redelivery
begin

section \<open>Delivered again, on Redis\<close>

text \<open>
  The consumer of \<open>Consumer\<close> on the store of \<open>Redis_Store\<close>, whose record of a message is shared with any number of other
  clients. The first half holds for every backend with the contract of \<open>Dedup_Store\<close>: a delivery whose claim reaches the
  store while the record says \<open>COMPLETED\<close> does not run the handler, whether the claim is answered or raises. The second half
  puts it together with the histories of \<open>Protocol\<close>: what any clients do between the completion and the delivery cannot
  change that, short of deleting the record or letting it expire.
\<close>

subsection \<open>For every store with the contract\<close>

context dedup_store
begin

lemma completed_refused:
  assumes "invar s" "fst (cells t s m) = Completed v" "in_range t s m" "op_claim ops m t s = (y, s')"
  shows "y \<noteq> Inr True \<and> cells t s' = cells t s"
proof -
  have lost: "\<not> may_claim cfg t (fst (cells t s m))" by (simp add: assms(2))
  show ?thesis
  proof (cases y)
    case (Inl e)
    with claim_law [OF assms(1,3,4)] lost show ?thesis by (auto simp: a_claim_lost_same)
  next
    case (Inr b)
    with claim_loses [OF assms(1,3) _ lost, of b s'] assms(4) show ?thesis by simp
  qed
qed

lemma completed_skipped:
  assumes "c_store c = ops" "pf_lag pf (outside w) = (t, s, x)"
    and "invar s" "fst (cells t s m) = Completed v" "in_range t s m"
    and "extract_message_id pf r = Inr (Some m)" "process_record pf c r w = (res, w')"
  shows "handles (calls w w') = 0 \<and> (\<exists>y es. calls w w' = EvClaim m y # es \<and> y \<noteq> Inr True)"
proof -
  obtain y s1 where op: "op_claim ops m t s = (y, s1)" by (cases "op_claim ops m t s")
  obtain y' w1 where claim: "store_claim pf c m w = (y', w1)" by (cases "store_claim pf c m w")
  from claim have "y' = y" "rt_trace w1 = rt_trace w @ [EvClaim m y]"
    by (auto simp: store_claim_def measure_store_op_def try_finally_def store_call_def assms(1,2) op)
  moreover have "y \<noteq> Inr True" using completed_refused [OF assms(3-5) op] by simp
  ultimately show ?thesis using unclaimed_skipped [OF assms(6,7) claim] by auto
qed

end

context redis_backend
begin

lemmas delivery_skipped = completed_skipped

text \<open>A filed result, then anything the clients do, then a delivery.\<close>

lemma filed_then_skipped:
  assumes "redis_ok s0" "redis_cells t0 s0 m = (Processing n l, u)" "storable_in_redis v"
    and "redis_mark_completed env m v t0 s0 = (Inr (), s1)"
    and "history (redis_ops env cfg) (call_ok redis_range storable_in_redis redis_reportable) (t0, s1) as (t2, s2)"
    and "\<forall>a \<in> set as. \<not> deletes m a" "t2 \<le> t3" "alive t3 u"
    and "c_store c = redis_ops env cfg" "pf_lag pf (outside w) = (t3, s2, x)" "redis_range t3 s2 m"
    and "extract_message_id pf r = Inr (Some m)" "process_record pf c r w = (res, w')"
  shows "handles (calls w w') = 0 \<and> (\<exists>y es. calls w w' = EvClaim m y # es \<and> y \<noteq> Inr True)"
proof -
  from redis_complete_run [OF assms(1,3,4)] obtain v' where ok: "redis_ok s1"
    and cells: "redis_cells t0 s1 = a_complete v' m (redis_cells t0 s0)" by auto
  have "redis_cells t0 s1 m = (Completed v', u)" unfolding cells using assms(2) by (simp add: a_complete_simps)
  moreover have "alive t2 u" using alive_mono [OF assms(8,7)] .
  ultimately have "redis_cells t2 s2 m = (Completed v', u)"
    using completed_stays [OF assms(5), of m v' u] ok assms(6) by simp
  moreover have inv: "redis_ok s2" using history_invar [OF assms(5)] ok by simp
  ultimately have "fst (redis_cells t3 s2 m) = Completed v'"
    using cells_age [OF inv assms(7)] assms(8) by (simp add: a_age_def)
  from delivery_skipped [OF assms(9,10) inv this assms(11-13)] show ?thesis .
qed

end

subsection \<open>Skipped after completion\<close>

definition redis_example_consumer :: "(keyspace, nat) consumer" where
  "redis_example_consumer = \<lparr>c_topics = [''orders''], c_store = redis_ops calm_server default_config,
     c_config = default_config, c_dlq_topic = Some ''dlq'', c_bootstrap = ''b'',
     c_group_id = ''g'', c_handle = flaky 0\<rparr>"

definition redis_example_world :: "int \<Rightarrow> keyspace \<Rightarrow> (keyspace, nat) world" where
  "redis_example_world t ks = \<lparr>rt_clock = t, rt_store = ks, rt_ext = 0, rt_trace = [],
     w_metrics = metrics_init, w_consumer = True, w_producer = True, w_running = True\<rparr>"

lemma redis_example_store: "c_store redis_example_consumer = redis_ops calm_server default_config"
  by (simp add: redis_example_consumer_def)

lemma redis_example_lag: "pf_lag (calm rp) (outside (redis_example_world t ks)) = (t + 1, ks, 0)"
  by (simp add: calm_def outside_def redis_example_world_def)

text \<open>
  C4. On Redis a message is handled once: when a client has filed the result of a message it was processing, a later delivery
  of the message to any consumer on the server does not run the handler, whatever calls other clients make in between, answered
  or not, while they do not delete the record and it has not expired. The delivery makes its claim and does not win it.
\<close>

theorem redis_redelivery_skipped:
  assumes "redis_backend env cfg stored expiry" "redis_backend.redis_ok env stored s0"
    and "redis_backend.redis_cells stored t0 s0 m = (Processing n l, u)" "storable_in_redis v"
    and "redis_mark_completed env m v t0 s0 = (Inr (), s1)"
    and "history (redis_ops env cfg) (redis_call cfg stored) (t0, s1) as (t2, s2)"
    and "\<forall>a \<in> set as. \<not> deletes m a" "t2 \<le> t3" "alive t3 u"
    and "c_store c = redis_ops env cfg" "pf_lag pf (outside w) = (t3, s2, x)"
    and "redis_backend.redis_range cfg stored t3 s2 m"
    and "extract_message_id pf r = Inr (Some m)" "process_record pf c r w = (res, w')"
  shows "handles (calls w w') = 0 \<and> (\<exists>y es. calls w w' = EvClaim m y # es \<and> y \<noteq> Inr True)"
  by (rule redis_backend.filed_then_skipped [OF assms])

theorem redis_redelivery_skipped_witness:
  "\<exists>ks. handles (calls (redis_example_world 4 ks) (snd (process_record (calm (\<lambda>_. [])) redis_example_consumer example_record
     (redis_example_world 4 ks)))) = 0"
proof -
  obtain ks where ks: "redis_backend.redis_ok calm_server (\<lambda>ks. ks) ks"
    "redis_backend.redis_cells (\<lambda>ks. ks) 0 ks ''m'' = (Processing 1 (Some 300000000), Some (kept_until 0 86400000))"
    by (rule server_first_claim)
  have v: "storable_in_redis (PInt 7)" by (simp add: storable_in_redis_def)
  from server.complete_answered [OF ks(1) v, of 0 "''m''"] obtain s v' where
    s: "redis_mark_completed calm_server ''m'' (PInt 7) 0 ks = (Inr (), s)" "redis_backend.redis_ok calm_server (\<lambda>ks. ks) s"
      "redis_backend.redis_cells (\<lambda>ks. ks) 0 s = a_complete v' ''m'' (redis_backend.redis_cells (\<lambda>ks. ks) 0 ks)"
    by (metis calm_fault)
  have live: "alive 5 (Some (kept_until 0 86400000))" by (simp add: alive_def kept_until_def)
  have "fst (redis_backend.redis_cells (\<lambda>ks. ks) 5 s ''m'') = Completed v'"
    using ks(2) live server.cells_age [OF s(2), of 0 5] s(3) by (simp add: a_age_def a_complete_simps)
  then have range: "redis_backend.redis_range default_config (\<lambda>ks. ks) 5 s ''m''" by (intro server_range) simp_all
  have lag: "pf_lag (calm (\<lambda>_. [])) (outside (redis_example_world 4 s)) = (5, s, 0)" by (simp add: redis_example_lag)
  show ?thesis
    using redis_redelivery_skipped [OF server.redis_backend_axioms ks v s(1) history.none _ _ live redis_example_store lag range example_id
      surjective_pairing] by auto
qed

subsection \<open>Taken over after a crash\<close>

text \<open>A delivery whose claim is won runs the handler next.\<close>

lemma claimed_handled:
  assumes "extract_message_id pf r = Inr (Some m)" "parse_payload pf r = Inr payload" "1 \<le> max_retries (c_config c)"
    and "ready c w1" "store_claim pf c m w = (Inr True, w1)" "rt_trace w1 = rt_trace w @ [EvClaim m (Inr True)]"
    and "process_record pf c r w = (res, w')"
  shows "\<exists>y es. calls w w' = EvClaim m (Inr True) # EvHandle payload y # es"
proof -
  have "measure_processing (cr_topic r) (execute_and_commit pf c r (Some m)) w1 = (res, w')"
    using assms(7) by (simp add: process_record_def assms(1) bind_eff_Inr [where m = "store_claim pf c m", OF assms(5)])
  from tracksD [OF tracks_measure_processing [OF tracks_execute_and_commit [OF assms(2), where mid = "Some m"]] assms(4) this]
  obtain es q where es: "rt_trace w' = rt_trace w1 @ es" "follow (life pf c r (Some m) payload) (held c 1 ''None'') es = Some q"
    "over pf r res q" by blast
  have held: "held c 1 ''None'' = Held 1 ''None''" using assms(3) by (simp add: held_def)
  have "q \<noteq> Held 1 ''None''" using es(3) by (cases res) auto
  with es(2) held obtain e es' q1 where e: "es = e # es'" "life pf c r (Some m) payload (Held 1 ''None'') e = Some q1"
    by (cases es) (auto split: option.splits)
  then have "\<exists>y. e = EvHandle payload y" by (auto simp: life_def split: event.splits if_splits)
  with e(1) es(1) assms(6) show ?thesis by (auto simp: calls_eq)
qed

lemma store_claim_run:
  assumes "pf_lag pf (outside w) = (t, s, x)" "op_claim (c_store c) m t s = (y, s')" "ready c w"
  obtains w1 where "store_claim pf c m w = (y, w1)" "rt_trace w1 = rt_trace w @ [EvClaim m y]" "ready c w1"
  using that assms(3)
  by (simp add: store_claim_def measure_store_op_def try_finally_def store_call_def assms(1,2) ready_def)

context dedup_store
begin

text \<open>The record a won claim leaves, and that it stays as it is while no call is about the message.\<close>

lemma claim_record:
  assumes "invar s" "in_range now s m" "op_claim ops m now s = (Inr True, s')"
  shows "invar s' \<and> (\<exists>n l. fst (cells now s' m) = Processing n (Some l) \<and> l \<le> now + processing_timeout_seconds cfg * 1000000)"
proof -
  from claim_law [OF assms] obtain l where l: "invar s'" "lease_at cfg now l"
    "(True, cells now s') = a_claim cfg fresh now l m (cells now s)" by auto
  then have "may_claim cfg now (fst (cells now s m))" by (metis a_claim_won fst_conv)
  from claim_wins [OF assms this] l(1) show ?thesis by (auto simp: lease_at_def)
qed

lemma entry_stays:
  "history ops ok_call c as c' \<Longrightarrow> invar (snd c) \<Longrightarrow> \<forall>a \<in> set as. \<not> about m a \<Longrightarrow> alive (fst c') (snd (cells (fst c) (snd c) m)) \<Longrightarrow>
     cells (fst c') (snd c') m = cells (fst c) (snd c) m"
proof (induction rule: history.induct)
  case (more c as c' a c'')
  have le: "fst c' \<le> fst c''" using more.hyps(2) by (rule step_time)
  with more.prems(3) have live: "alive (fst c') (snd (cells (fst c) (snd c) m))" using alive_mono by blast
  with more.IH more.prems have same: "cells (fst c') (snd c') m = cells (fst c) (snd c) m" by auto
  have inv: "invar (snd c')" using history_invar [OF more.hyps(1)] more.prems(1) .
  have "cells (fst c'') (snd c'') m = cells (fst c'') (snd c') m" using step_other [OF more.hyps(2) inv] more.prems(2) by simp
  also have "\<dots> = cells (fst c') (snd c') m" using aged_alive [OF inv le] same more.prems(3) by simp
  finally show ?case using same by simp
qed simp

end

context redis_backend
begin

lemma orphan_handled:
  assumes "redis_ok s0" "redis_range t1 s0 m" "redis_claim env cfg m t1 s0 = (Inr True, s1)"
    and "history (redis_ops env cfg) (call_ok redis_range storable_in_redis redis_reportable) (t1, s1) as (t2, s2)"
    and "\<forall>a \<in> set as. \<not> about m a" "t2 \<le> t3" "t1 + processing_timeout_seconds cfg * 1000000 \<le> t3"
    and "alive t3 (snd (redis_cells t1 s1 m))"
    and "c_store c = redis_ops env cfg" "pf_lag pf (outside w) = (t3, s2, x)" "redis_range t3 s2 m" "r_fault env t3 s2 = None"
    and "ready c w" "1 \<le> max_retries (c_config c)" "extract_message_id pf r = Inr (Some m)" "parse_payload pf r = Inr payload"
    and "process_record pf c r w = (res, w')"
  shows "\<exists>y es. calls w w' = EvClaim m (Inr True) # EvHandle payload y # es"
proof -
  from claim_record [of s0 t1 m s1] assms(1-3) obtain n l where s1: "redis_ok s1" "fst (redis_cells t1 s1 m) = Processing n (Some l)"
    and l: "l \<le> t1 + processing_timeout_seconds cfg * 1000000" by auto
  have "alive t2 (snd (redis_cells t1 s1 m))" using alive_mono [OF assms(8,6)] .
  with entry_stays [OF assms(4), of m] s1(1) assms(5) have same: "redis_cells t2 s2 m = redis_cells t1 s1 m" by simp
  have s2: "redis_ok s2" using history_invar [OF assms(4)] s1(1) by simp
  have "fst (redis_cells t3 s2 m) = Processing n (Some l)"
    using cells_age [OF s2 assms(6)] assms(8) same s1(2) by (simp add: a_age_def)
  with l assms(7) have may: "may_claim cfg t3 (fst (redis_cells t3 s2 m))" by simp
  from claim_answered [OF s2 assms(11,12)] obtain b s3 where claim: "redis_claim env cfg m t3 s2 = (Inr b, s3)"
    "(b, redis_cells t3 s3) = a_claim cfg fresh_until t3 (lease_ms t3 * 1000) m (redis_cells t3 s2)" by blast
  from arg_cong [OF claim(2), of fst] may have "b" by (simp add: a_claim_won)
  with claim(1) have "op_claim (c_store c) m t3 s2 = (Inr True, s3)" by (simp add: assms(9))
  from store_claim_run [OF assms(10) this assms(13)] obtain w1 where
    "store_claim pf c m w = (Inr True, w1)" "rt_trace w1 = rt_trace w @ [EvClaim m (Inr True)]" "ready c w1" .
  from claimed_handled [OF assms(15,16,14) this(3,1,2) assms(17)] show ?thesis .
qed

end

text \<open>
  C5. A crash does not lose a message that is delivered again in time: when a client has won the claim of a message on Redis and
  then does nothing more about it, and \<open>processing_timeout_seconds\<close> later, before the record expires, the message is
  delivered to any consumer on the server, that consumer wins the claim and runs its handler on the payload, whatever calls were
  made about other messages in between.
\<close>

theorem redis_crash_recovered:
  assumes "redis_backend env cfg stored expiry" "redis_backend.redis_ok env stored s0" "redis_backend.redis_range cfg stored t1 s0 m"
    and "redis_claim env cfg m t1 s0 = (Inr True, s1)"
    and "history (redis_ops env cfg) (redis_call cfg stored) (t1, s1) as (t2, s2)"
    and "\<forall>a \<in> set as. \<not> about m a" "t2 \<le> t3" "t1 + processing_timeout_seconds cfg * 1000000 \<le> t3"
    and "alive t3 (snd (redis_backend.redis_cells stored t1 s1 m))"
    and "c_store c = redis_ops env cfg" "pf_lag pf (outside w) = (t3, s2, x)"
    and "redis_backend.redis_range cfg stored t3 s2 m" "r_fault env t3 s2 = None"
    and "ready c w" "1 \<le> max_retries (c_config c)" "extract_message_id pf r = Inr (Some m)" "parse_payload pf r = Inr payload"
    and "process_record pf c r w = (res, w')"
  shows "\<exists>y es. calls w w' = EvClaim m (Inr True) # EvHandle payload y # es"
  by (rule redis_backend.orphan_handled [OF assms])

theorem redis_crash_recovered_witness:
  "\<exists>ks y es. calls (redis_example_world 300000000 ks) (snd (process_record (calm (\<lambda>_. [])) redis_example_consumer example_record
     (redis_example_world 300000000 ks))) = EvClaim ''m'' (Inr True) # EvHandle (PDict []) y # es"
proof -
  obtain ks where ks: "redis_claim calm_server default_config ''m'' 0 Map.empty = (Inr True, ks)"
    "redis_backend.redis_ok calm_server (\<lambda>ks. ks) ks"
    "redis_backend.redis_cells (\<lambda>ks. ks) 0 ks ''m'' = (Processing 1 (Some 300000000), Some (kept_until 0 86400000))"
    by (rule server_first_claim)
  have range: "redis_backend.redis_range default_config (\<lambda>ks. ks) 0 Map.empty ''m''"
    by (rule server_range) (simp_all add: server_empty)
  have live: "alive 300000001 (snd (redis_backend.redis_cells (\<lambda>ks. ks) 0 ks ''m''))" by (simp add: ks(3) alive_def kept_until_def)
  have "fst (redis_backend.redis_cells (\<lambda>ks. ks) 300000001 ks ''m'') = Processing 1 (Some 300000000)"
    using ks(3) live server.cells_age [OF ks(2), of 0 300000001] by (simp add: a_age_def)
  then have range': "redis_backend.redis_range default_config (\<lambda>ks. ks) 300000001 ks ''m''" by (intro server_range) simp_all
  have ready: "ready redis_example_consumer (redis_example_world 300000000 ks)" "1 \<le> max_retries (c_config redis_example_consumer)"
    by (simp_all add: ready_def redis_example_consumer_def redis_example_world_def nonempty_def default_config_def)
  have lag: "pf_lag (calm (\<lambda>_. [])) (outside (redis_example_world 300000000 ks)) = (300000001, ks, 0)"
    by (simp add: redis_example_lag)
  show ?thesis
    using redis_crash_recovered [OF server.redis_backend_axioms server_empty(1) range ks(1) history.none _ _ _ live redis_example_store
      lag range' _ ready example_id example_payload surjective_pairing] by (auto simp: default_fields)
qed

end
