(* ===== verification/Interrupted.thy ===== *)
theory Interrupted
  imports Redis_Redelivery
begin

section \<open>A consumer that is stopped while it handles a message\<close>

text \<open>
  \<open>main\<close> cancels the consumers at shutdown, and a cancellation inside \<open>handle\<close> leaves \<open>_process_record\<close> at once: the record of the
  message stays \<open>PROCESSING\<close> under its lease and the offset is not committed, so Kafka delivers the message again. When the lease
  has ended by then, the message is taken over (C5 of \<open>Redis_Redelivery\<close>). Here the delivery comes before that, on the store that
  \<open>main\<close> uses. As there, what everybody else does in between is a history of calls on the shared server.
\<close>

subsection \<open>One call of the store, exactly\<close>

lemma store_run:
  assumes "pf_lag pf (outside w) = (t, s, x)" "f t s = (y, s')"
  obtains w1 where "measure_store_op name (store_call pf ev f) w = (y, w1)" "rt_trace w1 = rt_trace w @ [ev y]"
    "outside w1 = (t, s', x)" "\<And>c. ready c w1 = ready c w"
proof -
  let ?v = "log_event (ev y) (set_outside (t, s', x) w)"
  have call: "store_call pf ev f w = (y, ?v)" by (simp add: store_call_def assms)
  show ?thesis
    by (rule that, simp only: measure_store_op_def try_finally_def call prod.case)
       (simp_all add: outside_def set_outside_def log_event_def ready_def)
qed

lemma bind_eff_metric: "bind_eff (metric f) k w = k () (w\<lparr>w_metrics := f (w_metrics w)\<rparr>)"
  by (simp add: bind_eff_def metric_def modify_def)

text \<open>The delivery that is cancelled in the handler.\<close>

lemma cancelled_run:
  assumes "extract_message_id pf r = Inr (Some m)" "parse_payload pf r = Inr payload" "1 \<le> max_retries (c_config c)"
    and claim: "store_claim pf c m w = (Inr True, w1)" "rt_trace w1 = rt_trace w @ [EvClaim m (Inr True)]"
    and cancel: "\<And>x. fst (c_handle c payload x) = Inl Cancelled"
    and "process_record pf c r w = (res, w')"
  shows "res = Inl Cancelled \<and> calls w w' = [EvClaim m (Inr True), EvHandle payload (Inl Cancelled)]"
proof -
  let ?w = "w1\<lparr>w_metrics := enter_processing (cr_topic r) (w_metrics w1)\<rparr>"
  obtain y where handle: "c_handle c payload (outside ?w) = (Inl Cancelled, y)"
    using cancel [of "outside ?w"] by (cases "c_handle c payload (outside ?w)") auto
  let ?w2 = "log_event (EvHandle payload (Inl Cancelled)) (set_outside y ?w)"
  have call: "call_handle c payload ?w = (Inl Cancelled, ?w2)" by (simp add: call_handle_def ext_call_def handle)
  have loop: "execute_loop pf c r (Some m) payload 1 None ?w = (Inl Cancelled, ?w2)"
    using assms(3) call by (simp add: execute_loop.simps [of pf c r "Some m" payload 1] bind_eff_def catch_exc_def)
  have exec: "execute_and_commit pf c r (Some m) ?w = (Inl Cancelled, ?w2)"
    using loop by (simp add: execute_and_commit_def assms(2) bind_eff_def)
  have "measure_processing (cr_topic r) (execute_and_commit pf c r (Some m)) w1 = (res, w')"
    using assms(7) by (simp add: process_record_def assms(1) bind_eff_Inr [where m = "store_claim pf c m", OF claim(1)])
  then have "res = Inl Cancelled" "rt_trace w' = rt_trace w1 @ [EvHandle payload (Inl Cancelled)]"
    by (auto simp: measure_processing_def try_finally_def exec log_event_def set_outside_def split: prod.splits)
  with claim(2) show ?thesis by (auto simp: calls_eq)
qed

text \<open>A delivery whose claim is refused because the message is being processed.\<close>

lemma in_progress_run:
  assumes "extract_message_id pf r = Inr (Some m)"
    and claim: "store_claim pf c m w = (Inr False, w1)" "rt_trace w1 = rt_trace w @ [EvClaim m (Inr False)]"
    and status: "store_get_status pf c m w1 = (Inr (Some p), w2)" "rt_trace w2 = rt_trace w1 @ [EvStatus m (Inr (Some p))]"
    and "ps_status p = PROCESSING" "ready c w2" "\<And>x. fst (pf_commit pf x) = Inr ()"
    and "process_record pf c r w = (res, w')"
  shows "res = Inr () \<and> calls w w' = [EvClaim m (Inr False), EvStatus m (Inr (Some p)), EvCommit (Inr ())]"
proof -
  let ?w3 = "w2\<lparr>w_metrics := record_claim_lost (cr_topic r) (w_metrics w2)\<rparr>"
  have "commit_offset pf c r ?w3 = (res, w')"
    using assms(9) assms(6)
    by (simp add: process_record_def assms(1) bind_eff_Inr [where m = "store_claim pf c m", OF claim(1)]
        bind_eff_Inr [where m = "store_get_status pf c m", OF status(1)] bind_eff_metric)
  moreover have "w_consumer ?w3" using assms(7) by (simp add: ready_def)
  ultimately have commit: "ext_call EvCommit (pf_commit pf) ?w3 = (res, w')" by (simp add: commit_offset_def)
  then have "res = Inr ()" using assms(8) [of "outside ?w3"] by (auto simp: ext_call_def split: prod.splits)
  with ext_call_trace [OF commit] claim(2) status(2) show ?thesis by (auto simp: calls_eq)
qed

subsection \<open>On the shared store\<close>

context dedup_store
begin

text \<open>A won claim takes the message until its lease ends, to the resolution of the clock that the store compares with.\<close>

lemma claim_holds:
  assumes "invar s" "in_range now s m" "op_claim ops m now s = (Inr True, s')"
  shows "invar s' \<and> (\<exists>n l. fst (cells now s' m) = Processing n (Some l) \<and> now + processing_timeout_seconds cfg * 1000000 - 1000 < l)"
proof -
  from claim_law [OF assms] obtain l where l: "invar s'" "lease_at cfg now l"
    "(True, cells now s') = a_claim cfg fresh now l m (cells now s)" by auto
  then have "may_claim cfg now (fst (cells now s m))" by (metis a_claim_won fst_conv)
  from claim_wins [OF assms this] l(1) show ?thesis by (auto simp: lease_at_def)
qed

text \<open>A record that is alive stays while the calls are about other messages.\<close>

lemma entry_kept:
  assumes "history ops ok_call (t, s) as (t', s')" "invar s" "\<forall>a \<in> set as. \<not> about m a" "t' \<le> t''"
    and "alive t'' (snd (cells t s m))"
  shows "invar s' \<and> cells t'' s' m = cells t s m"
proof -
  have inv: "invar s'" using history_invar [OF assms(1)] assms(2) by simp
  have "cells t' s' m = cells t s m"
    using entry_stays [OF assms(1), of m] assms(2,3) alive_mono [OF assms(5,4)] by simp
  with aged_alive [OF inv assms(4)] assms(5) inv show ?thesis by simp
qed

end

context redis_backend
begin

lemma second_delivery:
  assumes "redis_ok s1" "fst (redis_cells t1 s1 m) = Processing n (Some l)"
    and "history (redis_ops env cfg) (call_ok redis_range storable_in_redis redis_reportable) (t1, s1) as (t2, s2)"
    and "\<forall>a \<in> set as. \<not> about m a" "t2 \<le> t3" "t3 < l"
    and "c_store c = redis_ops env cfg" "pf_lag pf (outside w) = (t3, s2, x)" "redis_range t3 s2 m" "r_fault env t3 s2 = None"
    and "redis_claim env cfg m t3 s2 = (y, s3)" "pf_lag pf (t3, s3, x) = (t5, s4, x')"
    and "history (redis_ops env cfg) (call_ok redis_range storable_in_redis redis_reportable) (t3, s3) bs (t4, s4)"
    and "\<forall>a \<in> set bs. \<not> about m a" "t4 \<le> t5" "alive t5 (snd (redis_cells t1 s1 m))" "r_fault env t5 s4 = None"
    and "ready c w" "extract_message_id pf r = Inr (Some m)" "\<And>x. fst (pf_commit pf x) = Inr ()"
    and "process_record pf c r w = (res, w')"
  shows "res = Inr () \<and> (\<exists>p. ps_status p = PROCESSING
    \<and> calls w w' = [EvClaim m (Inr False), EvStatus m (Inr (Some p)), EvCommit (Inr ())])"
proof -
  have "t3 \<le> t4" using history_time [OF assms(13)] by simp
  then have "alive t3 (snd (redis_cells t1 s1 m))" using alive_mono [OF assms(16)] assms(15) by simp
  from entry_kept [OF assms(3,1,4,5) this] have s2: "redis_ok s2" and same: "redis_cells t3 s2 m = redis_cells t1 s1 m" by simp_all
  have lost: "\<not> may_claim cfg t3 (fst (redis_cells t3 s2 m))" using assms(2,6) same by simp
  from claim_answered [OF s2 assms(9,10)] obtain b where y: "y = Inr b" using assms(11) by auto
  from claim_loses [OF s2 assms(9) _ lost, of b s3] assms(11) y have b: "\<not> b" and s3: "redis_cells t3 s3 = redis_cells t3 s2" by simp_all
  have "redis_ok s3" using redis_claim_run [OF s2 assms(9,11)] by simp
  from entry_kept [OF assms(13) this assms(14,15)] assms(16) s3 same
  have s4: "redis_ok s4" and same': "redis_cells t5 s4 m = redis_cells t1 s1 m" by simp_all
  from status_answered [OF s4 assms(17)] obtain q where q: "redis_get_status env m t5 s4 = (Inr q, s4)"
    "entry_of q = Processing n (Some l)" using same' assms(2) by metis
  then obtain p where p: "q = Some p" "ps_status p = PROCESSING"
    by (auto simp: entry_of_def split: option.splits StatusValue.splits)
  have "op_claim (c_store c) m t3 s2 = (Inr False, s3)" using assms(7,11) y b by simp
  from store_run [where f = "op_claim (c_store c) m", OF assms(8) this] obtain w1 where w1: "store_claim pf c m w = (Inr False, w1)"
    "rt_trace w1 = rt_trace w @ [EvClaim m (Inr False)]" "outside w1 = (t3, s3, x)" "\<And>c. ready c w1 = ready c w"
    unfolding store_claim_def by metis
  have "op_get_status (c_store c) m t5 s4 = (Inr (Some p), s4)" using assms(7) q(1) p(1) by simp
  from store_run [where f = "op_get_status (c_store c) m", OF assms(12) [folded w1(3)] this] obtain w2 where w2: "store_get_status pf c m w1 = (Inr (Some p), w2)"
    "rt_trace w2 = rt_trace w1 @ [EvStatus m (Inr (Some p))]" "\<And>c. ready c w2 = ready c w1"
    unfolding store_get_status_def by metis
  have "ready c w2" using w2(3) w1(4) assms(18) by simp
  from in_progress_run [OF assms(19) w1(1,2) w2(1,2) p(2) this assms(20,21)] p(2) show ?thesis by blast
qed

lemma interrupted_then_skipped:
  assumes "redis_ok s0" "redis_range t1 s0 m" "redis_claim env cfg m t1 s0 = (Inr True, s1)"
    and "c_store c = redis_ops env cfg" "pf_lag pf (outside w) = (t1, s0, x0)"
    and "extract_message_id pf r = Inr (Some m)" "parse_payload pf r = Inr payload" "1 \<le> max_retries (c_config c)"
    and "\<And>x. fst (c_handle c payload x) = Inl Cancelled" "process_record pf c r w = (res, w1)"
    and "history (redis_ops env cfg) (call_ok redis_range storable_in_redis redis_reportable) (t1, s1) as (t2, s2)"
    and "\<forall>a \<in> set as. \<not> about m a" "t2 \<le> t3" "t3 + 1000 \<le> t1 + processing_timeout_seconds cfg * 1000000"
    and "c_store c' = redis_ops env cfg" "pf_lag pf' (outside w2) = (t3, s2, x)" "redis_range t3 s2 m" "r_fault env t3 s2 = None"
    and "redis_claim env cfg m t3 s2 = (y, s3)" "pf_lag pf' (t3, s3, x) = (t5, s4, x')"
    and "history (redis_ops env cfg) (call_ok redis_range storable_in_redis redis_reportable) (t3, s3) bs (t4, s4)"
    and "\<forall>a \<in> set bs. \<not> about m a" "t4 \<le> t5" "alive t5 (snd (redis_cells t1 s1 m))" "r_fault env t5 s4 = None"
    and "ready c' w2" "extract_message_id pf' r' = Inr (Some m)" "\<And>x. fst (pf_commit pf' x) = Inr ()"
    and "process_record pf' c' r' w2 = (res', w3)"
  shows "res = Inl Cancelled \<and> calls w w1 = [EvClaim m (Inr True), EvHandle payload (Inl Cancelled)] \<and> res' = Inr ()
     \<and> (\<exists>p. ps_status p = PROCESSING \<and> calls w2 w3 = [EvClaim m (Inr False), EvStatus m (Inr (Some p)), EvCommit (Inr ())])"
proof -
  have "op_claim (c_store c) m t1 s0 = (Inr True, s1)" using assms(3,4) by simp
  from store_run [where f = "op_claim (c_store c) m", OF assms(5) this] obtain v where v: "store_claim pf c m w = (Inr True, v)"
    "rt_trace v = rt_trace w @ [EvClaim m (Inr True)]" unfolding store_claim_def by metis
  from claim_holds [of s0 t1 m s1] assms(1-3) obtain n l where s1: "redis_ok s1" "fst (redis_cells t1 s1 m) = Processing n (Some l)"
    and l: "t1 + processing_timeout_seconds cfg * 1000000 - 1000 < l" by auto
  have "t3 < l" using l assms(14) by simp
  from cancelled_run [OF assms(6-8) v assms(9,10)] second_delivery [OF s1 assms(11-13) this assms(15-29)]
  show ?thesis by blast
qed

end

text \<open>
  C11. What a stop in mid-message costs on Redis. A consumer wins the claim of a message and is cancelled inside its handler: the
  delivery ends there, with nothing completed, failed or committed. When the same message is delivered again, to this consumer
  or another one on the server, with its claim reaching the server before the lease of \<open>processing_timeout_seconds\<close> has ended
  (to a millisecond), nobody having called the store about the message in between, then the server's answers being what they
  are: the claim is refused, the status read is \<open>PROCESSING\<close>, the handler is not run, and the offset is committed. So this
  delivery is spent without the message having been handled.
\<close>

theorem interrupted_message_skipped:
  assumes "redis_backend env cfg stored expiry" "redis_backend.redis_ok env stored s0" "redis_backend.redis_range cfg stored t1 s0 m"
    and "redis_claim env cfg m t1 s0 = (Inr True, s1)"
    and "c_store c = redis_ops env cfg" "pf_lag pf (outside w) = (t1, s0, x0)"
    and "extract_message_id pf r = Inr (Some m)" "parse_payload pf r = Inr payload" "1 \<le> max_retries (c_config c)"
    and "\<And>x. fst (c_handle c payload x) = Inl Cancelled" "process_record pf c r w = (res, w1)"
    and "history (redis_ops env cfg) (redis_call cfg stored) (t1, s1) as (t2, s2)"
    and "\<forall>a \<in> set as. \<not> about m a" "t2 \<le> t3" "t3 + 1000 \<le> t1 + processing_timeout_seconds cfg * 1000000"
    and "c_store c' = redis_ops env cfg" "pf_lag pf' (outside w2) = (t3, s2, x)"
    and "redis_backend.redis_range cfg stored t3 s2 m" "r_fault env t3 s2 = None"
    and "redis_claim env cfg m t3 s2 = (y, s3)" "pf_lag pf' (t3, s3, x) = (t5, s4, x')"
    and "history (redis_ops env cfg) (redis_call cfg stored) (t3, s3) bs (t4, s4)"
    and "\<forall>a \<in> set bs. \<not> about m a" "t4 \<le> t5" "alive t5 (snd (redis_backend.redis_cells stored t1 s1 m))" "r_fault env t5 s4 = None"
    and "ready c' w2" "extract_message_id pf' r' = Inr (Some m)" "\<And>x. fst (pf_commit pf' x) = Inr ()"
    and "process_record pf' c' r' w2 = (res', w3)"
  shows "res = Inl Cancelled \<and> calls w w1 = [EvClaim m (Inr True), EvHandle payload (Inl Cancelled)] \<and> res' = Inr ()
     \<and> (\<exists>p. ps_status p = PROCESSING \<and> calls w2 w3 = [EvClaim m (Inr False), EvStatus m (Inr (Some p)), EvCommit (Inr ())])"
  by (rule redis_backend.interrupted_then_skipped [OF assms])

text \<open>A consumer that is cancelled, and one that takes over a second later.\<close>

definition redis_stopped_consumer :: "(keyspace, nat) consumer" where
  "redis_stopped_consumer = redis_example_consumer\<lparr>c_handle := \<lambda>_. raise Cancelled\<rparr>"

theorem interrupted_message_skipped_witness:
  "\<exists>ks p. redis_claim calm_server default_config ''m'' 0 Map.empty = (Inr True, ks) \<and> ps_status p = PROCESSING \<and>
     calls (redis_example_world 1000000 ks) (snd (process_record (calm (\<lambda>_. [])) redis_example_consumer example_record
       (redis_example_world 1000000 ks))) = [EvClaim ''m'' (Inr False), EvStatus ''m'' (Inr (Some p)), EvCommit (Inr ())]"
proof -
  obtain ks where ks: "redis_claim calm_server default_config ''m'' 0 Map.empty = (Inr True, ks)"
    "redis_backend.redis_ok calm_server (\<lambda>ks. ks) ks"
    "redis_backend.redis_cells (\<lambda>ks. ks) 0 ks ''m'' = (Processing 1 (Some 300000000), Some (kept_until 0 86400000))"
    by (rule server_first_claim)
  have range: "redis_backend.redis_range default_config (\<lambda>ks. ks) 0 Map.empty ''m''"
    by (rule server_range) (simp_all add: server_empty)
  have live: "alive 1000002 (snd (redis_backend.redis_cells (\<lambda>ks. ks) 0 ks ''m''))" by (simp add: ks(3) alive_def kept_until_def)
  then have "alive 1000001 (snd (redis_backend.redis_cells (\<lambda>ks. ks) 0 ks ''m''))" by (rule alive_mono) simp
  then have "fst (redis_backend.redis_cells (\<lambda>ks. ks) 1000001 ks ''m'') = Processing 1 (Some 300000000)"
    using ks(3) server.cells_age [OF ks(2), of 0 1000001] by (simp add: a_age_def)
  then have range': "redis_backend.redis_range default_config (\<lambda>ks. ks) 1000001 ks ''m''" by (intro server_range) simp_all
  obtain y ks' where claim: "redis_claim calm_server default_config ''m'' 1000001 ks = (y, ks')"
    by (cases "redis_claim calm_server default_config ''m'' 1000001 ks")
  have stopped: "c_store redis_stopped_consumer = redis_ops calm_server default_config"
    "1 \<le> max_retries (c_config redis_stopped_consumer)" "fst (c_handle redis_stopped_consumer (PDict []) x) = Inl Cancelled" for x
    by (simp_all add: redis_stopped_consumer_def redis_example_consumer_def default_config_def raise_def)
  have lag: "pf_lag (calm (\<lambda>_. [])) (outside (redis_example_world (-1) Map.empty)) = (0, Map.empty, 0)"
    "pf_lag (calm (\<lambda>_. [])) (outside (redis_example_world 1000000 ks)) = (1000001, ks, 0)"
    "pf_lag (calm (\<lambda>_. [])) (1000001, ks', 0) = (1000002, ks', 0)"
    by (simp_all add: redis_example_lag) (simp add: calm_def)
  have ready: "ready redis_example_consumer (redis_example_world 1000000 ks)"
    by (simp add: ready_def redis_example_consumer_def redis_example_world_def nonempty_def)
  have commit: "fst (pf_commit (calm (\<lambda>_. [])) x) = Inr ()" for x :: "(keyspace, nat) outside" by (simp add: calm_def ret_def)
  have times: "(1000001 :: int) + 1000 \<le> 0 + processing_timeout_seconds default_config * 1000000" by (simp add: default_fields)
  have free: "r_fault calm_server t s = None" for t s by (simp add: calm_fault)
  show ?thesis
    using interrupted_message_skipped [OF server.redis_backend_axioms server_empty(1) range ks(1) stopped(1) lag(1) example_id example_payload
      stopped(2,3) surjective_pairing history.none _ _ times redis_example_store lag(2) range' free claim lag(3) history.none _ _ live free
      ready example_id commit surjective_pairing] ks(1) by auto
qed

end
