(* ===== verification/First_Failure.thy ===== *)
theory First_Failure
  imports Redelivery
begin

section \<open>Without retry_failed\<close>

text \<open>
  \<open>retry_failed=False\<close> on the store: a message that failed is not claimed again. Nor is it within the retry loop of the consumer,
  whose \<open>claim\<close> after the backoff goes to the same store. Here a consumer runs on the in-memory store and nobody else touches the
  record of the message (\<open>keeps_entry\<close>). The account \<open>stand\<close> of the store reads from the calls that the message was claimed, and
  that its failure was noted; a claim after that (\<open>Regained\<close>) cannot have been won.
\<close>

definition keeps_entry :: "string \<Rightarrow> (mem_state, 'u) outside \<Rightarrow> (mem_state, 'u) outside \<Rightarrow> bool" where
  "keeps_entry m x y \<longleftrightarrow> map_of (fst (snd y)) m = map_of (fst (snd x)) m"

datatype standing = Unclaimed | Working | Given_up | Regained

fun stand :: "string \<Rightarrow> standing \<Rightarrow> event \<Rightarrow> standing" where
  "stand m z (EvClaim k x) =
     (if k = m \<and> x = Inr True then (if z = Unclaimed \<or> z = Working then Working else Regained) else z)"
| "stand m z (EvFailed k e n x) = (if k = m \<and> x = Inr () \<and> z = Working then Given_up else z)"
| "stand m z _ = z"

fun stands :: "string \<Rightarrow> standing \<Rightarrow> mem_state \<Rightarrow> bool" where
  "stands m Unclaimed st = True"
| "stands m Working st = (\<exists>p. map_of st m = Some p)"
| "stands m Given_up st = (\<exists>p. map_of st m = Some p \<and> ps_status p = FAILED)"
| "stands m Regained st = False"

lemma stands_entry: "map_of st' m = map_of st m \<Longrightarrow> stands m z st' = stands m z st"
  by (cases z) simp_all

lemma stands_kept: "keeps_entry m (t, s, u) (t', s', u') \<Longrightarrow> stands m z s \<Longrightarrow> stands m z s'"
  using stands_entry [of s' m s z] by (simp add: keeps_entry_def)

interpretation standing: account "stand m" Unclaimed "stands m" "keeps_entry m" for m
  by unfold_locales (auto dest: stands_kept)

text \<open>The methods of the store, with \<open>retry_failed\<close> off.\<close>

lemma stand_claim:
  assumes "\<not> retry_failed cfg"
  shows "tells (stand m) (stands m) (mem_claim cfg k) (EvClaim k)"
proof (rule tellsI)
  fix t st r st' z assume run: "mem_claim cfg k t st = (r, st')" and h: "stands m z st"
  show "stands m (stand m z (EvClaim k r)) st'"
  proof (cases "k = m")
    case True
    then show ?thesis
      using run h assms by (cases z) (auto simp: mem_claim_def Let_def is_failed_def dict_simps split: option.splits if_splits)
  next
    case False
    then have "map_of st' m = map_of st m"
      using run by (auto simp: mem_claim_def Let_def dict_simps split: option.splits if_splits)
    from stands_entry [OF this, of z] h False show ?thesis by simp
  qed
qed

lemma stand_failed: "tells (stand m) (stands m) (mem_mark_failed k e n) (EvFailed k e n)"
proof (rule tellsI)
  fix t st r st' z assume "mem_mark_failed k e n t st = (r, st')" "stands m z st"
  then show "stands m (stand m z (EvFailed k e n r)) st'"
    by (cases z) (auto simp: mem_mark_failed_def dict_simps split: option.splits)
qed

lemma stand_completed: "tells (stand m) (stands m) (mem_mark_completed k v) (EvCompleted k v)"
proof (rule tellsI)
  fix t st r st' z assume "mem_mark_completed k v t st = (r, st')" "stands m z st"
  then show "stands m (stand m z (EvCompleted k v r)) st'"
    by (cases z) (auto simp: mem_mark_completed_def dict_simps split: option.splits if_splits)
qed

lemma stand_status: "tells (stand m) (stands m) (mem_get_status k) (EvStatus k)"
  by (rule tellsI) (auto simp: mem_get_status_def)

text \<open>So no delivery wins the claim of a message after it noted its failure.\<close>

lemma not_regained:
  assumes "c_store c = mem_ops cfg" "\<not> retry_failed cfg" "moves_by (keeps_entry m) pf c" "process_record pf c r w = (res, w')"
  shows "foldl (stand m) Unclaimed (calls w w') \<noteq> Regained"
proof -
  have "stands m (foldl (stand m) Unclaimed (calls w w')) (rt_store w')"
    by (rule standing.delivery_account [OF assms(3) _ _ _ _ assms(4)])
       (simp_all add: assms(1) stand_claim [OF assms(2)] stand_status stand_failed stand_completed)
  then show ?thesis by auto
qed

subsection \<open>One attempt\<close>

text \<open>How far the delivery has come, what the account says, and how often the handler ran.\<close>

fun agrees :: "phase \<Rightarrow> standing \<Rightarrow> nat \<Rightarrow> bool" where
  "agrees Fresh z h = (h = 0 \<and> z = Unclaimed)"
| "agrees (Held k s) z h = (h = 0 \<and> z = Working)"
| "agrees (Raised k s) z h = (h = 1 \<and> z = Working)"
| "agrees (Noted k s) z h = (h = 1 \<and> z = Given_up)"
| "agrees (Rested k s) z h = (h = 1 \<and> z = Given_up)"
| "agrees _ z h = (h \<le> 1)"

lemma agrees_le: "agrees q z h \<Longrightarrow> h \<le> 1"
  by (cases q) auto

lemma life_agrees:
  assumes "life pf c r (Some m) payload q ev = Some q'" "m \<noteq> []" "agrees q z h" "stand m z ev \<noteq> Regained"
  shows "agrees q' (stand m z ev) (h + (if is_handle ev then 1 else 0))"
  using assms
  by (auto simp: life_cases nonempty_def split: phase.splits event.splits if_splits sum.splits exn.splits)

lemma regained_stays: "foldl (stand m) Regained es = Regained"
proof (induction es)
  case (Cons e es)
  have "stand m Regained e = Regained" by (cases e) auto
  with Cons show ?case by simp
qed simp

lemma follow_agrees:
  assumes "m \<noteq> []"
  shows "follow (life pf c r (Some m) payload) q es = Some q' \<Longrightarrow> agrees q z h \<Longrightarrow> foldl (stand m) z es \<noteq> Regained \<Longrightarrow>
     h + handles es \<le> 1"
proof (induction es arbitrary: q z h)
  case Nil
  then show ?case using agrees_le [of q z h] by (simp add: handles_def)
next
  case (Cons e es)
  then obtain q1 where q1: "life pf c r (Some m) payload q e = Some q1" "follow (life pf c r (Some m) payload) q1 es = Some q'"
    by (auto split: option.splits)
  have "stand m z e \<noteq> Regained" using Cons.prems(3) regained_stays [of m es] by auto
  from Cons.IH [OF q1(2) life_agrees [OF q1(1) assms Cons.prems(2) this]] Cons.prems(3) show ?case
    by (simp add: handles_def split: if_splits)
qed

lemma handled_once_only:
  assumes "handles es \<le> 1" "EvHandle p x \<in> set es" "EvHandle p' x' \<in> set es"
  shows "x = x'"
proof (rule ccontr)
  assume "x \<noteq> x'"
  let ?hs = "filter is_handle es"
  have "card (set ?hs) \<le> 1" using assms(1) card_length [of ?hs] by (simp add: handles_def)
  moreover have "{EvHandle p x, EvHandle p' x'} \<subseteq> set ?hs" using assms(2,3) by simp
  then have "card {EvHandle p x, EvHandle p' x'} \<le> card (set ?hs)" by (intro card_mono) simp_all
  ultimately show False using \<open>x \<noteq> x'\<close> by simp
qed

text \<open>After a failure there is no completion, and a delivery that returns has sent the dead letter.\<close>

lemma completed_after_handle:
  assumes "follow (life pf c r (Some m) payload) (first_phase c (Some m)) es = Some q" "EvCompleted k v x \<in> set es"
  shows "EvHandle payload (Inr v) \<in> set es"
proof -
  from assms(2) obtain xs ys where es: "es = xs @ EvCompleted k v x # ys" by (auto dest: split_list)
  with assms(1) obtain q0 q1 where q0: "follow (life pf c r (Some m) payload) (first_phase c (Some m)) xs = Some q0"
    "life pf c r (Some m) payload q0 (EvCompleted k v x) = Some q1" by (auto elim: follow_split)
  then have "q0 = Succeeded v" by (auto simp: life_def split: phase.splits if_splits)
  with q0(1) show ?thesis
    by (cases rule: follow_snoc) (auto simp: es first_phase_def dest: life_into_Succeeded)
qed

lemma failed_dead_letter:
  assumes "follow (life pf c r (Some m) payload) (first_phase c (Some m)) es = Some Committed" "handles es \<le> 1"
    and "EvHandle p (Inl e) \<in> set es" "c_dlq_topic c = Some topic" "topic \<noteq> []" "m \<noteq> []"
  shows "\<exists>body. EvSend topic body (cr_key r) (Inr ()) \<in> set es"
proof -
  have "EvHandle p' (Inr v) \<notin> set es" for p' v using handled_once_only [OF assms(2,3), of p' "Inr v"] by auto
  moreover have "nonempty (c_dlq_topic c)" using assms(4,5) by (simp add: nonempty_def)
  ultimately obtain xs t body where "es = xs @ [EvSend t body (cr_key r) (Inr ()), EvCommit (Inr ())]" "c_dlq_topic c = Some t"
    using committed_unhandled [OF assms(1,6) _ assms(3)] by blast
  then show ?thesis using assms(4) by auto
qed

text \<open>
  C13. With \<open>retry_failed=False\<close> the consumer makes one attempt, whatever \<open>max_retries\<close> says: on the in-memory store, while nobody
  else touches the record of the message, a delivery runs the handler at most once. If the handler raises, the message is
  not completed, and a delivery that returns has sent the message to the dead-letter topic, if there is one.
\<close>

theorem single_attempt:
  assumes "c_store c = mem_ops cfg" "\<not> retry_failed cfg" "moves_by (keeps_entry m) pf c" "ready c w"
    and "extract_message_id pf r = Inr (Some m)" "m \<noteq> []" "parse_payload pf r = Inr payload"
    and "process_record pf c r w = (res, w')"
  shows "handles (calls w w') \<le> 1
    \<and> (EvHandle payload (Inl e) \<in> set (calls w w') \<longrightarrow> (\<forall>v x. EvCompleted m v x \<notin> set (calls w w'))
       \<and> (res = Inr () \<and> c_dlq_topic c = Some topic \<and> topic \<noteq> [] \<longrightarrow> (\<exists>body. EvSend topic body (cr_key r) (Inr ()) \<in> set (calls w w'))))"
proof -
  obtain q where q: "follow (life pf c r (Some m) payload) (first_phase c (Some m)) (calls w w') = Some q" "over pf r res q"
    by (rule record_history [OF assms(4,5,7,8)])
  have once: "handles (calls w w') \<le> 1"
    using follow_agrees [OF assms(6) q(1), of Unclaimed 0] not_regained [OF assms(1-3,8)] by (simp add: first_phase_def)
  have "EvCompleted m v x \<notin> set (calls w w')" if "EvHandle payload (Inl e) \<in> set (calls w w')" for v x
    using completed_after_handle [OF q(1), of m v x] handled_once_only [OF once that, of payload "Inr v"] by auto
  moreover have "q = Committed" if "res = Inr ()" using over_Committed [OF q(2)] that by simp
  ultimately show ?thesis using once failed_dead_letter [OF _ once _ _ _ assms(6)] q(1) by blast
qed

text \<open>Two retries are allowed and none is made.\<close>

definition no_retry_consumer :: "(mem_state, nat) consumer" where
  "no_retry_consumer = (example_consumer 1)\<lparr>c_store := mem_ops (default_config\<lparr>retry_failed := False\<rparr>)\<rparr>"

definition no_retry_after :: "(mem_state, nat) world" where
  "no_retry_after = snd (process_record (calm (\<lambda>_. [])) no_retry_consumer example_record (example_world []))"

theorem single_attempt_witness:
  "max_retries (c_config no_retry_consumer) = 3 \<and> handles (calls (example_world []) no_retry_after) \<le> 1"
proof -
  have store: "c_store no_retry_consumer = mem_ops (default_config\<lparr>retry_failed := False\<rparr>)"
    "\<not> retry_failed (default_config\<lparr>retry_failed := False\<rparr>)" "ready no_retry_consumer (example_world [])"
    by (simp_all add: no_retry_consumer_def ready_def example_world_def example_consumer_def nonempty_def)
  have moves: "moves_by (keeps_entry ''m'') (calm (\<lambda>_. [])) no_retry_consumer"
    by (auto simp: moves_by_def keeps_entry_def calm_def no_retry_consumer_def example_consumer_def flaky_def ret_def split: prod.splits)
  have run: "process_record (calm (\<lambda>_. [])) no_retry_consumer example_record (example_world []) =
      (fst (process_record (calm (\<lambda>_. [])) no_retry_consumer example_record (example_world [])), no_retry_after)"
    by (simp add: no_retry_after_def)
  have "max_retries (c_config no_retry_consumer) = 3" by (simp add: no_retry_consumer_def example_consumer_def default_config_def)
  with single_attempt [OF store(1,2) moves store(3) example_id _ example_payload run] show ?thesis by simp
qed

end
