(* ===== verification/Liveness.thy ===== *)
theory Liveness
  imports Consumer_Run Carry
begin

section \<open>When the services answer, every record is dealt with\<close>

text \<open>
  \<open>dependable pf c\<close>: the calls of the consumer return, except that the handler and \<open>mark_completed\<close> may raise exceptions
  (no cancellation, and with a message that is text). Then the history of a delivery has no event that would break it off
  (\<open>unbroken\<close>), and the automaton of \<open>Lifecycle\<close> leaves only one way to end: the commit.
\<close>

fun unbroken :: "event \<Rightarrow> bool" where
  "unbroken (EvHandle p x) = (case x of Inl Cancelled \<Rightarrow> False | Inl (Exc t s) \<Rightarrow> utf8_ok s | Inr v \<Rightarrow> True)"
| "unbroken (EvClaim m x) = (\<not> isl x)"
| "unbroken (EvStatus m x) = (\<not> isl x)"
| "unbroken (EvCompleted m v x) = (x \<noteq> Inl Cancelled)"
| "unbroken (EvFailed m e n x) = (\<not> isl x)"
| "unbroken (EvSleep d x) = (\<not> isl x)"
| "unbroken (EvCommit x) = (\<not> isl x)"
| "unbroken (EvSend t v k x) = (\<not> isl x)"
| "unbroken (EvStart x) = (\<not> isl x)"
| "unbroken (EvStop x) = (\<not> isl x)"

definition dependable :: "('s, 'u) platform \<Rightarrow> ('s, 'u) consumer \<Rightarrow> bool" where
  "dependable pf c \<longleftrightarrow>
     (\<forall>k t s. \<not> isl (fst (op_claim (c_store c) k t s))) \<and> (\<forall>k t s. \<not> isl (fst (op_get_status (c_store c) k t s)))
     \<and> (\<forall>k e n t s. \<not> isl (fst (op_mark_failed (c_store c) k e n t s)))
     \<and> (\<forall>k v t s. fst (op_mark_completed (c_store c) k v t s) \<noteq> Inl Cancelled)
     \<and> (\<forall>p x. unbroken (EvHandle p (fst (c_handle c p x))))
     \<and> (\<forall>x. \<not> isl (fst (pf_commit pf x))) \<and> (\<forall>d x. \<not> isl (fst (pf_sleep pf d x)))
     \<and> (\<forall>t v k x. \<not> isl (fst (pf_send pf t v k x)))"

definition unbroken_since :: "nat \<Rightarrow> ('s, 'u) world \<Rightarrow> bool" where
  "unbroken_since n w \<longleftrightarrow> n \<le> length (rt_trace w) \<and> (\<forall>ev \<in> set (drop n (rt_trace w)). unbroken ev)"

lemma unbroken_event: "unbroken_since n w \<Longrightarrow> rt_trace w' = rt_trace w @ [ev] \<Longrightarrow> unbroken ev \<Longrightarrow> unbroken_since n w'"
  by (auto simp: unbroken_since_def)

lemma unbroken_ext_call:
  assumes "\<And>x. unbroken (ev (fst (f x)))"
  shows "preserves (unbroken_since n) (ext_call ev f)"
proof (rule preservesI)
  fix w r w' assume w: "unbroken_since n w" and run: "ext_call ev f w = (r, w')"
  have "r = fst (f (outside w))" using run by (auto simp: ext_call_def split: prod.splits)
  with assms have "unbroken (ev r)" by simp
  with unbroken_event [OF w ext_call_trace [OF run]] show "unbroken_since n w'" .
qed

lemma unbroken_store_call:
  assumes "\<And>t s. unbroken (ev (fst (f t s)))"
  shows "preserves (unbroken_since n) (store_call pf ev f)"
proof (rule preservesI)
  fix w r w' assume w: "unbroken_since n w" and run: "store_call pf ev f w = (r, w')"
  have "\<exists>t s. r = fst (f t s)" using run by (auto simp: store_call_def split: prod.splits) (metis fst_conv)
  with assms have "unbroken (ev r)" by auto
  with unbroken_event [OF w store_call_trace [OF run]] show "unbroken_since n w'" .
qed

lemma carries_unbroken: "dependable pf c \<Longrightarrow> carries (unbroken_since n) pf c"
  unfolding carries_def dependable_def
  by (intro conjI allI unbroken_ext_call unbroken_store_call; simp add: unbroken_since_def del: split_paired_All)

lemma unbroken_calls:
  assumes "dependable pf c" "process_record pf c r w = (res, w')"
  shows "\<forall>ev \<in> set (calls w w'). unbroken ev"
proof -
  have "unbroken_since (length (rt_trace w)) w" by (simp add: unbroken_since_def)
  from preservesD [OF preserves_process_record [OF carries_unbroken [OF assms(1)]] this assms(2)]
  show ?thesis by (simp add: unbroken_since_def calls_def)
qed

subsection \<open>Only the commit is left\<close>

lemma life_unbroken: "life pf c r mid payload q ev = Some q' \<Longrightarrow> unbroken ev \<Longrightarrow> q' \<noteq> Aborted"
  by (auto simp: life_cases split: phase.splits event.splits if_splits sum.splits exn.splits)

lemma follow_unbroken:
  "follow (life pf c r mid payload) q es = Some q' \<Longrightarrow> \<forall>ev \<in> set es. unbroken ev \<Longrightarrow> q \<noteq> Aborted \<Longrightarrow> q' \<noteq> Aborted"
  by (induction es arbitrary: q) (auto split: option.splits dest: life_unbroken)

lemma last_failure_text: "\<forall>ev \<in> set es. unbroken ev \<Longrightarrow> utf8_ok s \<Longrightarrow> utf8_ok (last_failure s es)"
proof (induction es arbitrary: s)
  case (Cons e es)
  have "utf8_ok (case e of EvHandle p x \<Rightarrow> (case x of Inl (Exc t s') \<Rightarrow> s' | _ \<Rightarrow> s) | _ \<Rightarrow> s)"
    using Cons.prems by (auto split: event.splits sum.splits exn.splits)
  from Cons.IH [OF _ this] Cons.prems show ?case by simp
qed simp

text \<open>What a record needs so that its dead letter is JSON; Kafka's offsets and partitions are within these bounds.\<close>

definition encodable :: "ConsumerRecord \<Rightarrow> bool" where
  "encodable r \<longleftrightarrow> utf8_ok (cr_topic r) \<and> \<bar>cr_offset r\<bar> \<le> 2 ^ 63 \<and> \<bar>cr_partition r\<bar> \<le> 2 ^ 63"

lemma record_committed:
  assumes "dependable pf c" "ready c w" "encodable r"
    and "extract_message_id pf r = Inr mid" "parse_payload pf r = Inr payload"
    and run: "process_record pf c r w = (res, w')"
  shows "res = Inr () \<and> (\<exists>es. calls w w' = es @ [EvCommit (Inr ())])"
proof -
  obtain q where q: "follow (life pf c r mid payload) (first_phase c mid) (calls w w') = Some q" "over pf r res q"
    using record_history [OF assms(2,4,5) run] by blast
  note ok = unbroken_calls [OF assms(1) run]
  have start: "first_phase c mid \<noteq> Aborted" "first_phase c mid \<noteq> Committed" by (simp_all add: first_phase_def held_def)
  have "q \<noteq> Aborted" by (rule follow_unbroken [OF q(1) ok start(1)])
  moreover have False if "q = Spent s" "json_dumps (pf_repr pf) (dlq_payload r s) = Inl e" for s e
  proof -
    have "s = last_failure ''None'' (calls w w')" using q(1) that(1) by (auto dest: last_failure_Spent)
    moreover have "utf8_ok ''None''" by code_simp
    ultimately have "json_ok (dlq_payload r s)"
      using last_failure_text [OF ok] assms(3) by (intro dlq_payload_json_ok) (auto simp: encodable_def)
    with loads_dumps [OF this, of "pf_repr pf"] that(2) show False by simp
  qed
  ultimately have res: "res = Inr ()" "q = Committed" using q(2) by (cases res; auto)+
  have "\<exists>es. calls w w' = es @ [EvCommit (Inr ())]"
    using q(1)
  proof (cases rule: follow_snoc)
    case (snoc xs e q0)
    with res(2) show ?thesis by (auto dest: life_into_Committed)
  qed (use res start in simp)
  with res show ?thesis by simp
qed

text \<open>Reading what the run of the loop leaves.\<close>

definition understood :: "('s, 'u) platform \<Rightarrow> ConsumerRecord \<Rightarrow> bool" where
  "understood pf r \<longleftrightarrow> encodable r \<and> \<not> isl (extract_message_id pf r) \<and> \<not> isl (parse_payload pf r)"

lemma understoodE:
  assumes "understood pf r"
  obtains mid payload where "encodable r" "extract_message_id pf r = Inr mid" "parse_payload pf r = Inr payload"
  using assms by (cases "extract_message_id pf r"; cases "parse_payload pf r") (auto simp: understood_def)

lemma run_loop_all:
  "dependable pf c \<Longrightarrow> ready c w \<Longrightarrow> \<forall>r \<in> set (delivered ds). understood pf r \<Longrightarrow> poll_error ds = None \<Longrightarrow>
    fst (run_loop pf c ds w) = Inr ()"
proof (induction ds arbitrary: w)
  case (Cons d ds)
  obtain stopped r where d: "d = (stopped, Inr r)" using Cons.prems(4) by (cases d; cases "snd d") auto
  show ?case
  proof (cases stopped)
    case False
    obtain res w1 where run: "process_record pf c r w = (res, w1)" by (cases "process_record pf c r w")
    from Cons.prems(3) d False have "understood pf r" by simp
    then obtain mid payload where r: "encodable r" "extract_message_id pf r = Inr mid" "parse_payload pf r = Inr payload"
      by (rule understoodE)
    from record_committed [OF Cons.prems(1,2) r run] have res: "res = Inr ()" by blast
    obtain q where "ready c w1" by (rule record_history [OF Cons.prems(2) r(2,3) run]) blast
    with Cons.IH [OF Cons.prems(1) this] Cons.prems(3,4) d False have "fst (run_loop pf c ds w1) = Inr ()" by simp
    with run res Cons.prems(2) d False show ?thesis by (auto simp: bind_eff_def modify_def ready_def)
  qed (simp add: d bind_eff_def modify_def)
qed (simp add: ret_def)

lemma example_dependable: "dependable (calm rp) (example_consumer n)"
proof -
  have "utf8_ok ''boom''" by code_simp
  then show ?thesis
    by (simp add: dependable_def calm_def example_consumer_def mem_ops_def mem_claim_eq mem_mark_completed_def mem_mark_failed_def
        mem_get_status_def flaky_def ret_def split: prod.splits option.splits)
qed

lemma example_encodable: "encodable example_record"
  by code_simp

text \<open>
  C10. Failing handlers do not stop \<open>run()\<close>. When the calls of the consumer return (\<open>dependable\<close>: all but \<open>handle\<close> and \<open>mark_completed\<close>,
  which may raise, short of a cancellation), no wait for a record raises, and no delivered record is one whose parsing raises
  (those that \<open>parsing_total\<close> names; \<open>understood\<close> also bounds its numbers, as Kafka does), then \<open>run()\<close> returns, with the offset of every
  record that arrived before \<open>stop()\<close> committed once.
\<close>

theorem run_always_returns:
  assumes "dependable pf c" "ready c w" "\<forall>r \<in> set (delivered ds). understood pf r" "poll_error ds = None"
  shows "\<exists>w'. run_consumer pf c ds w = (Inr (), w') \<and> commits (calls w w') = length (delivered ds)"
proof -
  obtain w' where run: "run_loop pf c ds w = (Inr (), w')"
    using run_loop_all [OF assms] by (metis prod.collapse)
  have "\<forall>r \<in> set (delivered ds). \<exists>payload. parse_payload pf r = Inr payload" using assms(3) by (blast elim: understoodE)
  from run_loop_commits [OF assms(2) this run] run assms(2) show ?thesis
    by (auto simp: run_consumer_def ready_def calls_eq)
qed

theorem run_always_returns_witness:
  "\<exists>w'. run_consumer (calm (\<lambda>_. [])) (example_consumer 5) [(False, Inr example_record), (False, Inr example_record)] (example_world [])
       = (Inr (), w') \<and> commits (calls (example_world []) w') = 2"
  using run_always_returns [OF example_dependable example_ready, of "[(False, Inr example_record), (False, Inr example_record)]" "\<lambda>_. []" 5 "[]"]
  by (simp add: example_encodable understood_def example_id example_payload numeral_2_eq_2)

end
