(* ===== verification/Handlers.thy ===== *)
theory Handlers
  imports Liveness
begin

section \<open>The consumers for orders, payments and shipments\<close>

text \<open>
  \<open>src/consumer/handlers/\<close>: three subclasses of \<open>DedupConsumer\<close>, each with its topic, its dead-letter topic and its \<open>handle\<close>;
  their logging is left out. \<open>py_get\<close> is \<open>message.get(key, value)\<close> on a payload that need not be a \<open>dict\<close>, since
  \<open>json.loads\<close> may have returned any JSON value. The properties follow a whole delivery through the life cycle with
  a \<open>handle\<close> that only computes (\<open>pure_handler\<close>).
\<close>

definition py_type_name :: "pyval \<Rightarrow> string" where
  "py_type_name v = (case v of
       PNone \<Rightarrow> ''NoneType'' | PBool b \<Rightarrow> ''bool'' | PInt i \<Rightarrow> ''int'' | PFloat s \<Rightarrow> ''float''
     | PStr s \<Rightarrow> ''str'' | PBytes s \<Rightarrow> ''bytes'' | PList xs \<Rightarrow> ''list'' | PDict d \<Rightarrow> ''dict'')"

definition no_attribute :: "string \<Rightarrow> pyval \<Rightarrow> string" where
  "no_attribute name v = [CHR 0x27] @ py_type_name v @ [CHR 0x27] @ '' object has no attribute '' @ [CHR 0x27] @ name @ [CHR 0x27]"

definition py_get :: "string \<Rightarrow> pyval \<Rightarrow> pyval \<Rightarrow> pyval res" where
  "py_get key other message = (case message of
       PDict d \<Rightarrow> Inr (case map_of d key of Some v \<Rightarrow> v | None \<Rightarrow> other)
     | _ \<Rightarrow> Inl (Exc ''AttributeError'' (no_attribute ''get'' message)))"

definition order_result :: "pyval \<Rightarrow> pyval res" where
  "order_result message = (case py_get ''order_id'' (PStr ''unknown'') message of
       Inl e \<Rightarrow> Inl e
     | Inr order_id \<Rightarrow> Inr (PDict [(''order_id'', order_id), (''status'', PStr ''created'')]))"

definition payment_result :: "pyval \<Rightarrow> pyval res" where
  "payment_result message = (case py_get ''payment_id'' (PStr ''unknown'') message of
       Inl e \<Rightarrow> Inl e
     | Inr payment_id \<Rightarrow> (case py_get ''amount'' (PInt 0) message of
           Inl e \<Rightarrow> Inl e
         | Inr amount \<Rightarrow> Inr (PDict [(''payment_id'', payment_id), (''charged'', amount), (''status'', PStr ''success'')])))"

definition shipment_result :: "pyval \<Rightarrow> pyval res" where
  "shipment_result message = (case py_get ''shipment_id'' (PStr ''unknown'') message of
       Inl e \<Rightarrow> Inl e
     | Inr shipment_id \<Rightarrow> (case py_get ''address'' (PDict []) message of
           Inl e \<Rightarrow> Inl e
         | Inr address \<Rightarrow> Inr (PDict [(''shipment_id'', shipment_id), (''tracking_number'', PStr ''TRACK-STUB''), (''address'', address)])))"

text \<open>A method that only computes, as a coroutine.\<close>

definition computes :: "(pyval \<Rightarrow> pyval res) \<Rightarrow> pyval \<Rightarrow> ('w, pyval) eff" where
  "computes f message w = (f message, w)"

text \<open>The constructors, with the keyword arguments they pass on to \<open>DedupConsumer\<close>.\<close>

definition OrderHandler ::
    "Settings \<Rightarrow> 's store_ops \<Rightarrow> string option \<Rightarrow> string option \<Rightarrow> DeduplicationConfig option \<Rightarrow> ('s, 'u) consumer" where
  "OrderHandler settings store group_id bootstrap_servers config =
     consumer_init settings [''orders''] store group_id bootstrap_servers (Some ''orders.dlq'') config (computes order_result)"

definition PaymentHandler ::
    "Settings \<Rightarrow> 's store_ops \<Rightarrow> string option \<Rightarrow> string option \<Rightarrow> DeduplicationConfig option \<Rightarrow> ('s, 'u) consumer" where
  "PaymentHandler settings store group_id bootstrap_servers config =
     consumer_init settings [''payments''] store group_id bootstrap_servers (Some ''payments.dlq'') config (computes payment_result)"

definition ShipmentHandler ::
    "Settings \<Rightarrow> 's store_ops \<Rightarrow> string option \<Rightarrow> string option \<Rightarrow> DeduplicationConfig option \<Rightarrow> ('s, 'u) consumer" where
  "ShipmentHandler settings store group_id bootstrap_servers config =
     consumer_init settings [''shipments''] store group_id bootstrap_servers (Some ''shipments.dlq'') config (computes shipment_result)"

lemmas shipped_defs = OrderHandler_def PaymentHandler_def ShipmentHandler_def consumer_init_def

subsection \<open>A handler that only computes\<close>

definition ran :: "(pyval \<Rightarrow> pyval res) \<Rightarrow> event \<Rightarrow> bool" where
  "ran f ev \<longleftrightarrow> (case ev of EvHandle p x \<Rightarrow> x = f p | _ \<Rightarrow> True)"

definition ran_since :: "(pyval \<Rightarrow> pyval res) \<Rightarrow> nat \<Rightarrow> ('s, 'u) world \<Rightarrow> bool" where
  "ran_since f n w \<longleftrightarrow> n \<le> length (rt_trace w) \<and> (\<forall>ev \<in> set (drop n (rt_trace w)). ran f ev)"

lemma ran_since_calls:
  "\<lbrakk>\<And>x. ran f (ev x)\<rbrakk> \<Longrightarrow> preserves (ran_since f n) (ext_call ev g)"
  "\<lbrakk>\<And>x. ran f (ev x)\<rbrakk> \<Longrightarrow> preserves (ran_since f n) (store_call pf ev g')"
  by (auto intro!: preservesI simp: ran_since_def dest!: ext_call_trace store_call_trace)

lemma ran_handle:
  assumes "c_handle c = computes f"
  shows "preserves (ran_since f n) (ext_call (EvHandle p) (c_handle c p))"
proof (rule preservesI)
  fix w r w' assume w: "ran_since f n w" and run: "ext_call (EvHandle p) (c_handle c p) w = (r, w')"
  have "r = f p" using run by (auto simp: ext_call_def assms computes_def)
  with w ext_call_trace [OF run] show "ran_since f n w'" by (auto simp: ran_since_def ran_def)
qed

lemma handler_ran:
  assumes "c_handle c = computes f" "process_record pf c r w = (res, w')"
  shows "EvHandle p x \<in> set (calls w w') \<Longrightarrow> x = f p"
proof -
  have "carries (ran_since f (length (rt_trace w))) pf c"
    unfolding carries_def
    by (intro conjI allI ran_since_calls ran_handle [OF assms(1)]; simp add: ran_since_def ran_def)
  from preservesD [OF preserves_process_record [OF this] _ assms(2)]
  have "\<forall>ev \<in> set (calls w w'). ran f ev" by (simp add: ran_since_def calls_def)
  then show "EvHandle p x \<in> set (calls w w') \<Longrightarrow> x = f p" by (auto simp: ran_def)
qed

text \<open>After a claim that was granted, the next call is the handler.\<close>

lemma claimed_then_handled:
  assumes "ready c w" "extract_message_id pf r = Inr (Some m)" "m \<noteq> []" "parse_payload pf r = Inr payload"
    and "1 \<le> max_retries (c_config c)" "process_record pf c r w = (res, w')" "calls w w' = EvClaim m (Inr True) # es"
  obtains x es' where "es = EvHandle payload x # es'"
proof -
  obtain q where q: "follow (life pf c r (Some m) payload) Fresh (EvClaim m (Inr True) # es) = Some q" "over pf r res q"
    using record_history [OF assms(1,2,4,6)] assms(7) by (auto simp: first_phase_def)
  have held: "life pf c r (Some m) payload Fresh (EvClaim m (Inr True)) = Some (Held 1 ''None'')"
    using assms(5) by (simp add: life_def held_def)
  with q(1) have es: "follow (life pf c r (Some m) payload) (Held 1 ''None'') es = Some q" by simp
  have "q \<noteq> Held 1 ''None''" using q(2) by (cases res) auto
  with es obtain e es' where e: "es = e # es'" "life pf c r (Some m) payload (Held 1 ''None'') e \<noteq> None"
    by (cases es) (auto split: option.splits)
  then have "\<exists>x. e = EvHandle payload x" by (auto simp: life_def split: event.splits if_splits)
  with e that show ?thesis by blast
qed

lemma computed_history:
  assumes "ready c w" "extract_message_id pf r = Inr (Some m)" "m \<noteq> []" "parse_payload pf r = Inr payload"
    and "1 \<le> max_retries (c_config c)" "process_record pf c r w = (res, w')" "calls w w' = EvClaim m (Inr True) # es"
    and "c_handle c = computes f" "f payload = Inr v"
  shows "(\<exists>x y. es = [EvHandle payload (Inr v), EvCompleted m v x, EvCommit y]) \<or>
     es = [EvHandle payload (Inr v), EvCompleted m v (Inl Cancelled)]"
proof -
  obtain x es' where es: "es = EvHandle payload x # es'" by (rule claimed_then_handled [OF assms(1-7)])
  with handler_ran [OF assms(8,6), of payload x] assms(7,9) have x: "x = Inr v" by simp
  have split: "calls w w' = [EvClaim m (Inr True)] @ EvHandle payload (Inr v) # es'" using assms(7) es x by simp
  obtain q0 q1 q where q1: "life pf c r (Some m) payload q0 (EvHandle payload (Inr v)) = Some q1"
    and q: "follow (life pf c r (Some m) payload) q1 es' = Some q" "over pf r res q"
    using record_history_at [OF assms(1,2,4,6) split] by blast
  from q1 have "q1 = Succeeded v" by (auto elim: life_handle)
  with q assms(3) over_not [OF q(2), of v] es x show ?thesis by (auto elim!: follow_Succeeded)
qed

subsection \<open>A handler that always fails\<close>

lemma all_failed_text:
  assumes "\<forall>ev \<in> set es. ran (\<lambda>_. Inl (Exc t s)) ev"
  shows "last_failure s es = s"
  using assms by (induction es) (auto simp: ran_def split: event.splits)

lemma computed_fails:
  assumes "ready c w" "extract_message_id pf r = Inr (Some m)" "parse_payload pf r = Inr payload"
    and "process_record pf c r w = (res, w')" "c_handle c = computes f" "f payload = Inl (Exc t s)"
    and ev: "ev \<in> set (calls w w')"
  shows "ran (\<lambda>_. Inl (Exc t s)) ev"
proof (cases "is_handle ev")
  case True
  then obtain p x where px: "ev = EvHandle p x" by (cases ev) auto
  obtain xs ys where "calls w w' = xs @ EvHandle p x # ys" using ev px by (meson split_list)
  then obtain q0 q1 where "life pf c r (Some m) payload q0 (EvHandle p x) = Some q1" using record_history_at [OF assms(1-4)] by blast
  then have "p = payload" by (auto elim: life_handle)
  with handler_ran [OF assms(5,4) ev [unfolded px]] assms(6) px show ?thesis by (simp add: ran_def)
qed (auto simp: ran_def split: event.splits)

lemma computed_uncompleted:
  assumes "ready c w" "extract_message_id pf r = Inr (Some m)" "parse_payload pf r = Inr payload"
    and "process_record pf c r w = (res, w')" "c_handle c = computes f" "f payload = Inl (Exc t s)"
  shows "EvCompleted m v y \<notin> set (calls w w')"
proof
  assume "EvCompleted m v y \<in> set (calls w w')"
  then obtain as bs where as: "calls w w' = as @ EvCompleted m v y # bs" by (meson split_list)
  then obtain q0 q1 where q0: "follow (life pf c r (Some m) payload) (first_phase c (Some m)) as = Some q0"
    "life pf c r (Some m) payload q0 (EvCompleted m v y) = Some q1"
    using record_history_at [OF assms(1-4)] by blast
  then have "q0 = Succeeded v" by (auto simp: life_def split: phase.splits if_splits)
  with q0(1) obtain ds where "as = ds @ [EvHandle payload (Inr v)]"
    by (cases rule: follow_snoc) (auto simp: first_phase_def dest: life_into_Succeeded)
  with as computed_fails [OF assms, of "EvHandle payload (Inr v)"] show False by (auto simp: ran_def)
qed

lemma computed_dead_letter:
  assumes "ready c w" "extract_message_id pf r = Inr (Some m)" "m \<noteq> []" "parse_payload pf r = Inr payload"
    and "1 \<le> max_retries (c_config c)" "process_record pf c r w = (Inr u, w')" "calls w w' = EvClaim m (Inr True) # es"
    and "c_handle c = computes f" "f payload = Inl (Exc t s)" "nonempty (c_dlq_topic c)" "json_ok (dlq_payload r s)"
  shows "\<exists>xs body. es = xs @ [EvSend (the (c_dlq_topic c)) body (cr_key r) (Inr ()), EvCommit (Inr ())]
     \<and> json_loads_bytes body = Inr (dlq_payload r s) \<and> (\<forall>v y. EvCompleted m v y \<notin> set es)"
proof -
  let ?L = "life pf c r (Some m) payload"
  obtain x0 es0 where es0: "es = EvHandle payload x0 # es0" by (rule claimed_then_handled [OF assms(1-7)])
  note fails = computed_fails [OF assms(1,2,4,6,8,9)]
  obtain q where q: "follow ?L (first_phase c (Some m)) (calls w w') = Some q" "over pf r (Inr u) q"
    by (rule record_history [OF assms(1,2,4,6)])
  have never: "EvHandle p (Inr v) \<notin> set (calls w w')" for p v
    using fails [of "EvHandle p (Inr v)"] by (auto simp: ran_def)
  have ran: "EvHandle payload x0 \<in> set (calls w w')" using assms(7) es0 by simp
  have "follow ?L (first_phase c (Some m)) (calls w w') = Some Committed" using q by simp
  from committed_unhandled [OF this assms(3,10) ran never] obtain ys topic body where
    ys: "calls w w' = ys @ [EvSend topic body (cr_key r) (Inr ()), EvCommit (Inr ())]" "c_dlq_topic c = Some topic"
    and body: "json_dumps (pf_repr pf) (dlq_payload r (last_failure ''None'' ys)) = Inr body" .
  obtain zs where zs: "ys = EvClaim m (Inr True) # EvHandle payload x0 # zs"
    using ys(1) assms(7) es0 by (cases ys; cases "tl ys") auto
  have "last_failure ''None'' ys = last_failure s zs"
    using fails [of "EvHandle payload x0"] ran by (simp add: zs ran_def)
  also have "\<dots> = s"
    using fails ys(1) zs by (intro all_failed_text [of zs t s] ballI) simp
  finally have "json_loads_bytes body = Inr (dlq_payload r s)"
    using loads_dumps [OF assms(11), of "pf_repr pf"] body by simp
  moreover have "es = (EvHandle payload x0 # zs) @ [EvSend topic body (cr_key r) (Inr ()), EvCommit (Inr ())]"
    using ys(1) assms(7) zs by simp
  ultimately show ?thesis using computed_uncompleted [OF assms(1,2,4,6,8,9)] assms(7) ys(2) by fastforce
qed

subsection \<open>The properties\<close>

text \<open>What the three classes make of a payload, and the consumers they are.\<close>

lemma results:
  "order_result (PDict d) = Inr (PDict [(''order_id'', case map_of d ''order_id'' of Some v \<Rightarrow> v | None \<Rightarrow> PStr ''unknown''),
     (''status'', PStr ''created'')])"
  "payment_result (PDict d) = Inr (PDict [(''payment_id'', case map_of d ''payment_id'' of Some v \<Rightarrow> v | None \<Rightarrow> PStr ''unknown''),
     (''charged'', case map_of d ''amount'' of Some v \<Rightarrow> v | None \<Rightarrow> PInt 0), (''status'', PStr ''success'')])"
  "shipment_result (PDict d) = Inr (PDict [(''shipment_id'', case map_of d ''shipment_id'' of Some v \<Rightarrow> v | None \<Rightarrow> PStr ''unknown''),
     (''tracking_number'', PStr ''TRACK-STUB''), (''address'', case map_of d ''address'' of Some v \<Rightarrow> v | None \<Rightarrow> PDict [])])"
  by (simp_all add: order_result_def payment_result_def shipment_result_def py_get_def)

lemma no_results:
  assumes "\<And>d. payload \<noteq> PDict d" "f \<in> {order_result, payment_result, shipment_result}"
  shows "f payload = Inl (Exc ''AttributeError'' (no_attribute ''get'' payload))"
  using assms by (cases payload) (auto simp: order_result_def payment_result_def shipment_result_def py_get_def)

lemma no_attribute_text: "utf8_ok (no_attribute ''get'' payload)"
proof (cases payload)
qed (simp_all add: no_attribute_def py_type_name_def, code_simp+)

datatype topic = Orders | Payments | Shipments

fun shipped :: "topic \<Rightarrow> Settings \<Rightarrow> 's store_ops \<Rightarrow> string option \<Rightarrow> string option \<Rightarrow> DeduplicationConfig option \<Rightarrow> ('s, 'u) consumer" where
  "shipped Orders = OrderHandler"
| "shipped Payments = PaymentHandler"
| "shipped Shipments = ShipmentHandler"

fun answer :: "topic \<Rightarrow> pyval \<Rightarrow> pyval res" where
  "answer Orders = order_result"
| "answer Payments = payment_result"
| "answer Shipments = shipment_result"

fun dead_letters :: "topic \<Rightarrow> string" where
  "dead_letters Orders = ''orders.dlq''"
| "dead_letters Payments = ''payments.dlq''"
| "dead_letters Shipments = ''shipments.dlq''"

lemma shipped_fields:
  "c_handle (shipped t st store g b cfg) = computes (answer t)" "nonempty (c_dlq_topic (shipped t st store g b cfg))"
  "c_config (shipped t st store g b (Some config)) = config" "c_dlq_topic (shipped t st store g b cfg) = Some (dead_letters t)"
  by (cases t; simp add: shipped_defs nonempty_def)+

text \<open>
  C37. An order, a payment or a shipment whose message is a JSON object is handled in one attempt: after the claim of its
  id was granted the calls are the run of the handler, the storing of its answer, and the commit of the offset, which only a
  cancellation of the storing can stop; the answer carries the members of the object, or their defaults.
\<close>

theorem shipped_one_attempt:
  assumes "ready (shipped t st store g b (Some config)) w" "extract_message_id pf r = Inr (Some m)" "m \<noteq> []"
    and "parse_payload pf r = Inr (PDict d)" "1 \<le> max_retries config"
    and "process_record pf (shipped t st store g b (Some config)) r w = (res, w')" "calls w w' = EvClaim m (Inr True) # es"
  shows "\<exists>v. answer t (PDict d) = Inr v \<and>
     ((\<exists>x y. es = [EvHandle (PDict d) (Inr v), EvCompleted m v x, EvCommit y]) \<or>
      es = [EvHandle (PDict d) (Inr v), EvCompleted m v (Inl Cancelled)])"
proof -
  obtain v where v: "answer t (PDict d) = Inr v" by (cases t) (simp_all add: results)
  have "1 \<le> max_retries (c_config (shipped t st store g b (Some config)))" using assms(5) by (simp add: shipped_fields)
  from computed_history [OF assms(1-4) this assms(6,7) shipped_fields(1) v] v show ?thesis by blast
qed

text \<open>
  C38. A message with an id whose value is JSON but not an object is never handled by the three consumers: every attempt raises
  \<open>AttributeError\<close>. When its first claim was granted and \<open>_process_record\<close> returns, it was not completed but sent to the
  dead-letter topic, as JSON that holds its origin, its value and the text of that error, and then committed.
\<close>

theorem not_an_object_dead_lettered:
  assumes "ready (shipped t st store g b (Some config)) w" "extract_message_id pf r = Inr (Some m)" "m \<noteq> []"
    and "parse_payload pf r = Inr payload" "\<And>d. payload \<noteq> PDict d" "1 \<le> max_retries config"
    and "utf8_ok (cr_topic r)" "\<bar>cr_offset r\<bar> \<le> 2 ^ 63" "\<bar>cr_partition r\<bar> \<le> 2 ^ 63"
    and "process_record pf (shipped t st store g b (Some config)) r w = (Inr u, w')" "calls w w' = EvClaim m (Inr True) # es"
  shows "\<exists>xs body. es = xs @ [EvSend (dead_letters t) body (cr_key r) (Inr ()), EvCommit (Inr ())]
     \<and> json_loads_bytes body = Inr (dlq_payload r (no_attribute ''get'' payload)) \<and> (\<forall>v y. EvCompleted m v y \<notin> set es)"
proof -
  have fails: "answer t payload = Inl (Exc ''AttributeError'' (no_attribute ''get'' payload))"
    using no_results [OF assms(5), of "answer t"] by (cases t) simp_all
  have retries: "1 \<le> max_retries (c_config (shipped t st store g b (Some config)))" using assms(6) by (simp add: shipped_fields)
  have json: "json_ok (dlq_payload r (no_attribute ''get'' payload))"
    by (rule dlq_payload_json_ok [OF assms(7-9) no_attribute_text])
  from computed_dead_letter [OF assms(1-4) retries assms(10,11) shipped_fields(1) fails shipped_fields(2) json]
  show ?thesis by (simp add: shipped_fields)
qed

definition example_orders :: "(mem_state, nat) consumer" where
  "example_orders = shipped Orders default_settings (mem_ops default_config) None None (Some default_config)"

lemma example_orders_fields:
  "c_store example_orders = mem_ops default_config" "c_config example_orders = default_config"
  "c_dlq_topic example_orders = Some ''orders.dlq''" "c_handle example_orders = computes order_result"
  by (simp_all add: example_orders_def shipped_defs)

lemma example_orders_ready: "ready example_orders (example_world [])"
  by (simp add: ready_def example_world_def example_orders_fields nonempty_def)

definition example_number :: ConsumerRecord where
  "example_number = example_record\<lparr>cr_value := Some ''7''\<rparr>"

lemma example_number_facts:
  "extract_message_id pf example_number = Inr (Some ''m'')" "encodable example_number"
  "\<not> pf_overflows pf For_payload ''7'' \<Longrightarrow> parse_payload pf example_number = Inr (PInt 7)"
proof -
  have "json_loads_bytes ''7'' = Inr (PInt 7)" by code_simp
  then show "parse_payload pf example_number = Inr (PInt 7)" if "\<not> pf_overflows pf For_payload ''7''"
    using that by (simp add: parse_payload_def loads_def example_number_def)
qed code_simp+

lemma example_number_payload: "parse_payload (calm rp) example_number = Inr (PInt 7)"
  by (rule example_number_facts(3)) simp

definition orders_run :: "ConsumerRecord \<Rightarrow> unit res \<times> (mem_state, nat) world" where
  "orders_run r = process_record (calm (\<lambda>_. [])) example_orders r (example_world [])"

lemma orders_run: "process_record (calm (\<lambda>_. [])) example_orders r (example_world []) = (fst (orders_run r), snd (orders_run r))"
  by (simp add: orders_run_def)

lemmas orders_simps = run_simps orders_run_def example_orders_fields computes_def

lemma orders_run_object: "calls (example_world []) (snd (orders_run example_record)) =
    [EvClaim ''m'' (Inr True), EvHandle (PDict []) (Inr (PDict [(''order_id'', PStr ''unknown''), (''status'', PStr ''created'')])),
     EvCompleted ''m'' (PDict [(''order_id'', PStr ''unknown''), (''status'', PStr ''created'')]) (Inr ()), EvCommit (Inr ())]"
  by (simp add: orders_simps order_result_def py_get_def)

theorem shipped_one_attempt_witness:
  "\<exists>v es. answer Orders (PDict []) = Inr v \<and> calls (example_world []) (snd (orders_run example_record)) =
     EvClaim ''m'' (Inr True) # EvHandle (PDict []) (Inr v) # es"
proof -
  have "1 \<le> max_retries default_config" by (simp add: default_config_def)
  from shipped_one_attempt [OF example_orders_ready [unfolded example_orders_def] example_id _ example_payload this
      orders_run [unfolded example_orders_def] orders_run_object]
  show ?thesis using orders_run_object by auto
qed

lemma orders_run_number: "fst (orders_run example_number) = Inr () \<and>
    (\<exists>es. calls (example_world []) (snd (orders_run example_number)) = EvClaim ''m'' (Inr True) # es)"
proof -
  have "utf8_ok ''orders''" by code_simp
  then have "json_ok (dlq_payload example_number (no_attribute ''get'' (PInt 7)))"
    using no_attribute_text by (intro dlq_payload_json_ok) (simp_all add: example_number_def example_record_def)
  from loads_dumps [OF this] obtain body where
    "json_dumps (\<lambda>_. []) (dlq_payload example_number (no_attribute ''get'' (PInt 7))) = Inr body" by blast
  then show ?thesis by (simp add: orders_simps order_result_def py_get_def example_number_facts)
qed

theorem not_an_object_dead_lettered_witness:
  "\<exists>xs body. calls (example_world []) (snd (orders_run example_number)) =
       xs @ [EvSend ''orders.dlq'' body None (Inr ()), EvCommit (Inr ())]
     \<and> json_loads_bytes body = Inr (dlq_payload example_number (no_attribute ''get'' (PInt 7)))"
proof -
  obtain es where es: "calls (example_world []) (snd (orders_run example_number)) = EvClaim ''m'' (Inr True) # es"
    and ok: "fst (orders_run example_number) = Inr ()" using orders_run_number by blast
  have run: "process_record (calm (\<lambda>_. [])) example_orders example_number (example_world []) = (Inr (), snd (orders_run example_number))"
    using ok by (simp add: orders_run_def prod_eq_iff)
  have "1 \<le> max_retries default_config" by (simp add: default_config_def)
  moreover have "utf8_ok (cr_topic example_number)" "\<bar>cr_offset example_number\<bar> \<le> 2 ^ 63" "\<bar>cr_partition example_number\<bar> \<le> 2 ^ 63"
    using example_number_facts(2) by (simp_all add: encodable_def)
  ultimately obtain xs body where "es = xs @ [EvSend (dead_letters Orders) body (cr_key example_number) (Inr ()), EvCommit (Inr ())]"
    "json_loads_bytes body = Inr (dlq_payload example_number (no_attribute ''get'' (PInt 7)))"
    using not_an_object_dead_lettered [OF example_orders_ready [unfolded example_orders_def] example_number_facts(1) _ example_number_payload
      _ _ _ _ _ run [unfolded example_orders_def] es] unfolding example_orders_def by auto
  moreover have "cr_key example_number = None" by (simp add: example_number_def example_record_def)
  ultimately have "EvClaim ''m'' (Inr True) # es = (EvClaim ''m'' (Inr True) # xs) @ [EvSend ''orders.dlq'' body None (Inr ()), EvCommit (Inr ())]"
    by simp
  with es show ?thesis using \<open>json_loads_bytes body = _\<close> by metis
qed

end
