(* ===== verification/Service.thy ===== *)
theory Service
  imports Handlers
begin

section \<open>The process\<close>

text \<open>
  \<open>src/consumer/__main__.py\<close>: one process with a consumer for each topic. The consumers share the clock, the services and the
  metrics (\<open>pr_world\<close>); each has its own \<open>_consumer\<close>, \<open>_dlq_producer\<close> and \<open>_running\<close> (\<open>pr_flags\<close>), which its methods see in the
  state while they run (\<open>in_consumer\<close>). \<open>create_task\<close> and \<open>asyncio.wait\<close> let the three \<open>run()\<close> interleave until one ends or a signal
  arrives: what they do is the argument \<open>wait\<close>, which answers what has become of each task, and what they do while they are cancelled
  is \<open>gather\<close>. \<open>src/api.py\<close>: the endpoints, with the Redis client and the registry of metrics as arguments.
\<close>

type_synonym flags = "bool \<times> bool \<times> bool"

record ('s, 'u) process =
  pr_world :: "('s, 'u) world"
  pr_flags :: "flags list"

definition in_consumer :: "nat \<Rightarrow> (('s, 'u) world, 'a) eff \<Rightarrow> (('s, 'u) process, 'a) eff" where
  "in_consumer i m p = (case pr_flags p ! i of (c, d, r) \<Rightarrow>
     (case m ((pr_world p)\<lparr>w_consumer := c, w_producer := d, w_running := r\<rparr>) of (x, w) \<Rightarrow>
        (x, \<lparr>pr_world = w, pr_flags = (pr_flags p)[i := (w_consumer w, w_producer w, w_running w)]\<rparr>)))"

text \<open>\<open>for consumer in consumers: await ...\<close>\<close>

fun each_consumer ::
    "(('s, 'u) consumer \<Rightarrow> (('s, 'u) world, unit) eff) \<Rightarrow> nat \<Rightarrow> ('s, 'u) consumer list \<Rightarrow> (('s, 'u) process, unit) eff" where
  "each_consumer f i [] = ret ()"
| "each_consumer f i (c # cs) = bind_eff (in_consumer i (f c)) (\<lambda>_. each_consumer f (i + 1) cs)"

datatype task = Pending_task | Done_task "unit res"

text \<open>\<open>task.exception()\<close> raises \<open>CancelledError\<close> when the task was cancelled.\<close>

fun exit_code :: "task list \<Rightarrow> int \<Rightarrow> int res" where
  "exit_code [] code = Inr code"
| "exit_code (t # ts) code = (case t of
       Pending_task \<Rightarrow> exit_code ts code
     | Done_task x \<Rightarrow> (case x of
           Inr _ \<Rightarrow> exit_code ts code
         | Inl Cancelled \<Rightarrow> Inl Cancelled
         | Inl (Exc n s) \<Rightarrow> exit_code ts 1))"

definition service_consumers :: "Settings \<Rightarrow> (string \<Rightarrow> DeduplicationConfig \<Rightarrow> 's store_ops) \<Rightarrow> ('s, 'u) consumer list" where
  "service_consumers st from_url =
     (let config = dedup_config st in
      map (\<lambda>handler_cls. handler_cls st (from_url (redis_url st) config) None None (Some config))
        [OrderHandler, PaymentHandler, ShipmentHandler])"

definition main ::
    "('s, 'u) platform \<Rightarrow> Settings \<Rightarrow> (string \<Rightarrow> DeduplicationConfig \<Rightarrow> 's store_ops)
     \<Rightarrow> (('s, 'u) world \<Rightarrow> task list \<times> ('s, 'u) world) \<Rightarrow> (('s, 'u) world \<Rightarrow> ('s, 'u) world) \<Rightarrow> (('s, 'u) process, int) eff" where
  "main pf st from_url wait gather =
     (let consumers = service_consumers st from_url in
      bind_eff (each_consumer (start_consumer pf) 0 consumers) (\<lambda>_.
      bind_eff (\<lambda>p. case wait (pr_world p) of (tasks, w) \<Rightarrow> (exit_code tasks 0, p\<lparr>pr_world := w\<rparr>)) (\<lambda>code.
      bind_eff (modify (\<lambda>p. p\<lparr>pr_world := gather (pr_world p)\<rparr>)) (\<lambda>_.
      bind_eff (each_consumer (stop_consumer pf) 0 consumers) (\<lambda>_.
      ret code)))))"

subsection \<open>The endpoints\<close>

definition health :: "nat \<times> pyval" where
  "health = (200, PDict [(''status'', PStr ''ok'')])"

definition ready_endpoint ::
    "(string \<Rightarrow> ('u, 'c) eff) \<Rightarrow> ('c \<Rightarrow> ('u, unit) eff) \<Rightarrow> ('c \<Rightarrow> ('u, unit) eff) \<Rightarrow> Settings \<Rightarrow> ('u, nat \<times> pyval) eff" where
  "ready_endpoint from_url ping close_client st =
     try_except
       (bind_eff (from_url (redis_url st)) (\<lambda>client.
        bind_eff (ping client) (\<lambda>_.
        bind_eff (close_client client) (\<lambda>_.
        ret (200, PDict [(''status'', PStr ''ready''), (''redis'', PStr ''ok'')])))))
       (\<lambda>exc. ret (503, PDict [(''status'', PStr ''not_ready''), (''redis'', PStr (exc_str exc))]))"

definition prometheus_metrics :: "(metrics \<Rightarrow> string) \<Rightarrow> string \<Rightarrow> metrics \<Rightarrow> string \<times> string" where
  "prometheus_metrics generate_latest content_type m = (generate_latest m, content_type)"

subsection \<open>What \<open>main\<close> guarantees\<close>

text \<open>Whether a task ended with an exception.\<close>

definition crashed :: "task \<Rightarrow> bool" where
  "crashed t \<longleftrightarrow> (case t of Done_task (Inl (Exc n s)) \<Rightarrow> True | _ \<Rightarrow> False)"

lemma exit_code_crashed:
  "exit_code ts code = Inr k \<Longrightarrow> k = (if \<exists>t \<in> set ts. crashed t then 1 else code)"
proof (induction ts arbitrary: code)
  case (Cons t ts)
  then have "exit_code ts (if crashed t then 1 else code) = Inr k"
    by (auto simp: crashed_def split: task.splits sum.splits exn.splits)
  from Cons.IH [OF this] show ?case by simp
qed simp

definition running :: "flags \<Rightarrow> bool" where
  "running f = snd (snd f)"

text \<open>Whatever becomes of a stop, the consumer is no longer running.\<close>

lemma stop_not_running: "stop_consumer pf c w = (x, w') \<Longrightarrow> \<not> w_running w'"
  unfolding stop_consumer_def
  by (auto simp: modify_def when_eff_def ret_def elim!: bind_eff_cases dest!: calls_world split: if_splits)

lemma start_running: "start_consumer pf c w = (Inr u, w') \<Longrightarrow> w_running w'"
  unfolding start_consumer_def by (auto simp: modify_def elim!: bind_eff_cases)

text \<open>Going through the consumers settles a property of the flags of each.\<close>

lemma each_consumer_flags:
  assumes f: "\<And>c w u w'. f c w = (Inr u, w') \<Longrightarrow> P (w_consumer w', w_producer w', w_running w')"
  shows "each_consumer f i cs p = (Inr u, p') \<Longrightarrow> i + length cs \<le> length (pr_flags p) \<Longrightarrow>
    length (pr_flags p') = length (pr_flags p) \<and> take i (pr_flags p') = take i (pr_flags p)
    \<and> (\<forall>j. i \<le> j \<longrightarrow> j < i + length cs \<longrightarrow> P (pr_flags p' ! j))"
proof (induction cs arbitrary: i p)
  case (Cons c cs)
  then obtain u1 p1 where step: "in_consumer i (f c) p = (Inr u1, p1)" and rest: "each_consumer f (i + 1) cs p1 = (Inr u, p')"
    by (auto elim: bind_eff_cases)
  from step obtain w0 w where run: "f c w0 = (Inr u1, w)"
    and p1: "pr_flags p1 = (pr_flags p)[i := (w_consumer w, w_producer w, w_running w)]"
    by (auto simp: in_consumer_def split: prod.splits)
  have w: "P (w_consumer w, w_producer w, w_running w)" by (rule f [OF run])
  have "i + 1 + length cs \<le> length (pr_flags p1)" using Cons.prems(2) p1 by simp
  from Cons.IH [OF rest this] have IH: "length (pr_flags p') = length (pr_flags p1)"
    "take (i + 1) (pr_flags p') = take (i + 1) (pr_flags p1)"
    "\<forall>j. i + 1 \<le> j \<longrightarrow> j < i + 1 + length cs \<longrightarrow> P (pr_flags p' ! j)" by blast+
  have at: "pr_flags p' ! i = pr_flags p1 ! i" using arg_cong [OF IH(2), of "\<lambda>xs. xs ! i"] by simp
  have "take i (pr_flags p') = take i (take (i + 1) (pr_flags p'))" by simp
  also have "\<dots> = take i (pr_flags p)" using IH(2) p1 by simp
  finally have keep: "take i (pr_flags p') = take i (pr_flags p)" .
  have "P (pr_flags p' ! j)" if "i \<le> j" "j < i + length (c # cs)" for j
    using that IH(3) at p1 w Cons.prems(2) by (cases "j = i") auto
  with IH(1) keep p1 show ?case by simp
qed (simp add: ret_def)

text \<open>
  C40. When \<open>main\<close> returns, all three consumers were started and then stopped, and the exit code is 1 exactly when one of them had
  crashed by the time the first task ended or a signal arrived, and else 0.
\<close>

theorem main_stops_all:
  assumes "main pf st from_url wait gather p = (Inr code, p')" "length (pr_flags p) = 3"
  shows "\<exists>p1 tasks w. each_consumer (start_consumer pf) 0 (service_consumers st from_url) p = (Inr (), p1)
     \<and> (\<forall>i < 3. running (pr_flags p1 ! i)) \<and> wait (pr_world p1) = (tasks, w)
     \<and> code = (if \<exists>t \<in> set tasks. crashed t then 1 else 0) \<and> (\<forall>i < 3. \<not> running (pr_flags p' ! i))"
proof -
  let ?cs = "service_consumers st from_url :: ('a, 'b) consumer list"
  have three: "length ?cs = 3" by (simp add: service_consumers_def Let_def)
  from assms(1) obtain p1 where p1: "each_consumer (start_consumer pf) 0 ?cs p = (Inr (), p1)"
    and rest: "bind_eff (\<lambda>p. case wait (pr_world p) of (tasks, w) \<Rightarrow> (exit_code tasks 0, p\<lparr>pr_world := w\<rparr>)) (\<lambda>code.
      bind_eff (modify (\<lambda>p. p\<lparr>pr_world := gather (pr_world p)\<rparr>)) (\<lambda>_.
      bind_eff (each_consumer (stop_consumer pf) 0 ?cs) (\<lambda>_. ret code))) p1 = (Inr code, p')"
    by (auto simp: main_def Let_def elim: bind_eff_cases)
  obtain tasks w where wait: "wait (pr_world p1) = (tasks, w)" by (cases "wait (pr_world p1)")
  from rest wait obtain code' where code: "exit_code tasks 0 = Inr code'" "code = code'"
    and stop: "each_consumer (stop_consumer pf) 0 ?cs (p1\<lparr>pr_world := gather w\<rparr>) = (Inr (), p')"
    by (auto simp: modify_def ret_def bind_eff_def split: prod.splits sum.splits)
  have "running (w_consumer w', w_producer w', w_running w')" if "start_consumer pf c w = (Inr u, w')" for c w u w'
    using start_running [OF that] by (simp add: running_def)
  from each_consumer_flags [of "start_consumer pf" running, OF this p1] assms(2) three
  have started: "length (pr_flags p1) = 3" "\<forall>i < 3. running (pr_flags p1 ! i)" by auto
  have "\<not> running (w_consumer w', w_producer w', w_running w')" if "stop_consumer pf c w = (Inr u, w')" for c w u w'
    using stop_not_running [OF that] by (simp add: running_def)
  from each_consumer_flags [of "stop_consumer pf" "\<lambda>f. \<not> running f", OF this stop] started(1) three
  have "\<forall>i < 3. \<not> running (pr_flags p' ! i)" by simp
  with p1 started(2) wait code exit_code_crashed [OF code(1)] show ?thesis by auto
qed

definition example_process :: "(mem_state, nat) process" where
  "example_process = \<lparr>pr_world = example_world [], pr_flags = replicate 3 (False, False, False)\<rparr>"

definition example_tasks :: "(mem_state, nat) world \<Rightarrow> task list \<times> (mem_state, nat) world" where
  "example_tasks w = ([Pending_task, Done_task (Inl (Exc ''ValueError'' [])), Pending_task], w)"

lemma example_main: "fst (main (calm (\<lambda>_. [])) default_settings (\<lambda>_. mem_ops) example_tasks (\<lambda>w. w) example_process) = Inr 1"
  by (simp add: main_def service_consumers_def Let_def in_consumer_def start_consumer_def stop_consumer_def example_process_def
      example_tasks_def run_simps shipped_defs numeral_3_eq_3 mem_close_def)

theorem main_stops_all_witness:
  "\<exists>p'. main (calm (\<lambda>_. [])) default_settings (\<lambda>_. mem_ops) example_tasks (\<lambda>w. w) example_process = (Inr 1, p')
     \<and> (\<forall>i < 3. \<not> running (pr_flags p' ! i))"
proof -
  obtain p' where run: "main (calm (\<lambda>_. [])) default_settings (\<lambda>_. mem_ops) example_tasks (\<lambda>w. w) example_process = (Inr 1, p')"
    using example_main by (metis prod.collapse)
  have "length (pr_flags example_process) = 3" by (simp add: example_process_def)
  from main_stops_all [OF run this] run show ?thesis by blast
qed

text \<open>The readiness probe answers 200 exactly when the three calls to Redis return, and 503 with the error's text otherwise.\<close>

lemma ready_endpoint_answers:
  assumes "ready_endpoint from_url ping close_client st u = (Inr (code, body), u')"
  shows "code = 200 \<and> (\<exists>client u1 u2. from_url (redis_url st) u = (Inr client, u1) \<and> ping client u1 = (Inr (), u2)
            \<and> close_client client u2 = (Inr (), u'))
       \<or> code = 503 \<and> (\<exists>t s. body = PDict [(''status'', PStr ''not_ready''), (''redis'', PStr s)]
            \<and> (from_url (redis_url st) u = (Inl (Exc t s), u') \<or>
               (\<exists>client u1. from_url (redis_url st) u = (Inr client, u1) \<and>
                  (ping client u1 = (Inl (Exc t s), u') \<or>
                   (\<exists>u2. ping client u1 = (Inr (), u2) \<and> close_client client u2 = (Inl (Exc t s), u'))))))"
  using assms
  by (auto simp: ready_endpoint_def try_except_def bind_eff_def ret_def split: prod.splits sum.splits exn.splits)

end
