(* ===== verification/Logging.thy ===== *)
theory Logging
  imports Models Py_Values
begin

section \<open>Logging\<close>

text \<open>
  \<open>src/logging_config.py\<close>: what \<open>setup_logging\<close> sets in \<open>logging\<close> and \<open>structlog\<close> (\<open>log_state\<close>), and the chain of processors a
  log entry passes. The processors that are the module's own are functions on the entry; those of the library are the argument
  \<open>lib\<close> of \<open>process_entry\<close>, with a case of \<open>processor\<close> as name. \<open>upper\<close> is \<open>str.upper\<close> on ASCII text.
\<close>

datatype processor =
    AddAppContext | MergeContextvars | AddLoggerName | AddLogLevel | TimeStamper | StackInfoRenderer | DropColorMessageKey
  | WrapForFormatter | RemoveProcessorsMeta | JSONRenderer | ConsoleRenderer

type_synonym event_dict = "(string, pyval) dict"

definition drop_color_message_key :: "event_dict \<Rightarrow> event_dict" where
  "drop_color_message_key ed = AList.delete ''color_message'' ed"

definition add_app_context :: "event_dict \<Rightarrow> event_dict" where
  "add_app_context ed =
     (case map_of ed ''app'' of Some v \<Rightarrow> ed | None \<Rightarrow> AList.update ''app'' (PStr ''kafkadedup'') ed)"

definition process_entry :: "(processor \<Rightarrow> event_dict \<Rightarrow> event_dict) \<Rightarrow> processor \<Rightarrow> event_dict \<Rightarrow> event_dict" where
  "process_entry lib p ed = (case p of
       AddAppContext \<Rightarrow> add_app_context ed
     | DropColorMessageKey \<Rightarrow> drop_color_message_key ed
     | _ \<Rightarrow> lib p ed)"

definition shared_processors :: "processor list" where
  "shared_processors = [AddAppContext, MergeContextvars, AddLoggerName, AddLogLevel, TimeStamper, StackInfoRenderer, DropColorMessageKey]"

definition upper :: "string \<Rightarrow> string" where
  "upper s = map (\<lambda>c. if 97 \<le> (of_char c :: nat) \<and> (of_char c :: nat) \<le> 122 then char_of (of_char c - 32 :: nat) else c) s"

text \<open>
  \<open>getattr(logging, level_str, logging.INFO)\<close> for a name without lower-case letters: the levels, and two attributes of the module
  that are no level, on which \<open>setLevel\<close> raises (the texts of its exceptions are left out).
\<close>

definition logging_attribute :: "string \<Rightarrow> exn + int" where
  "logging_attribute name =
     (if name = ''CRITICAL'' \<or> name = ''FATAL'' then Inr 50
      else if name = ''ERROR'' then Inr 40
      else if name = ''WARNING'' \<or> name = ''WARN'' then Inr 30
      else if name = ''DEBUG'' then Inr 10
      else if name = ''NOTSET'' then Inr 0
      else if name = ''BASIC_FORMAT'' then Inl (Exc ''ValueError'' [])
      else if name = ''_STYLES'' then Inl (Exc ''TypeError'' [])
      else Inr 20)"

record log_state =
  structlog_processors :: "processor list"
  foreign_pre_chain :: "processor list"
  formatter_processors :: "processor list"
  root_handlers :: nat
  root_level :: int
  logger_levels :: "(string, int) dict"

definition setup_logging :: "Settings \<Rightarrow> bool \<Rightarrow> string option \<Rightarrow> bool option \<Rightarrow> (log_state, unit) eff" where
  "setup_logging st isatty level json ls =
     (let level_str = upper (case level of Some s \<Rightarrow> if s = [] then log_level st else s | None \<Rightarrow> log_level st);
          json_logs = (case json of Some b \<Rightarrow> b | None \<Rightarrow> \<not> isatty);
          renderer = (if json_logs then JSONRenderer else ConsoleRenderer);
          ls1 = ls\<lparr>structlog_processors := shared_processors @ [WrapForFormatter], foreign_pre_chain := shared_processors,
             formatter_processors := [RemoveProcessorsMeta, renderer], root_handlers := 1\<rparr>
      in case logging_attribute level_str of
           Inl e \<Rightarrow> (Inl e, ls1)
         | Inr l \<Rightarrow> (Inr (), ls1\<lparr>root_level := l,
             logger_levels := fold (\<lambda>noisy. AList.update noisy 30) [''aiokafka'', ''kafka'', ''asyncio''] (logger_levels ls)\<rparr>))"

text \<open>
  Every entry that leaves the shared chain is free of \<open>color_message\<close>, and names an application: the one it was logged
  with, or else \<open>kafkadedup\<close>, as long as the library's processors do not touch that key.
\<close>

lemma chain_entry:
  assumes "\<And>p ed. map_of (lib p ed) ''app'' = map_of ed ''app''"
  shows "map_of (fold (process_entry lib) shared_processors ed) ''color_message'' = None
     \<and> map_of (fold (process_entry lib) shared_processors ed) ''app'' =
         Some (case map_of ed ''app'' of Some v \<Rightarrow> v | None \<Rightarrow> PStr ''kafkadedup'')"
  by (simp add: shared_processors_def process_entry_def drop_color_message_key_def add_app_context_def dict_simps assms
      split: option.splits)

text \<open>Configuring again leaves one handler and the same levels of the noisy loggers; only the arguments decide the rest.\<close>

lemma noisy_again:
  fixes d :: "(string, int) dict"
  shows "map_of (fold (\<lambda>noisy. AList.update noisy l) xs (fold (\<lambda>noisy. AList.update noisy l) xs d)) =
   map_of (fold (\<lambda>noisy. AList.update noisy l) xs d)"
proof -
  have "map_of (fold (\<lambda>noisy. AList.update noisy l) xs d) k = (if k \<in> set xs then Some l else map_of d k)" for k and d :: "(string, int) dict"
    by (induction xs arbitrary: d) (auto simp: dict_simps)
  then show ?thesis by (simp add: fun_eq_iff)
qed

lemma setup_logging_again:
  assumes "setup_logging st isatty level json ls = (Inr u, ls1)" "setup_logging st' isatty' level' json' ls1 = (Inr u', ls2)"
  shows "root_handlers ls2 = 1" "map_of (logger_levels ls2) = map_of (logger_levels ls1)"
proof -
  show "root_handlers ls2 = 1" using assms(2) by (auto simp: setup_logging_def Let_def split: sum.splits)
  have "logger_levels ls2 = fold (\<lambda>noisy. AList.update noisy 30) [''aiokafka'', ''kafka'', ''asyncio''] (logger_levels ls1)"
    using assms(2) unfolding setup_logging_def Let_def by (auto split: sum.splits)
  moreover have "logger_levels ls1 = fold (\<lambda>noisy. AList.update noisy 30) [''aiokafka'', ''kafka'', ''asyncio''] (logger_levels ls)"
    using assms(1) unfolding setup_logging_def Let_def by (auto split: sum.splits)
  ultimately show "map_of (logger_levels ls2) = map_of (logger_levels ls1)" using noisy_again by metis
qed

end
