(* ===== verification/Spec2Isabelle.thy ===== *)
theory Spec2Isabelle
  imports Memory_Props Backends_Agree Consumer_Metrics Guard_Props Outbox_Consumer Interrupted First_Failure Service Logging
begin

text \<open>
  A verification development for an asynchronous Python framework that processes the messages of Kafka once: a consumer that
  claims each message in a deduplication store before it handles it, two stores, a guard and a decorator for other code, and a
  transactional outbox. File names are relative to the repository.

  \<^bold>\<open>The program.\<close> \<open>src/consumer/dedup_consumer.py\<close> reads a message's id, claims it in the store
  (\<open>src/dedup/\<close>), runs \<open>handle\<close> with retries, files the result or the failure, sends what cannot be handled to a dead-letter
  topic, and commits the offset; it counts all this in \<open>src/metrics/dedup_metrics.py\<close>. \<open>src/consumer/handlers/\<close> are three such
  consumers, \<open>src/consumer/__main__.py\<close> the process that runs them. \<open>src/idempotency/guard.py\<close> uses the same store without Kafka.
  \<open>src/idempotency/outbox.py\<close> writes messages to a table and publishes them to Kafka, where the consumers meet them.

  \<^bold>\<open>Foundations.\<close>
  \<^item> \<open>Prelude\<close>: exceptions (\<open>exn\<close>), coroutines as effects (\<open>('w, 'a) eff\<close>, with \<open>bind_eff\<close>, \<open>try_except\<close>, \<open>try_finally\<close>), Python
    dictionaries as association lists. \<open>Py_Values\<close>: the values that reach the program as \<open>Any\<close>, UTF-8, truth values, \<open>str()\<close>,
    and equality of values. A \<open>str\<close> is its UTF-8 text, \<open>int\<close> is unbounded, as Python's.
  \<^item> \<open>Json\<close> and \<open>Json_Roundtrip\<close>: \<open>json.loads\<close> and \<open>json.dumps\<close>, with the detection of encodings, and that reading undoes printing.
    The scanner has fuel, two units for each character and one more; \<open>scan_fuels\<close> shows that this is never used up.
  \<^item> \<open>Runtime\<close>: a task beside a changing outside. \<open>platform\<close> is everything the program calls that is not its own (Kafka clients,
    \<open>asyncio.sleep\<close>, the progress of the others during a request, on which texts \<open>json.loads\<close> exhausts the stack). Every call is written to a history, which no definition
    reads. \<open>tracks\<close> relates the history of a piece of code to an automaton, with a rule for each construct of the code.
  \<^item> \<open>Models\<close>: \<open>src/dedup/models.py\<close>, \<open>src/config.py\<close>.

  \<^bold>\<open>The stores.\<close>
  \<^item> \<open>Dedup_Store\<close>: the interface of \<open>src/dedup/store.py\<close> (\<open>store_ops\<close>), an abstract machine over one cell for each message
    (\<open>a_claim\<close>, \<open>a_complete\<close>, \<open>a_fail\<close>, \<open>a_delete\<close>), and the contracts \<open>dedup_store\<close> and \<open>guarded_store\<close>: the methods act on
    the cells as the machine does, and one that raises has either acted or not. The second also promises that \<open>mark_failed\<close>
    leaves messages alone that are not being processed.
  \<^item> \<open>Protocol\<close>: any number of users in any order (\<open>history\<close>). Inside the contracts: a claim excludes others while its lease
    lasts, one of several claims wins, a completed message stays completed.
  \<^item> \<open>Memory_Store\<close>, \<open>Memory_Props\<close>: \<open>src/dedup/memory_store.py\<close>, an instance of \<open>dedup_store\<close> but not of \<open>guarded_store\<close>.
  \<^item> \<open>Redis_Store\<close>: both Lua scripts and every method of \<open>src/dedup/redis_store.py\<close>, over the server's keyspace. \<open>Redis_Contract\<close>
    states the documented behaviour of the server, \<open>cjson\<close> and pydantic as the locale \<open>redis_backend\<close>; \<open>Redis_Refines\<close> proves from it that
    the scripts act as the machine (a \<open>sublocale\<close> of \<open>guarded_store\<close>); \<open>Redis_Server\<close> meets the locale with a concrete server that
    may fail at any request; \<open>Redis_Props\<close> has the properties.
  \<^item> \<open>Backends_Agree\<close>: where the two stores answer the same, call by call.

  \<^bold>\<open>The consumer.\<close>
  \<^item> \<open>Metrics\<close>, \<open>Consumer\<close>: the class with every method; one definition for each, in the order of the file, and one for each block of
    \<open>_execute_and_commit\<close> that has a role of its own (\<open>execute_loop\<close>, \<open>on_failure\<close>). The retry loop ends by the measure of the attempts left.
  \<^item> \<open>Lifecycle\<close>: the automaton \<open>life\<close> of one delivery, and that \<open>process_record\<close> refines it whatever is outside. \<open>Consumer_Safety\<close> reads
    the safety properties off the automaton; \<open>Consumer_Run\<close>, over a list of waits for records that deliver one or raise, has \<open>start\<close>, \<open>run\<close> and the message id; \<open>Consumer_Metrics\<close> the counters.
  \<^item> \<open>Carry\<close>: predicates of the state that all calls keep, and the locale \<open>account\<close>: what the store must hold, read off the history of
    calls. With them, \<open>Redelivery\<close>: once filed in memory, not handled again while nobody calls \<open>mark_failed\<close> or \<open>delete\<close> for it; \<open>First_Failure\<close>: one attempt without \<open>retry_failed\<close>;
    \<open>Liveness\<close>: when the services answer, every readable record is committed.
  \<^item> \<open>Redis_Redelivery\<close>: consumers on Redis among any other clients. Once filed, never handled again; claimed and abandoned, handled by
    whoever gets the message after the lease. \<open>Interrupted\<close>: cancelled while handling, skipped by a delivery before the lease has ended.
  \<^item> \<open>Handlers\<close>, \<open>Service\<close>: the three consumers, the process, and the endpoints of \<open>src/api.py\<close>. \<open>Logging\<close>: \<open>src/logging_config.py\<close>.
  \<^item> \<open>Example_Run\<close>: a concrete consumer, for the witnesses.

  \<^bold>\<open>Beside the consumer.\<close>
  \<^item> \<open>Guard\<close>, \<open>Guard_Props\<close>: the context manager and the decorator, with an automaton of their calls.
  \<^item> \<open>Outbox\<close>, \<open>Outbox_Props\<close>: writer and relay with the effect of their SQL; one batch, any sequence of transactions (\<open>outbox_step\<close>), and
    the relay's loop over a list of rounds; when nothing fails, as many rounds as the pending rows fill batches are enough.
    \<open>Outbox_Consumer\<close>: what a consumer makes of a relayed message, with and without an id in its payload.

  \<^bold>\<open>Conventions.\<close> An instant is a number of microseconds. A definition with the name of a Python function is that function; log lines have no
  effect. What is shared by reference is not mutated by the program: payloads and results go from \<open>json.loads\<close> to the handler and from the
  handler to the store, so values stand for references; a handler that changes its payload between attempts is outside the model. Metrics are
  those of this task's calls.

  \<^bold>\<open>Not modelled.\<close>
  \<^item> The limit on recursion outside the two calls of \<open>json.loads\<close> on a message's value: in \<open>json.dumps\<close>, in \<open>str()\<close> of a container, and in
    reading back what Redis stores, where \<open>redis_backend\<close> bounds the nesting instead.
  \<^item> Redis clients configured to send a request again after a lost answer: the contract (\<open>sent_at_most_once\<close>) has each request
    carried out at most once.
  \<^item> \<open>str()\<close> and \<open>repr\<close> of floats and containers, and the texts of the library's exceptions, where nothing depends on them.
  \<^item> How the event loop interleaves the three \<open>run()\<close> of \<open>main\<close>; the theorems about one delivery hold for any progress of the others
    at each request instead.
  \<^item> The constructors of the relay and of the Redis store, which only keep their arguments; \<open>functools.wraps\<close>; the abstract class of
    \<open>src/consumer/base.py\<close>, whose methods have no bodies; the rendering of metrics, logs and HTTP responses.
  \<^item> Deployment, dashboards, SQL tables other than \<open>outbox\<close>, and the tests.
\<close>

end
